(* ===== verification/TF_Prelude.thy ===== *)
theory TF_Prelude
  imports Main "HOL-Library.Word" "HOL-Library.Monad_Syntax"
begin

text \<open>
  Shared vocabulary of the development: the machine types of the C sources, the result type
  of C computations that can go wrong (a failed assertion, an access outside an object, a loop
  that does not end), and the list lemmas used by several components.
\<close>

section \<open>Machine types\<close>

text \<open>The typedefs at the end of \<^verbatim>\<open>compat.h\<close>, and the bytes of a C buffer.\<close>

type_synonym u8 = "8 word"
type_synonym u16 = "16 word"
type_synonym u32 = "32 word"
type_synonym u64 = "64 word"
type_synonym buffer = "u8 list"

section \<open>C computations that may go wrong\<close>

text \<open>
  \<open>Assertion_failure\<close> is a failed \<^verbatim>\<open>CHECK\<close>/\<^verbatim>\<open>DCHECK\<close> (both are \<^verbatim>\<open>assert\<close> in the build of
  the server, which does not define \<^verbatim>\<open>NDEBUG\<close>); \<open>Invalid_access\<close> is a read or write outside
  the object a pointer points into, or through a dangling pointer, or a \<^verbatim>\<open>free\<close> of
  memory that was not allocated; \<open>Uninitialised_read\<close> is the use of a local variable that has not been set; \<open>Division_by_zero\<close> is a
  remainder by zero; \<open>Nontermination\<close> is the answer of a loop whose iteration budget is used up and
  of a thread that waits for a lock nobody releases; \<open>Double_join\<close> and \<open>Join_without_thread\<close> are a \<^verbatim>\<open>pthread_join\<close> of a thread that has
  been joined before and of a thread that was never created, both of which are undefined.
\<close>

datatype fault = Assertion_failure | Invalid_access | Uninitialised_read | Division_by_zero | Nontermination
  | Double_join | Join_without_thread

type_synonym 'a c_result = "fault + 'a"

text \<open>Error numbers of \<^verbatim>\<open>errno.h\<close>.\<close>

definition EIO :: int where "EIO = 5"
definition ENOMEM :: int where "ENOMEM = 12"

definition cbind :: "'a c_result \<Rightarrow> ('a \<Rightarrow> 'b c_result) \<Rightarrow> 'b c_result" where
  "cbind m f = (case m of Inl e \<Rightarrow> Inl e | Inr x \<Rightarrow> f x)"

definition cassert :: "bool \<Rightarrow> unit c_result" where
  "cassert b = (if b then Inr () else Inl Assertion_failure)"

lemma cbind_Inr [simp]: "cbind (Inr x) f = f x"
  by (simp add: cbind_def)

lemma cbind_Inl [simp]: "cbind (Inl e) f = Inl e"
  by (simp add: cbind_def)

lemma cbind_assoc: "cbind (cbind m f) g = cbind m (\<lambda>x. cbind (f x) g)"
  by (cases m) simp_all

lemma cassert_True [simp]: "b \<Longrightarrow> cassert b = Inr ()"
  by (simp add: cassert_def)

lemma cassert_False [simp]: "\<not> b \<Longrightarrow> cassert b = Inl Assertion_failure"
  by (simp add: cassert_def)

lemma cbind_eq_Inr_conv: "cbind m f = Inr y \<longleftrightarrow> (\<exists>x. m = Inr x \<and> f x = Inr y)"
  by (cases m) simp_all

lemma cbind_cong [fundef_cong]:
  "m = m' \<Longrightarrow> (\<And>x. m' = Inr x \<Longrightarrow> f x = g x) \<Longrightarrow> cbind m f = cbind m' g"
  by (cases m) auto

section \<open>Lists\<close>

lemma take_Suc_nth: "i < length xs \<Longrightarrow> take (Suc i) xs = take i xs @ [xs ! i]"
  by (rule take_Suc_conv_app_nth)

lemma nth_eq_take_drop:
  "n \<le> length xs - i \<Longrightarrow> n \<le> length ys - j \<Longrightarrow>
     take n (drop i xs) = take n (drop j ys) \<longleftrightarrow>
     (\<forall>k<n. i + k < length xs \<longrightarrow> j + k < length ys \<longrightarrow> xs ! (i + k) = ys ! (j + k))"
  by (auto simp: list_eq_iff_nth_eq)

lemma take_drop_append_middle:
  "i \<le> j \<Longrightarrow> j \<le> length xs \<Longrightarrow> take i xs @ take (j - i) (drop i xs) = take j xs"
  by (metis le_add_diff_inverse take_add)

section \<open>Words\<close>

text \<open>Sizes that fit survive the conversion to a 32-bit variable, unsigned and signed.\<close>

lemma unat_u32: "n < 2 ^ 32 \<Longrightarrow> unat (word_of_nat n :: u32) = n"
  by (simp add: unat_of_nat take_bit_nat_eq_self_iff)

lemma sint_u32_le: "0 \<le> d \<Longrightarrow> d < 2 ^ 32 \<Longrightarrow> sint (word_of_int d :: u32) \<le> d"
proof -
  assume d: "0 \<le> d" "d < 2 ^ 32"
  have "sint (word_of_int d :: u32) = signed_take_bit 31 d"
    by (simp add: signed_of_int)
  also have "\<dots> \<le> d"
    using d(1) by (simp add: signed_take_bit_int_less_eq_self_iff)
  finally show ?thesis .
qed

end
