(* ===== verification/Snappy_Mem.thy ===== *)
theory Snappy_Mem
  imports TF_Prelude
begin

text \<open>
  Buffers and unaligned memory access of \<^verbatim>\<open>snappy-c\<close> (\<^verbatim>\<open>compat.h\<close> and the macros at the top of
  \<^verbatim>\<open>snappy.c\<close>), for the x86-64 little-endian build: loads and stores that fault outside
  the buffer, the 64-bit block copy, the bit-scan helpers and the hash function. The lemmas
  relate word loads to the bytes of the buffer, which is what the matcher and the hash table
  rely on.
\<close>

unbundle bit_operations_syntax

named_theorems mem_simps \<comment> \<open>evaluation of loads and stores that stay inside a buffer\<close>

section \<open>Loads and stores\<close>

text \<open>\<open>load_bytes b i n\<close> reads the \<open>n\<close> bytes at offset \<open>i\<close>, as \<^verbatim>\<open>memcpy\<close> out of the buffer does.\<close>

definition load_bytes :: "buffer \<Rightarrow> nat \<Rightarrow> nat \<Rightarrow> buffer c_result" where
  "load_bytes b i n = (if i + n \<le> length b then Inr (take n (drop i b)) else Inl Invalid_access)"

definition store_bytes :: "buffer \<Rightarrow> nat \<Rightarrow> buffer \<Rightarrow> buffer c_result" where
  "store_bytes b i bs =
     (if i + length bs \<le> length b then Inr (take i b @ bs @ drop (i + length bs) b)
      else Inl Invalid_access)"

definition load8 :: "buffer \<Rightarrow> nat \<Rightarrow> u8 c_result" where
  "load8 b i = (if i < length b then Inr (b ! i) else Inl Invalid_access)"

definition store8 :: "buffer \<Rightarrow> nat \<Rightarrow> u8 \<Rightarrow> buffer c_result" where
  "store8 b i v = store_bytes b i [v]"

text \<open>Little-endian reading of a byte sequence, and the bytes of a word.\<close>

fun le_word :: "buffer \<Rightarrow> 'a::len word" where
  "le_word [] = 0"
| "le_word (x # xs) = ucast x OR push_bit 8 (le_word xs)"

fun le_bytes :: "nat \<Rightarrow> 'a::len word \<Rightarrow> buffer" where
  "le_bytes 0 w = []"
| "le_bytes (Suc n) w = ucast w # le_bytes n (drop_bit 8 w)"

text \<open>\<^verbatim>\<open>get_unaligned_memcpy\<close> and \<^verbatim>\<open>put_unaligned_memcpy\<close> at the widths the code uses.\<close>

definition UNALIGNED_LOAD32 :: "buffer \<Rightarrow> nat \<Rightarrow> u32 c_result" where
  "UNALIGNED_LOAD32 b p = cbind (load_bytes b p 4) (\<lambda>bs. Inr (le_word bs))"

definition UNALIGNED_LOAD64 :: "buffer \<Rightarrow> nat \<Rightarrow> u64 c_result" where
  "UNALIGNED_LOAD64 b p = cbind (load_bytes b p 8) (\<lambda>bs. Inr (le_word bs))"

definition UNALIGNED_STORE64 :: "buffer \<Rightarrow> nat \<Rightarrow> u64 \<Rightarrow> buffer c_result" where
  "UNALIGNED_STORE64 b p v = store_bytes b p (le_bytes 8 v)"

definition get_unaligned_le32 :: "buffer \<Rightarrow> nat \<Rightarrow> u32 c_result" where
  "get_unaligned_le32 b p = UNALIGNED_LOAD32 b p"

definition put_unaligned_le16 :: "u16 \<Rightarrow> buffer \<Rightarrow> nat \<Rightarrow> buffer c_result" where
  "put_unaligned_le16 v b p = store_bytes b p (le_bytes 2 v)"

text \<open>
  The 64-bit branch of \<^verbatim>\<open>unaligned_copy64\<close>: the eight source bytes are read before any byte
  is written, which matters when source and destination overlap.
\<close>

definition unaligned_copy64 :: "buffer \<Rightarrow> nat \<Rightarrow> buffer \<Rightarrow> nat \<Rightarrow> buffer c_result" where
  "unaligned_copy64 src i dst j =
     cbind (UNALIGNED_LOAD64 src i) (\<lambda>v. UNALIGNED_STORE64 dst j v)"

section \<open>Bit scans and hashing\<close>

text \<open>\<^verbatim>\<open>__builtin_ctz\<close>/\<^verbatim>\<open>__builtin_ctzll\<close> and \<^verbatim>\<open>__builtin_clz\<close> for a nonzero argument.\<close>

definition builtin_ctz :: "'a::len word \<Rightarrow> nat" where
  "builtin_ctz w = length (takeWhile (\<lambda>n. \<not> bit w n) [0..<LENGTH('a)])"

definition builtin_clz :: "u32 \<Rightarrow> nat" where
  "builtin_clz w = length (takeWhile (\<lambda>n. \<not> bit w (31 - n)) [0..<32])"

definition is_little_endian :: bool where
  "is_little_endian = True"

definition log2_floor :: "u32 \<Rightarrow> int" where
  "log2_floor n = (if n = 0 then -1 else 31 XOR int (builtin_clz n))"

definition find_lsb_set_non_zero :: "u32 \<Rightarrow> nat" where
  "find_lsb_set_non_zero n = builtin_ctz n"

definition find_lsb_set_non_zero64 :: "u64 \<Rightarrow> nat" where
  "find_lsb_set_non_zero64 n = builtin_ctz n"

definition hash_bytes :: "u32 \<Rightarrow> nat \<Rightarrow> u32" where
  "hash_bytes bytes shift = drop_bit shift (bytes * 0x1e35a7bd)"

definition hash :: "buffer \<Rightarrow> nat \<Rightarrow> nat \<Rightarrow> u32 c_result" where
  "hash b p shift = cbind (UNALIGNED_LOAD32 b p) (\<lambda>w. Inr (hash_bytes w shift))"

definition get_eight_bytes_at :: "buffer \<Rightarrow> nat \<Rightarrow> u64 c_result" where
  "get_eight_bytes_at b p = UNALIGNED_LOAD64 b p"

definition get_u32_at_offset :: "u64 \<Rightarrow> nat \<Rightarrow> u32 c_result" where
  "get_u32_at_offset v offset =
     cbind (cassert (offset \<le> 4)) (\<lambda>_.
       Inr (ucast (drop_bit (if is_little_endian then 8 * offset else 32 - 8 * offset) v)))"

section \<open>Lemmas\<close>

lemma load_bytes_ok [mem_simps]: "i + n \<le> length b \<Longrightarrow> load_bytes b i n = Inr (take n (drop i b))"
  by (simp add: load_bytes_def)

lemma store_bytes_ok [mem_simps]:
  "i + length bs \<le> length b \<Longrightarrow>
   store_bytes b i bs = Inr (take i b @ bs @ drop (i + length bs) b)"
  by (simp add: store_bytes_def)

lemma load8_ok [mem_simps]: "i < length b \<Longrightarrow> load8 b i = Inr (b ! i)"
  by (simp add: load8_def)

lemma length_le_bytes [simp]: "length (le_bytes n w) = n"
  by (induction n arbitrary: w) simp_all

lemma bit_le_word:
  "bit (le_word bs :: 'a::len word) n \<longleftrightarrow>
     n < LENGTH('a) \<and> n < 8 * length bs \<and> bit (bs ! (n div 8)) (n mod 8)"
proof (induction bs arbitrary: n)
  case Nil
  then show ?case by simp
next
  case (Cons x xs)
  show ?case
  proof (cases "n < 8")
    case True
    then show ?thesis
      by (auto simp: bit_simps dest: bit_imp_le_length)
  next
    case False
    then obtain m where m: "n = m + 8"
      by (metis add.commute le_Suc_ex not_le)
    have "\<not> bit x n"
      using False by (auto dest: bit_imp_le_length)
    moreover have "(m + 8) div 8 = Suc (m div 8)" by simp
    ultimately show ?thesis
      by (auto simp: m bit_simps Cons.IH simp del: div_add_self2 dest: bit_imp_le_length)
  qed
qed

lemma nth_le_bytes:
  "k < n \<Longrightarrow> le_bytes n w ! k = ucast (drop_bit (8 * k) w)"
proof (induction n arbitrary: w k)
  case 0
  then show ?case by simp
next
  case (Suc n)
  then show ?case
    by (cases k) (simp_all add: drop_bit_drop_bit algebra_simps)
qed

lemma le_bytes_le_word:
  assumes "8 * length bs \<le> LENGTH('a::len)"
  shows "le_bytes (length bs) (le_word bs :: 'a word) = bs"
proof (rule nth_equalityI)
  fix k assume "k < length (le_bytes (length bs) (le_word bs :: 'a word))"
  then have k: "k < length bs" by simp
  have "ucast (drop_bit (8 * k) (le_word bs :: 'a word)) = bs ! k"
  proof (rule bit_word_eqI)
    fix n assume "n < LENGTH(8)"
    then have n: "n < 8" by simp
    have "8 * k + n < 8 * length bs" using k n by linarith
    then show "bit (ucast (drop_bit (8 * k) (le_word bs :: 'a word)) :: u8) n = bit (bs ! k) n"
      using n assms by (simp add: bit_simps bit_le_word div_add mod_add_eq)
  qed
  then show "le_bytes (length bs) (le_word bs :: 'a word) ! k = bs ! k"
    using k by (simp add: nth_le_bytes)
qed simp

lemma le_word_inj:
  assumes "length bs = length cs" "8 * length bs \<le> LENGTH('a::len)"
  shows "(le_word bs :: 'a word) = le_word cs \<longleftrightarrow> bs = cs"
  using assms by (metis le_bytes_le_word)

lemma UNALIGNED_LOAD32_ok [mem_simps]:
  "p + 4 \<le> length b \<Longrightarrow> UNALIGNED_LOAD32 b p = Inr (le_word (take 4 (drop p b)))"
  by (simp add: UNALIGNED_LOAD32_def mem_simps)

lemma UNALIGNED_LOAD64_ok [mem_simps]:
  "p + 8 \<le> length b \<Longrightarrow> UNALIGNED_LOAD64 b p = Inr (le_word (take 8 (drop p b)))"
  by (simp add: UNALIGNED_LOAD64_def mem_simps)

lemma unaligned_copy64_ok [mem_simps]:
  assumes "i + 8 \<le> length src" "j + 8 \<le> length dst"
  shows "unaligned_copy64 src i dst j =
           Inr (take j dst @ take 8 (drop i src) @ drop (j + 8) dst)"
proof -
  have "le_bytes 8 (le_word (take 8 (drop i src)) :: u64) = take 8 (drop i src)"
    using assms le_bytes_le_word [of "take 8 (drop i src)", where 'a = 64] by simp
  then show ?thesis
    using assms
    by (simp add: unaligned_copy64_def UNALIGNED_STORE64_def mem_simps)
qed

lemma hash_ok [mem_simps]:
  "p + 4 \<le> length b \<Longrightarrow> hash b p shift = Inr (hash_bytes (le_word (take 4 (drop p b))) shift)"
  by (simp add: hash_def mem_simps)

text \<open>The documented contract of \<^verbatim>\<open>get_u32_at_offset\<close>: it is the 32-bit load at \<open>p + offset\<close>.\<close>

lemma get_u32_at_offset_le_word:
  assumes "length bs = 8" "k \<le> 4"
  shows "get_u32_at_offset (le_word bs) k = Inr (le_word (take 4 (drop k bs)))"
proof -
  have "(ucast (drop_bit (8 * k) (le_word bs :: u64)) :: u32) = le_word (take 4 (drop k bs))"
  proof (rule bit_word_eqI)
    fix n assume "n < LENGTH(32)"
    then have n: "n < 32" by simp
    have "n div 8 < 4" and "8 * k + n < 64" using n assms(2) by (simp_all add: less_mult_imp_div_less)
    then show "bit (ucast (drop_bit (8 * k) (le_word bs :: u64)) :: u32) n =
               bit (le_word (take 4 (drop k bs)) :: u32) n"
      using n assms by (simp add: bit_simps bit_le_word)
  qed
  then show ?thesis
    using assms by (simp add: get_u32_at_offset_def is_little_endian_def)
qed

lemma takeWhile_upt_less:
  assumes "n < m" "\<not> P n"
  shows "length (takeWhile P [0..<m]) \<le> n \<and> \<not> P (length (takeWhile P [0..<m]))
         \<and> (\<forall>k < length (takeWhile P [0..<m]). P k)"
proof -
  let ?t = "takeWhile P [0..<m]"
  have pre: "?t ! k = k" if "k < length ?t" for k
    using that length_takeWhile_le [of P "[0..<m]"]
    by (metis add_0 length_upt less_le_trans minus_nat.diff_0 nth_upt takeWhile_nth)
  have all: "\<forall>k < length ?t. P k"
    using pre by (metis nth_mem set_takeWhileD)
  have le: "length ?t \<le> n"
    using all assms(2) not_le by blast
  have "length ?t < length [0..<m]"
    using le assms(1) by simp
  then have "\<not> P ([0..<m] ! length ?t)"
    by (rule nth_length_takeWhile)
  then show ?thesis
    using all le assms(1) by simp
qed

lemma builtin_ctz_bit:
  fixes w :: "'a::len word"
  assumes "w \<noteq> 0"
  shows "builtin_ctz w < LENGTH('a) \<and> bit w (builtin_ctz w) \<and> (\<forall>k < builtin_ctz w. \<not> bit w k)"
proof -
  obtain n where n: "bit w n" "n < LENGTH('a)"
    using assms by (metis bit_0_eq bit_word_eqI bot_apply bot_bool_def)
  define t where "t = length (takeWhile (\<lambda>n. \<not> bit w n) [0..<LENGTH('a)])"
  have "t \<le> n \<and> \<not> \<not> bit w t \<and> (\<forall>k < t. \<not> bit w k)"
    unfolding t_def using takeWhile_upt_less [of n "LENGTH('a)" "\<lambda>n. \<not> bit w n"] n by blast
  then show ?thesis
    using n(2) by (simp add: builtin_ctz_def flip: t_def)
qed

text \<open>A hash never exceeds the table mask: this is what keeps table accesses in bounds.\<close>

lemma unat_hash_bytes_less: "shift \<le> 32 \<Longrightarrow> unat (hash_bytes w shift) < 2 ^ (32 - shift)"
proof -
  assume s: "shift \<le> 32"
  have "unat (w * 0x1e35a7bd) < 2 ^ 32"
    using unsigned_less [of "w * 0x1e35a7bd"] by simp
  also have "(2::nat) ^ 32 = 2 ^ (32 - shift) * 2 ^ shift"
    using s by (simp flip: power_add)
  finally have "unat (w * 0x1e35a7bd) div 2 ^ shift < 2 ^ (32 - shift)"
    by (simp add: less_mult_imp_div_less)
  then show ?thesis
    by (simp add: hash_bytes_def unat_drop_bit_eq flip: drop_bit_eq_div)
qed

end
