(* ===== verification/Snappy_Match.thy ===== *)
theory Snappy_Match
  imports Snappy_Mem
begin

text \<open>
  \<^verbatim>\<open>find_match_length\<close> of \<^verbatim>\<open>snappy.c\<close> in its two compiled forms: the x86-64 one, which compares
  eight bytes at a time and finds the first difference by a bit scan, and the portable one with
  four. Both are shown to return the length of the longest common prefix, the reference
  definition, and so to agree.
\<close>

section \<open>The 64-bit matcher\<close>

text \<open>\<^verbatim>\<open>s1\<close> and \<^verbatim>\<open>s2\<close> point into the same input buffer; the loop conditions are the source's.\<close>

function match_bytes :: "buffer \<Rightarrow> nat \<Rightarrow> nat \<Rightarrow> nat \<Rightarrow> nat \<Rightarrow> nat c_result" where
  "match_bytes b s1 s2 s2_limit matched =
     (if s2 < s2_limit then
        cbind (load8 b (s1 + matched)) (\<lambda>x. cbind (load8 b s2) (\<lambda>y.
          if x = y then match_bytes b s1 (s2 + 1) s2_limit (matched + 1) else Inr matched))
      else Inr matched)"
  by pat_completeness auto
termination
  by (relation "measure (\<lambda>(b, s1, s2, s2_limit, matched). s2_limit - s2)") auto

function match_words :: "buffer \<Rightarrow> nat \<Rightarrow> nat \<Rightarrow> nat \<Rightarrow> nat \<Rightarrow> nat c_result" where
  "match_words b s1 s2 s2_limit matched =
     (if s2 + 8 \<le> s2_limit then
        cbind (UNALIGNED_LOAD64 b s2) (\<lambda>v2. cbind (UNALIGNED_LOAD64 b (s1 + matched)) (\<lambda>v1.
          if v2 = v1 then match_words b s1 (s2 + 8) s2_limit (matched + 8)
          else (let x = v2 XOR v1; matching_bits = find_lsb_set_non_zero64 x in
                Inr (matched + matching_bits div 8))))
      else match_bytes b s1 s2 s2_limit matched)"
  by pat_completeness auto
termination
  by (relation "measure (\<lambda>(b, s1, s2, s2_limit, matched). s2_limit - s2)") auto

declare match_bytes.simps [simp del] match_words.simps [simp del]

definition find_match_length :: "buffer \<Rightarrow> nat \<Rightarrow> nat \<Rightarrow> nat \<Rightarrow> nat c_result" where
  "find_match_length b s1 s2 s2_limit =
     cbind (cassert (s2_limit \<ge> s2)) (\<lambda>_. match_words b s1 s2 s2_limit 0)"

section \<open>The portable matcher\<close>

function match_words32 :: "buffer \<Rightarrow> nat \<Rightarrow> nat \<Rightarrow> nat \<Rightarrow> nat \<Rightarrow> (nat \<times> nat) c_result" where
  "match_words32 b s1 s2 s2_limit matched =
     (if s2 + 4 \<le> s2_limit then
        cbind (UNALIGNED_LOAD32 b s2) (\<lambda>v2. cbind (UNALIGNED_LOAD32 b (s1 + matched)) (\<lambda>v1.
          if v2 = v1 then match_words32 b s1 (s2 + 4) s2_limit (matched + 4)
          else Inr (s2, matched)))
      else Inr (s2, matched))"
  by pat_completeness auto
termination
  by (relation "measure (\<lambda>(b, s1, s2, s2_limit, matched). s2_limit - s2)") auto

declare match_words32.simps [simp del]

definition find_match_length_portable :: "buffer \<Rightarrow> nat \<Rightarrow> nat \<Rightarrow> nat \<Rightarrow> nat c_result" where
  "find_match_length_portable b s1 s2 s2_limit =
     cbind (cassert (s2_limit \<ge> s2)) (\<lambda>_.
     cbind (match_words32 b s1 s2 s2_limit 0) (\<lambda>(s2, matched).
       if is_little_endian \<and> s2 + 4 \<le> s2_limit then
         cbind (UNALIGNED_LOAD32 b s2) (\<lambda>v2. cbind (UNALIGNED_LOAD32 b (s1 + matched)) (\<lambda>v1.
           let x = v2 XOR v1; matching_bits = find_lsb_set_non_zero x in
           Inr (matched + matching_bits div 8)))
       else match_bytes b s1 s2 s2_limit matched))"

section \<open>Reference: longest common prefix\<close>

fun common_prefix :: "buffer \<Rightarrow> buffer \<Rightarrow> nat" where
  "common_prefix (x # xs) (y # ys) = (if x = y then Suc (common_prefix xs ys) else 0)"
| "common_prefix _ _ = 0"

text \<open>The bytes from \<open>s2\<close> to \<open>s2_limit\<close>, and their possible match from \<open>s1\<close> on.\<close>

definition match_len :: "buffer \<Rightarrow> nat \<Rightarrow> nat \<Rightarrow> nat \<Rightarrow> nat" where
  "match_len b s1 s2 s2_limit = common_prefix (drop s1 b) (take (s2_limit - s2) (drop s2 b))"

lemma common_prefix_le: "common_prefix xs ys \<le> length xs \<and> common_prefix xs ys \<le> length ys"
  by (induction xs ys rule: common_prefix.induct) auto

lemma common_prefix_nth: "k < common_prefix xs ys \<Longrightarrow> xs ! k = ys ! k"
proof (induction xs ys arbitrary: k rule: common_prefix.induct)
  case (1 x xs y ys)
  then show ?case by (cases k) (auto split: if_splits)
qed auto

lemma common_prefix_append_eq:
  "length xs = n \<Longrightarrow> length ys = n \<Longrightarrow> xs = ys \<Longrightarrow>
   common_prefix (xs @ xs') (ys @ ys') = n + common_prefix xs' ys'"
  by (induction xs arbitrary: ys n) auto

lemma common_prefix_first_diff:
  "k < length xs \<Longrightarrow> k < length ys \<Longrightarrow> xs ! k \<noteq> ys ! k \<Longrightarrow> (\<And>j. j < k \<Longrightarrow> xs ! j = ys ! j) \<Longrightarrow>
   common_prefix xs ys = k"
proof (induction xs ys arbitrary: k rule: common_prefix.induct)
  case (1 x xs y ys)
  show ?case
  proof (cases k)
    case 0
    then show ?thesis using "1.prems"(3) by simp
  next
    case (Suc m)
    have "x = y" using "1.prems"(4) [of 0] Suc by simp
    moreover have "common_prefix xs ys = m"
    proof (rule "1.IH" [OF \<open>x = y\<close>])
      show "m < length xs" "m < length ys" "xs ! m \<noteq> ys ! m"
        using "1.prems"(1,2,3) Suc by simp_all
      show "xs ! j = ys ! j" if "j < m" for j
        using "1.prems"(4) [of "Suc j"] that Suc by simp
    qed
    ultimately show ?thesis using Suc by simp
  qed
qed auto

section \<open>Correctness\<close>

lemma match_len_skip:
  assumes "s2 + n \<le> s2_limit" "s2_limit \<le> length b" "s1 \<le> s2"
    and "take n (drop s1 b) = take n (drop s2 b)"
  shows "match_len b s1 s2 s2_limit = n + match_len b (s1 + n) (s2 + n) s2_limit"
proof -
  have 1: "drop s1 b = take n (drop s1 b) @ drop (s1 + n) b"
    using append_take_drop_id [of n "drop s1 b"] by (simp add: add.commute)
  have 2: "take (s2_limit - s2) (drop s2 b) =
      take n (drop s2 b) @ take (s2_limit - (s2 + n)) (drop (s2 + n) b)"
    using take_add [of n "s2_limit - (s2 + n)" "drop s2 b"] assms(1) by (simp add: add.commute)
  show ?thesis
    unfolding match_len_def using assms
    by (subst 1, subst 2) (rule common_prefix_append_eq, auto)
qed

lemma match_len_end [simp]: "s2_limit \<le> s2 \<Longrightarrow> match_len b s1 s2 s2_limit = 0"
  by (cases "drop s1 b") (simp_all add: match_len_def)

lemma match_bytes_correct:
  assumes "s2 \<le> s2_limit" "s2_limit \<le> length b" "s1 + matched \<le> s2"
  shows "match_bytes b s1 s2 s2_limit matched = Inr (matched + match_len b (s1 + matched) s2 s2_limit)"
  using assms
proof (induction b s1 s2 s2_limit matched rule: match_bytes.induct)
  case (1 b s1 s2 s2_limit matched)
  show ?case
  proof (cases "s2 < s2_limit")
    case False
    then show ?thesis by (simp add: match_bytes.simps)
  next
    case True
    have ok: "load8 b (s1 + matched) = Inr (b ! (s1 + matched))" "load8 b s2 = Inr (b ! s2)"
      using True "1.prems" by (simp_all add: mem_simps)
    show ?thesis
    proof (cases "b ! (s1 + matched) = b ! s2")
      case eq: True
      have "match_len b (s1 + matched) s2 s2_limit =
              1 + match_len b (s1 + matched + 1) (s2 + 1) s2_limit"
        using True "1.prems" eq by (intro match_len_skip) (auto simp: take_Suc_conv_app_nth)
      then show ?thesis
        using "1.IH" [OF True ok eq] "1.prems" True ok eq
        by (subst match_bytes.simps) simp
    next
      case neq: False
      have "match_len b (s1 + matched) s2 s2_limit = 0"
        unfolding match_len_def using True "1.prems" neq
        by (intro common_prefix_first_diff) auto
      then show ?thesis
        using True ok neq by (subst match_bytes.simps) simp
    qed
  qed
qed

text \<open>The bit scan: the lowest differing bit of two words is in the first differing byte.\<close>

lemma first_diff_byte:
  fixes xs ys :: buffer
  assumes len: "length xs = n" "length ys = n" "8 * n \<le> LENGTH('a::len)" and neq: "xs \<noteq> ys"
    and k: "k = builtin_ctz ((le_word ys :: 'a word) XOR le_word xs) div 8"
  shows "k < n \<and> xs ! k \<noteq> ys ! k \<and> (\<forall>j<k. xs ! j = ys ! j)"
proof -
  let ?x = "(le_word ys :: 'a word) XOR le_word xs"
  let ?c = "builtin_ctz ?x"
  have "(le_word ys :: 'a word) \<noteq> le_word xs"
    using le_word_inj [of ys xs, where 'a = 'a] len neq by auto
  then have "?x \<noteq> 0" by (metis xor.assoc xor.left_neutral xor.right_neutral xor_self_eq)
  note c = builtin_ctz_bit [OF this]
  have bit: "bit ?x m \<longleftrightarrow> m < 8 * n \<and> bit (ys ! (m div 8)) (m mod 8) \<noteq> bit (xs ! (m div 8)) (m mod 8)" for m
    using len by (auto simp: bit_xor_iff bit_le_word)
  have "k < n" using c bit [of ?c] by (simp add: k less_mult_imp_div_less mult.commute)
  moreover have "xs ! k \<noteq> ys ! k" using c bit [of ?c] by (auto simp: k)
  moreover have "xs ! j = ys ! j" if "j < k" for j
  proof (rule bit_word_eqI)
    fix m assume "m < LENGTH(8)"
    then have m: "m < 8" by simp
    then have "8 * j + m < ?c" using that unfolding k by (auto simp: less_eq_div_iff_mult_less_eq)
    then have "\<not> bit ?x (8 * j + m)" using c by blast
    moreover have "8 * j + m < 8 * n" using that \<open>k < n\<close> m by linarith
    ultimately show "bit (xs ! j) m = bit (ys ! j) m" using m bit [of "8 * j + m"] by simp
  qed
  ultimately show ?thesis by blast
qed

text \<open>One word comparison that fails gives the rest of the match length.\<close>

lemma word_mismatch_len:
  assumes "s2 + n \<le> s2_limit" "s2_limit \<le> length b" "s1 \<le> s2" "8 * n \<le> LENGTH('a::len)"
    and "(le_word (take n (drop s2 b)) :: 'a word) \<noteq> le_word (take n (drop s1 b))"
  shows "match_len b s1 s2 s2_limit =
           builtin_ctz ((le_word (take n (drop s2 b)) :: 'a word) XOR le_word (take n (drop s1 b))) div 8"
    (is "_ = ?k")
proof -
  let ?xs = "take n (drop s1 b)" and ?ys = "take n (drop s2 b)"
  have l: "length ?xs = n" "length ?ys = n" using assms by auto
  have "?xs \<noteq> ?ys" using assms(5) by auto
  from first_diff_byte [OF l assms(4) this refl]
  have k: "?k < n" "?xs ! ?k \<noteq> ?ys ! ?k" "\<forall>j<?k. ?xs ! j = ?ys ! j" by blast+
  show ?thesis
    unfolding match_len_def
  proof (rule common_prefix_first_diff)
    show "?k < length (drop s1 b)" "?k < length (take (s2_limit - s2) (drop s2 b))"
      using k(1) assms(1,2,3) by auto
    show "drop s1 b ! ?k \<noteq> take (s2_limit - s2) (drop s2 b) ! ?k"
      using k(1,2) assms(1,2,3) by simp
    show "drop s1 b ! j = take (s2_limit - s2) (drop s2 b) ! j" if "j < ?k" for j
      using k(3) [rule_format, OF that] k(1) that assms(1,2,3) by simp
  qed
qed

lemma match_words_correct:
  assumes "s2 \<le> s2_limit" "s2_limit \<le> length b" "s1 + matched \<le> s2"
  shows "match_words b s1 s2 s2_limit matched = Inr (matched + match_len b (s1 + matched) s2 s2_limit)"
  using assms
proof (induction b s1 s2 s2_limit matched rule: match_words.induct)
  case (1 b s1 s2 s2_limit matched)
  show ?case
  proof (cases "s2 + 8 \<le> s2_limit")
    case False
    then show ?thesis using "1.prems" by (subst match_words.simps) (simp add: match_bytes_correct)
  next
    case True
    let ?v2 = "le_word (take 8 (drop s2 b)) :: u64" and ?v1 = "le_word (take 8 (drop (s1 + matched) b)) :: u64"
    have ok: "UNALIGNED_LOAD64 b s2 = Inr ?v2" "UNALIGNED_LOAD64 b (s1 + matched) = Inr ?v1"
      using True "1.prems" by (simp_all add: mem_simps)
    show ?thesis
    proof (cases "?v2 = ?v1")
      case eq: True
      then have "take 8 (drop (s1 + matched) b) = take 8 (drop s2 b)"
        using le_word_inj [of "take 8 (drop s2 b)" "take 8 (drop (s1 + matched) b)", where 'a = 64]
          True "1.prems" by auto
      then have "match_len b (s1 + matched) s2 s2_limit =
              8 + match_len b (s1 + matched + 8) (s2 + 8) s2_limit"
        using True "1.prems" by (intro match_len_skip) auto
      then show ?thesis
        using "1.IH" [OF True ok eq] "1.prems" True ok eq
        by (subst match_words.simps) (simp add: add.assoc)
    next
      case neq: False
      have "match_len b (s1 + matched) s2 s2_limit = builtin_ctz (?v2 XOR ?v1) div 8"
        using True "1.prems" neq by (intro word_mismatch_len) auto
      then show ?thesis
        using True ok neq by (subst match_words.simps) (simp add: Let_def find_lsb_set_non_zero64_def)
    qed
  qed
qed

lemma find_match_length_ok:
  assumes "s1 \<le> s2" "s2 \<le> s2_limit" "s2_limit \<le> length b"
  shows "find_match_length b s1 s2 s2_limit = Inr (match_len b s1 s2 s2_limit)"
  using assms match_words_correct [of s2 s2_limit b s1 0] by (simp add: find_match_length_def)

lemma match_words32_correct:
  assumes "s2 \<le> s2_limit" "s2_limit \<le> length b" "s1 + matched \<le> s2"
  shows "\<exists>n. match_words32 b s1 s2 s2_limit matched = Inr (s2 + n, matched + n)
           \<and> s2 + n \<le> s2_limit
           \<and> match_len b (s1 + matched) s2 s2_limit = n + match_len b (s1 + matched + n) (s2 + n) s2_limit
           \<and> (s2 + n + 4 \<le> s2_limit \<longrightarrow>
                (le_word (take 4 (drop (s2 + n) b)) :: u32) \<noteq> le_word (take 4 (drop (s1 + matched + n) b)))"
  using assms
proof (induction b s1 s2 s2_limit matched rule: match_words32.induct)
  case (1 b s1 s2 s2_limit matched)
  let ?v2 = "le_word (take 4 (drop s2 b)) :: u32" and ?v1 = "le_word (take 4 (drop (s1 + matched) b)) :: u32"
  show ?case
  proof (cases "s2 + 4 \<le> s2_limit \<and> ?v2 = ?v1")
    case True
    then have ok: "UNALIGNED_LOAD32 b s2 = Inr ?v2" "UNALIGNED_LOAD32 b (s1 + matched) = Inr ?v1"
      using "1.prems" by (simp_all add: mem_simps)
    have "take 4 (drop (s1 + matched) b) = take 4 (drop s2 b)"
      using le_word_inj [of "take 4 (drop s2 b)" "take 4 (drop (s1 + matched) b)", where 'a = 32]
        True "1.prems" by auto
    then have step: "match_len b (s1 + matched) s2 s2_limit =
            4 + match_len b (s1 + matched + 4) (s2 + 4) s2_limit"
      using True "1.prems" by (intro match_len_skip) auto
    have rec: "match_words32 b s1 s2 s2_limit matched = match_words32 b s1 (s2 + 4) s2_limit (matched + 4)"
      using True ok by (subst match_words32.simps) simp
    obtain n where n: "match_words32 b s1 (s2 + 4) s2_limit (matched + 4) = Inr (s2 + 4 + n, matched + 4 + n)"
        "s2 + 4 + n \<le> s2_limit"
        "match_len b (s1 + (matched + 4)) (s2 + 4) s2_limit =
           n + match_len b (s1 + (matched + 4) + n) (s2 + 4 + n) s2_limit"
        "s2 + 4 + n + 4 \<le> s2_limit \<longrightarrow>
           (le_word (take 4 (drop (s2 + 4 + n) b)) :: u32) \<noteq> le_word (take 4 (drop (s1 + (matched + 4) + n) b))"
      using "1.IH" [OF _ ok] True "1.prems" by auto
    show ?thesis
      using n step by (intro exI [of _ "4 + n"]) (simp add: rec add.assoc)
  next
    case False
    then have "match_words32 b s1 s2 s2_limit matched = Inr (s2, matched)"
      using "1.prems" by (subst match_words32.simps) (auto simp: mem_simps)
    then show ?thesis
      using False "1.prems" by (intro exI [of _ 0]) auto
  qed
qed

section \<open>Properties of the matcher\<close>

text \<open>
  \<^verbatim>\<open>find_match_length\<close> (the x86-64 version) stays inside the buffer, does not fail its assertion
  and returns the largest \<open>n\<close> with \<^verbatim>\<open>s1[0,n-1] == s2[0,n-1]\<close> and \<^verbatim>\<open>n <= s2_limit - s2\<close>, the contract in its
  comment.
\<close>

theorem find_match_length_longest:
  assumes "s1 \<le> s2" "s2 \<le> s2_limit" "s2_limit \<le> length b"
  shows "\<exists>n. find_match_length b s1 s2 s2_limit = Inr n \<and> s2 + n \<le> s2_limit
           \<and> (\<forall>k<n. b ! (s1 + k) = b ! (s2 + k))
           \<and> (s2 + n < s2_limit \<longrightarrow> b ! (s1 + n) \<noteq> b ! (s2 + n))"
proof -
  let ?n = "match_len b s1 s2 s2_limit"
  let ?xs = "drop s1 b" and ?ys = "take (s2_limit - s2) (drop s2 b)"
  have le: "s2 + ?n \<le> s2_limit"
    using common_prefix_le [of ?xs ?ys] assms by (auto simp: match_len_def)
  have "b ! (s1 + k) = b ! (s2 + k)" if "k < ?n" for k
    using common_prefix_nth [of k ?xs ?ys] that le assms by (simp add: match_len_def)
  moreover have "b ! (s1 + ?n) \<noteq> b ! (s2 + ?n)" if "s2 + ?n < s2_limit"
  proof
    assume "b ! (s1 + ?n) = b ! (s2 + ?n)"
    then have "take (Suc ?n) ?xs = take (Suc ?n) (drop s2 b)"
      using calculation that assms by (simp add: list_eq_iff_nth_eq less_Suc_eq)
    then have "?n = Suc ?n + match_len b (s1 + Suc ?n) (s2 + Suc ?n) s2_limit"
      using that assms by (intro match_len_skip) auto
    then show False by simp
  qed
  ultimately show ?thesis
    using find_match_length_ok [OF assms] le by blast
qed

theorem find_match_length_longest_witness:
  "\<exists>n. find_match_length [7, 8, 7, 8, 9] 0 2 5 = Inr n \<and> 2 + n \<le> 5
     \<and> (\<forall>k<n. [7, 8, 7, 8, 9 :: u8] ! (0 + k) = [7, 8, 7, 8, 9] ! (2 + k))
     \<and> (2 + n < 5 \<longrightarrow> [7, 8, 7, 8, 9 :: u8] ! (0 + n) \<noteq> [7, 8, 7, 8, 9] ! (2 + n))"
  by (rule find_match_length_longest) simp_all

text \<open>
  C32. The optimised 64-bit matcher and the portable 32-bit matcher compute the same result.
\<close>

theorem find_match_length_portable_eq:
  assumes "s1 \<le> s2" "s2 \<le> s2_limit" "s2_limit \<le> length b"
  shows "find_match_length_portable b s1 s2 s2_limit = find_match_length b s1 s2 s2_limit"
proof -
  obtain n where n: "match_words32 b s1 s2 s2_limit 0 = Inr (s2 + n, n)" "s2 + n \<le> s2_limit"
      "match_len b s1 s2 s2_limit = n + match_len b (s1 + n) (s2 + n) s2_limit"
      "s2 + n + 4 \<le> s2_limit \<longrightarrow>
         (le_word (take 4 (drop (s2 + n) b)) :: u32) \<noteq> le_word (take 4 (drop (s1 + n) b))"
    using match_words32_correct [of s2 s2_limit b s1 0] assms by auto
  have "find_match_length_portable b s1 s2 s2_limit = Inr (match_len b s1 s2 s2_limit)"
  proof (cases "s2 + n + 4 \<le> s2_limit")
    case True
    have "match_len b (s1 + n) (s2 + n) s2_limit = builtin_ctz
        ((le_word (take 4 (drop (s2 + n) b)) :: u32) XOR le_word (take 4 (drop (s1 + n) b))) div 8"
      using True n(4) assms by (intro word_mismatch_len) auto
    then show ?thesis
      using True n assms
      by (simp add: find_match_length_portable_def is_little_endian_def mem_simps Let_def
          find_lsb_set_non_zero_def)
  next
    case False
    then show ?thesis
      using n assms match_bytes_correct [of "s2 + n" s2_limit b s1 n]
      by (simp add: find_match_length_portable_def)
  qed
  then show ?thesis using find_match_length_ok [OF assms] by simp
qed

theorem find_match_length_portable_eq_witness:
  "find_match_length_portable [7, 8, 7, 8, 9] 0 2 5 = find_match_length [7, 8, 7, 8, 9] 0 2 5"
  by (rule find_match_length_portable_eq) simp_all

end
