(* ===== verification/Snappy_Source.thy ===== *)
theory Snappy_Source
  imports Snappy_Mem
begin

text \<open>
  The byte sources of \<^verbatim>\<open>snappy.c\<close>: the flat \<^verbatim>\<open>struct source\<close> of the build without \<^verbatim>\<open>SG\<close> and the
  scatter-gather one over an array of \<^verbatim>\<open>iovec\<close>s. The compressor and the decompressor only call
  \<^verbatim>\<open>peek\<close> and \<^verbatim>\<open>skip\<close>; the locale \<open>byte_source\<close> states what they rely on, and both sources are
  shown to provide it. The weaker contract \<open>byte_reader\<close>, which is all the decompressor needs, also holds for a single
  vector whose length does not fit the \<^verbatim>\<open>int\<close> in which the scatter-gather source keeps its offset.
\<close>

section \<open>The interface\<close>

text \<open>
  \<open>peek\<close> yields the memory from the current position on and the number of bytes that may be read
  there; \<open>skip\<close> advances (and may fail an assertion). \<open>rest\<close> abstracts a source to the bytes
  it still delivers. All peeked bytes may be skipped at once; fewer only as far as the source has \<open>room\<close> for them in its
  position, or without a limit when it is \<open>roomy\<close>.
\<close>

locale byte_reader =
  fixes peek :: "'s \<Rightarrow> buffer \<times> nat"
    and skip :: "'s \<Rightarrow> nat \<Rightarrow> 's c_result"
    and rest :: "'s \<Rightarrow> buffer"
    and invar :: "'s \<Rightarrow> bool"
    and room :: "'s \<Rightarrow> nat"
    and roomy :: "'s \<Rightarrow> bool"
  assumes peek_avail: "invar s \<Longrightarrow> peek s = (m, n) \<Longrightarrow> n \<le> length m \<and> n \<le> length (rest s)"
    and peek_bytes: "invar s \<Longrightarrow> peek s = (m, n) \<Longrightarrow> take n m = take n (rest s)"
    and peek_progress: "invar s \<Longrightarrow> peek s = (m, 0) \<Longrightarrow> rest s = []"
    and skip_reader: "invar s \<Longrightarrow> peek s = (m, n) \<Longrightarrow> k \<le> n \<Longrightarrow> k = n \<or> k \<le> room s \<or> roomy s \<Longrightarrow>
                    \<exists>s'. skip s k = Inr s' \<and> invar s' \<and> rest s' = drop k (rest s)"
    and skip_room: "invar s \<Longrightarrow> peek s = (m, n) \<Longrightarrow> k < n \<Longrightarrow> k \<le> room s \<Longrightarrow> skip s k = Inr s' \<Longrightarrow>
                    room s \<le> room s' + k"
    and skip_roomy: "invar s \<Longrightarrow> roomy s \<Longrightarrow> skip s k = Inr s' \<Longrightarrow> roomy s'"
    and skip_all: "invar s \<Longrightarrow> peek s = (m, n) \<Longrightarrow> 0 < n \<Longrightarrow> skip s n = Inr s' \<Longrightarrow> rest s' = [] \<or> roomy s'"
    and rest_small: "invar s \<Longrightarrow> length (rest s) < 2 ^ 32"
begin

text \<open>Facts about one round of peek and skip that its clients use.\<close>

lemma peek_nth:
  assumes "invar s" "peek s = (m, n)" "i < n"
  shows "m ! i = rest s ! i"
  using peek_bytes [OF assms(1,2)] assms(3) by (metis nth_take)

lemma peek_take:
  assumes "invar s" "peek s = (m, n)" "k \<le> n"
  shows "take k m = take k (rest s)"
  using peek_bytes [OF assms(1,2)] assms(3) by (metis min.absorb1 take_take)

lemma peek_zero_iff:
  assumes "invar s" "peek s = (m, n)"
  shows "n = 0 \<longleftrightarrow> rest s = []"
  using peek_progress [OF assms(1)] peek_avail [OF assms] assms(2) by auto

lemma load8_peek:
  assumes "invar s" "peek s = (m, n)" "0 < n"
  shows "load8 m 0 = Inr (hd (rest s))"
proof -
  have "rest s \<noteq> []" using peek_zero_iff [OF assms(1,2)] assms(3) by simp
  moreover have "m ! 0 = rest s ! 0" by (rule peek_nth [OF assms])
  ultimately show ?thesis
    using peek_avail [OF assms(1,2)] assms(3) by (auto simp: load8_def hd_conv_nth)
qed

lemma unat_avail:
  assumes "invar s" "peek s = (m, n)"
  shows "unat (word_of_nat n :: u32) = n"
  using peek_avail [OF assms] rest_small [OF assms(1)]
  by (simp add: unat_of_nat take_bit_nat_eq_self_iff)

end

text \<open>A source whose position has room for every number of bytes: what the compressor asks for.\<close>

locale byte_source = byte_reader peek skip rest invar "\<lambda>_. 0" "\<lambda>_. True"
  for peek :: "'s \<Rightarrow> buffer \<times> nat" and skip rest invar
begin

lemma skip_ok:
  "invar s \<Longrightarrow> peek s = (m, n) \<Longrightarrow> k \<le> n \<Longrightarrow>
     \<exists>s'. skip s k = Inr s' \<and> invar s' \<and> rest s' = drop k (rest s)"
  by (rule skip_reader) simp_all

end

section \<open>The flat source\<close>

text \<open>\<^verbatim>\<open>ptr\<close> points into the memory block \<open>smem\<close>; \<^verbatim>\<open>left\<close> is a \<^verbatim>\<open>size_t\<close> of 64 bits.\<close>

record source =
  smem :: buffer
  ptr :: nat
  left :: nat

text \<open>\<^verbatim>\<open>return s->left\<close> through the return type \<^verbatim>\<open>int\<close>.\<close>

definition available :: "source \<Rightarrow> int" where
  "available s = sint (word_of_nat (left s) :: 32 word)"

definition peek :: "source \<Rightarrow> buffer \<times> nat" where
  "peek s = (drop (ptr s) (smem s), left s)"

definition skip :: "source \<Rightarrow> nat \<Rightarrow> source c_result" where
  "skip s n = Inr (s\<lparr>left := nat ((int (left s) - int n) mod 2 ^ 64), ptr := ptr s + n\<rparr>)"

definition source_rest :: "source \<Rightarrow> buffer" where
  "source_rest s = take (left s) (drop (ptr s) (smem s))"

definition source_invar :: "source \<Rightarrow> bool" where
  "source_invar s \<longleftrightarrow> ptr s + left s \<le> length (smem s) \<and> left s < 2 ^ 32"

lemma skip_eq: "n \<le> left s \<Longrightarrow> left s < 2 ^ 64 \<Longrightarrow>
    skip s n = Inr (s\<lparr>left := left s - n, ptr := ptr s + n\<rparr>)"
  by (simp add: skip_def flip: of_nat_diff)

interpretation flat: byte_source peek skip source_rest source_invar
proof
  fix s :: source and m n k
  assume i: "source_invar s"
  show "length (source_rest s) < 2 ^ 32"
    using i by (auto simp: source_invar_def source_rest_def)
  { assume p: "Snappy_Source.peek s = (m, n)"
    show "n \<le> length m \<and> n \<le> length (source_rest s)"
      using i p by (auto simp: source_invar_def source_rest_def peek_def)
    show "take n m = take n (source_rest s)"
      using p by (auto simp: source_rest_def peek_def)
    assume "k \<le> n"
    moreover have "n < 2 ^ 64" using i p by (auto simp: source_invar_def peek_def)
    ultimately show "\<exists>s'. skip s k = Inr s' \<and> source_invar s' \<and> source_rest s' = drop k (source_rest s)"
      using i p by (auto simp: skip_eq source_invar_def source_rest_def peek_def drop_take add.commute)
  }
  assume "Snappy_Source.peek s = (m, 0)"
  then show "source_rest s = []" by (simp add: source_rest_def peek_def)
qed simp_all

section \<open>The scatter-gather source\<close>

text \<open>
  The \<^verbatim>\<open>#ifdef SG\<close> variant: a current vector and an offset in it. The offset is an \<^verbatim>\<open>int\<close>, the lengths it is
  compared with are \<^verbatim>\<open>size_t\<close>: a negative offset counts as a huge one.
\<close>

record iovec =
  iov_base :: buffer
  iov_len :: nat

record iov_source =
  iov :: "iovec list"
  iovlen :: nat
  curvec :: nat
  curoff :: int
  total :: nat

definition c_int :: "int \<Rightarrow> int" where
  "c_int x = sint (word_of_int x :: 32 word)"

definition c_size :: "int \<Rightarrow> nat" where
  "c_size x = nat (x mod 2 ^ 64)"

definition available_sg :: "iov_source \<Rightarrow> int" where
  "available_sg s = sint (word_of_nat (total s) :: 32 word)"

definition peek_sg :: "iov_source \<Rightarrow> buffer \<times> nat" where
  "peek_sg s =
     (if curvec s < iovlen s then
        (let iv = iov s ! curvec s; off = c_size (curoff s) in
         if off < iov_len iv then (drop off (iov_base iv), iov_len iv - off)
         else ([], 0))
      else ([], 0))"

text \<open>The flag \<open>dbg\<close>: \<^verbatim>\<open>DCHECK_LE\<close> is compiled in, that is, \<^verbatim>\<open>NDEBUG\<close> is not defined.\<close>

definition skip_sg :: "bool \<Rightarrow> iov_source \<Rightarrow> nat \<Rightarrow> iov_source c_result" where
  "skip_sg dbg s n =
     (if curvec s < length (iov s) then
        (let iv = iov s ! curvec s; off = c_int (curoff s + int n) in
         cbind (if dbg then cassert (c_size off \<le> iov_len iv) else Inr ()) (\<lambda>_.
           Inr (if c_size off \<ge> iov_len iv \<and> curvec s + 1 < iovlen s
                then s\<lparr>curoff := 0, curvec := curvec s + 1\<rparr>
                else s\<lparr>curoff := off\<rparr>)))
      else Inl Invalid_access)"

lemma c_int_small: "0 \<le> x \<Longrightarrow> x < 2 ^ 31 \<Longrightarrow> c_int x = x"
  by (simp add: c_int_def sint_sbintrunc' signed_take_bit_int_eq_self)

lemma c_int_range: "- (2 ^ 31) \<le> c_int x" "c_int x < 2 ^ 31"
  using sint_range_size [of "word_of_int x :: 32 word"] by (simp_all add: c_int_def word_size)

lemma c_int_id: "- (2 ^ 31) \<le> x \<Longrightarrow> x < 2 ^ 31 \<Longrightarrow> c_int x = x"
  by (simp add: c_int_def sint_sbintrunc' signed_take_bit_int_eq_self)

lemma c_int_wraps: "2 ^ 31 \<le> x \<Longrightarrow> x < 2 ^ 32 \<Longrightarrow> c_int x = x - 2 ^ 32"
proof -
  assume x: "2 ^ 31 \<le> x" "x < 2 ^ 32"
  have "(word_of_int x :: 32 word) = word_of_int (x - 2 ^ 32)"
    by (simp add: word_of_int_eq_iff take_bit_eq_mod mod_diff_right_eq [symmetric])
  then have "c_int x = c_int (x - 2 ^ 32)" unfolding c_int_def by (rule arg_cong)
  also have "\<dots> = x - 2 ^ 32" using x by (intro c_int_id) simp_all
  finally show ?thesis .
qed

lemma c_size_of_nat [simp]: "n < 2 ^ 64 \<Longrightarrow> c_size (int n) = n"
  by (simp add: c_size_def)

lemma c_size_0 [simp]: "c_size 0 = 0"
  by (simp add: c_size_def)

lemma c_size_neg: "- (2 ^ 31) \<le> x \<Longrightarrow> x < 0 \<Longrightarrow> 2 ^ 32 \<le> c_size x"
proof -
  assume x: "- (2 ^ 31) \<le> x" "x < 0"
  have "x mod 2 ^ 64 = (x + 2 ^ 64) mod 2 ^ 64" by simp
  also have "\<dots> = x + 2 ^ 64" using x by (intro mod_pos_pos_trivial) auto
  finally show ?thesis using x by (simp add: c_size_def nat_le_iff le_nat_iff)
qed

definition iov_bytes :: "iovec \<Rightarrow> buffer" where
  "iov_bytes v = take (iov_len v) (iov_base v)"

definition iov_off :: "iov_source \<Rightarrow> nat" where
  "iov_off s = c_size (curoff s)"

definition iov_rest :: "iov_source \<Rightarrow> buffer" where
  "iov_rest s = drop (iov_off s) (iov_bytes (iov s ! curvec s)) @
                concat (map iov_bytes (drop (Suc (curvec s)) (iov s)))"

text \<open>
  Empty vectors may only come last: \<^verbatim>\<open>skip\<close> advances by one vector at most, so an empty one in the
  middle would look like the end of the input.
\<close>

definition empties_last :: "iovec list \<Rightarrow> bool" where
  "empties_last vs \<longleftrightarrow>
     (\<forall>j k. j \<le> k \<longrightarrow> k < length vs \<longrightarrow> iov_len (vs ! j) = 0 \<longrightarrow> iov_len (vs ! k) = 0)"

definition empty_after :: "nat \<Rightarrow> iovec list \<Rightarrow> bool" where
  "empty_after i vs \<longleftrightarrow> (\<forall>k < length vs. i < k \<longrightarrow> iov_len (vs ! k) = 0)"

text \<open>Every vector is shorter than 2 GiB: its offsets fit an \<^verbatim>\<open>int\<close>.\<close>

definition iov_invar :: "iov_source \<Rightarrow> bool" where
  "iov_invar s \<longleftrightarrow>
     iovlen s = length (iov s) \<and> curvec s < iovlen s \<and>
     (\<forall>v \<in> set (iov s). iov_len v \<le> length (iov_base v) \<and> iov_len v < 2 ^ 31) \<and>
     empties_last (iov s) \<and> curoff s = int (iov_off s) \<and>
     (iov_off s < iov_len (iov s ! curvec s) \<or>
      iov_off s = iov_len (iov s ! curvec s) \<and> empty_after (curvec s) (iov s)) \<and>
     length (iov_rest s) < 2 ^ 32"

lemma length_iov_bytes: "iov_len v \<le> length (iov_base v) \<Longrightarrow> length (iov_bytes v) = iov_len v"
  by (simp add: iov_bytes_def)

lemma iov_invarD:
  assumes "iov_invar s"
  shows "iovlen s = length (iov s)" "curvec s < length (iov s)"
    "v \<in> set (iov s) \<Longrightarrow> iov_len v \<le> length (iov_base v)"
    "iov_off s < iov_len (iov s ! curvec s) \<or> iov_off s = iov_len (iov s ! curvec s)"
    "iov_off s \<ge> iov_len (iov s ! curvec s) \<Longrightarrow> empty_after (curvec s) (iov s)"
    "length (iov_rest s) < 2 ^ 32"
    "empties_last (iov s)" "curoff s = int (iov_off s)"
    "v \<in> set (iov s) \<Longrightarrow> iov_len v < 2 ^ 31"
  using assms unfolding iov_invar_def by auto

lemma empties_last_after: "empties_last vs \<Longrightarrow> iov_len (vs ! i) = 0 \<Longrightarrow> empty_after i vs"
  unfolding empties_last_def empty_after_def by (meson less_imp_le)

lemma empty_after_bytes:
  assumes "empty_after i vs"
  shows "concat (map iov_bytes (drop (Suc i) vs)) = []"
proof -
  have "iov_bytes v = []" if "v \<in> set (drop (Suc i) vs)" for v
  proof -
    from that obtain j where "j < length (drop (Suc i) vs)" "v = drop (Suc i) vs ! j"
      unfolding in_set_conv_nth by blast
    then have "v = vs ! (Suc i + j)" "Suc i + j < length vs" by simp_all
    then have "iov_len v = 0" using assms unfolding empty_after_def by simp
    then show ?thesis by (simp add: iov_bytes_def)
  qed
  then show ?thesis by simp
qed

lemma iov_rest_end:
  assumes "iov_invar s" "iov_off s \<ge> iov_len (iov s ! curvec s)"
  shows "iov_rest s = []"
proof -
  have "concat (map iov_bytes (drop (Suc (curvec s)) (iov s))) = []"
    using iov_invarD(5) [OF assms] by (rule empty_after_bytes)
  then show ?thesis
    using assms(2) by (simp add: iov_rest_def iov_bytes_def)
qed

text \<open>What \<^verbatim>\<open>peek\<close> returns, whatever the offset.\<close>

lemma peek_sg_cases:
  assumes "peek_sg s = (m, n)" "curvec s < iovlen s"
  obtains "m = drop (iov_off s) (iov_base (iov s ! curvec s))" "n = iov_len (iov s ! curvec s) - iov_off s"
      "iov_off s < iov_len (iov s ! curvec s)"
  | "m = []" "n = 0" "iov_len (iov s ! curvec s) \<le> iov_off s"
  using assms by (auto simp: peek_sg_def Let_def iov_off_def split: if_splits)

lemma peek_sg_avail:
  assumes "peek_sg s = (m, n)" "curvec s < iovlen s" "iov_len (iov s ! curvec s) \<le> length (iov_base (iov s ! curvec s))"
  shows "n \<le> length m \<and> n \<le> length (iov_rest s)" "take n m = take n (iov_rest s)"
  using assms(1,2)
  by (cases rule: peek_sg_cases; use assms(3) in \<open>auto simp: iov_rest_def iov_bytes_def drop_take\<close>)+

lemma skip_sg_ok:
  assumes i: "iov_invar s" and p: "peek_sg s = (m, n)" and k: "k \<le> n"
  shows "\<exists>s'. skip_sg dbg s k = Inr s' \<and> iov_invar s' \<and> iov_rest s' = drop k (iov_rest s)"
proof -
  let ?v = "iov s ! curvec s"
  note inv = iov_invarD [OF i]
  have cv: "curvec s < length (iov s)" by (rule inv(2))
  have len: "length (iov_bytes ?v) = iov_len ?v" "iov_len ?v < 2 ^ 31"
    using cv length_iov_bytes [OF inv(3)] inv(9) by simp_all
  have off: "iov_off s + k \<le> iov_len ?v"
    using inv(4) p k by (auto simp: peek_sg_def Let_def iov_off_def split: if_splits)
  have wrap: "c_int (curoff s + int k) = int (iov_off s + k)" "c_size (int (iov_off s) + int k) = iov_off s + k"
    using off len(2) inv(8) c_int_small [of "int (iov_off s + k)"] c_size_of_nat [of "iov_off s + k"] by simp_all
  show ?thesis
  proof (cases "iov_off s + k \<ge> iov_len ?v \<and> curvec s + 1 < iovlen s")
    case True
    let ?s = "s\<lparr>curoff := 0, curvec := curvec s + 1\<rparr>"
    have "drop (Suc (curvec s)) (iov s) = iov s ! Suc (curvec s) # drop (Suc (Suc (curvec s))) (iov s)"
      using True inv(1) by (intro Cons_nth_drop_Suc [symmetric]) simp
    then have r: "iov_rest ?s = drop k (iov_rest s)"
      using True off len by (simp add: iov_rest_def iov_off_def)
    have "length (iov_rest ?s) < 2 ^ 32"
      unfolding r using inv(6) by simp
    moreover have "0 < iov_len (iov s ! Suc (curvec s)) \<or>
        iov_len (iov s ! Suc (curvec s)) = 0 \<and> empty_after (Suc (curvec s)) (iov s)"
      using empties_last_after [OF inv(7), of "Suc (curvec s)"] by auto
    moreover have "iov_off ?s = 0" by (simp add: iov_off_def)
    ultimately have "iov_invar ?s"
      using True i unfolding iov_invar_def by simp
    then show ?thesis using True off cv r by (simp add: skip_sg_def Let_def wrap)
  next
    case False
    let ?s = "s\<lparr>curoff := int (iov_off s + k)\<rparr>"
    have off': "iov_off ?s = iov_off s + k" using wrap(2) by (simp add: iov_off_def)
    have r: "iov_rest ?s = drop k (iov_rest s)"
      using off len by (simp only: iov_rest_def off') (simp add: add.commute)
    have "length (iov_rest ?s) < 2 ^ 32"
      unfolding r using inv(6) by simp
    moreover have "iov_off s + k < iov_len ?v \<or>
        iov_off s + k = iov_len ?v \<and> empty_after (curvec s) (iov s)"
      using False off inv(1) by (auto simp: empty_after_def)
    ultimately have "iov_invar ?s"
      using i off' unfolding iov_invar_def by simp
    moreover have "skip_sg dbg s k = Inr ?s"
      using False off cv by (auto simp: skip_sg_def Let_def wrap)
    ultimately show ?thesis using r by blast
  qed
qed

interpretation sg: byte_source peek_sg "skip_sg dbg" iov_rest iov_invar
proof
  fix s :: iov_source and m n k
  assume i: "iov_invar s"
  let ?v = "iov s ! curvec s"
  note inv = iov_invarD [OF i]
  have cv: "curvec s < iovlen s" using inv(1,2) by simp
  have len: "iov_len ?v \<le> length (iov_base ?v)" using inv(2) by (intro inv(3)) simp
  show "length (iov_rest s) < 2 ^ 32" by (rule inv(6))
  { assume p: "peek_sg s = (m, n)"
    show "n \<le> length m \<and> n \<le> length (iov_rest s)" "take n m = take n (iov_rest s)"
      by (rule peek_sg_avail [OF p cv len])+
    assume "k \<le> n"
    with i p show "\<exists>s'. skip_sg dbg s k = Inr s' \<and> iov_invar s' \<and> iov_rest s' = drop k (iov_rest s)"
      by (rule skip_sg_ok)
  }
  assume "peek_sg s = (m, 0)"
  then have "iov_off s \<ge> iov_len ?v" using cv by (cases rule: peek_sg_cases) simp_all
  with i show "iov_rest s = []" by (rule iov_rest_end)
qed simp_all

section \<open>A vector of 2 GiB and more\<close>

text \<open>
  With \<^verbatim>\<open>DCHECK_LE\<close> compiled in, a position from \<^verbatim>\<open>2^31\<close> on fails the check, also where all bytes skipped are there:
  the offset wraps to a negative \<^verbatim>\<open>int\<close>, which is compared as a huge \<^verbatim>\<open>size_t\<close>.
\<close>

lemma skip_sg_aborts:
  assumes "curvec s < length (iov s)" "iov_len (iov s ! curvec s) < 2 ^ 32"
    "2 ^ 31 \<le> curoff s + int k" "curoff s + int k \<le> int (iov_len (iov s ! curvec s))"
  shows "skip_sg True s k = Inl Assertion_failure"
proof -
  let ?x = "curoff s + int k"
  have x: "?x < 2 ^ 32" using assms(2,4) by simp
  have w: "c_int ?x = ?x - 2 ^ 32" using assms(3) x by (rule c_int_wraps)
  have "2 ^ 32 \<le> c_size (?x - 2 ^ 32)" using assms(3) x by (intro c_size_neg) simp_all
  then show ?thesis using assms(1,2) by (simp add: skip_sg_def Let_def w cassert_def)
qed

text \<open>
  Without the check the wrapped offset of a single vector reads as its end, which it is when all peeked bytes were skipped. A smaller
  step has to stay below \<^verbatim>\<open>2^31\<close>.
\<close>

definition iov_wide :: "iov_source \<Rightarrow> bool" where
  "iov_wide s \<longleftrightarrow> iovlen s = 1 \<and> length (iov s) = 1 \<and> curvec s = 0 \<and>
     iov_len (iov s ! 0) \<le> length (iov_base (iov s ! 0)) \<and> iov_len (iov s ! 0) < 2 ^ 32 \<and>
     - (2 ^ 31) \<le> curoff s \<and> curoff s < 2 ^ 31"

definition int_room :: "iov_source \<Rightarrow> nat" where
  "int_room s = nat (2 ^ 31 - 1 - curoff s)"

lemma iov_wide_off:
  assumes "iov_wide s"
  shows "0 \<le> curoff s \<Longrightarrow> curoff s = int (iov_off s)"
    "curoff s < 0 \<Longrightarrow> iov_len (iov s ! 0) < iov_off s"
  using assms c_size_neg [of "curoff s"] by (auto simp: iov_wide_def iov_off_def c_size_def)

lemma iov_wide_rest: "iov_wide s \<Longrightarrow> iov_rest s = drop (iov_off s) (iov_bytes (iov s ! 0))"
  by (simp add: iov_wide_def iov_rest_def)

lemma skip_wide_eq: "iov_wide s \<Longrightarrow> skip_sg False s k = Inr (s\<lparr>curoff := c_int (curoff s + int k)\<rparr>)"
  by (simp add: iov_wide_def skip_sg_def Let_def)

lemma iov_wide_step: "iov_wide s \<Longrightarrow> iov_wide (s\<lparr>curoff := c_int x\<rparr>)"
  using c_int_range [of x] by (simp add: iov_wide_def)

lemma iov_off_update [simp]: "iov_off (s\<lparr>curoff := x\<rparr>) = c_size x"
  by (simp add: iov_off_def)

text \<open>The offset after a step that stays in range or goes to the end.\<close>

lemma iov_wide_skip_off:
  assumes w: "iov_wide s" and p: "peek_sg s = (m, n)" and k: "k \<le> n" "k = n \<or> k \<le> int_room s"
  shows "iov_off (s\<lparr>curoff := c_int (curoff s + int k)\<rparr>) = iov_off s + k
       \<or> k = n \<and> iov_len (iov s ! 0) \<le> iov_off (s\<lparr>curoff := c_int (curoff s + int k)\<rparr>)"
proof -
  have cv: "curvec s < iovlen s" using w by (simp add: iov_wide_def)
  have r: "- (2 ^ 31) \<le> curoff s" "curoff s < 2 ^ 31" and l: "iov_len (iov s ! 0) < 2 ^ 32" "curvec s = 0"
    using w by (simp_all add: iov_wide_def)
  show ?thesis
    using p cv
  proof (cases rule: peek_sg_cases)
    case 2
    then show ?thesis using k r c_int_id [of "curoff s"] by (simp add: iov_off_def)
  next
    case 1
    then have c: "curoff s = int (iov_off s)" using iov_wide_off [OF w] l by (cases "0 \<le> curoff s") auto
    show ?thesis
    proof (cases "iov_off s + k < 2 ^ 31")
      case True
      then have "c_int (int (iov_off s + k)) = int (iov_off s + k)" by (intro c_int_small) auto
      then show ?thesis using True c c_size_of_nat [of "iov_off s + k"] by simp
    next
      case False
      then have kn: "k = n" using k(2) c r(2) by (auto simp: int_room_def)
      then have e: "iov_off s + k = iov_len (iov s ! 0)" using 1 l by simp
      let ?x = "int (iov_off s + k)"
      have x: "2 ^ 31 \<le> ?x" "?x < 2 ^ 32" using False l e by auto
      have "2 ^ 32 \<le> c_size (?x - 2 ^ 32)" using x by (intro c_size_neg) auto
      then show ?thesis using c_int_wraps [OF x] l kn c by simp
    qed
  qed
qed

lemma iov_wide_skip:
  assumes w: "iov_wide s" and p: "peek_sg s = (m, n)" and k: "k \<le> n" "k = n \<or> k \<le> int_room s"
  shows "\<exists>s'. skip_sg False s k = Inr s' \<and> iov_wide s' \<and> iov_rest s' = drop k (iov_rest s)"
    "skip_sg False s n = Inr s' \<Longrightarrow> iov_rest s' = []"
proof -
  have cv: "curvec s < iovlen s" "curvec s = 0" and b: "length (iov_bytes (iov s ! 0)) = iov_len (iov s ! 0)"
    using w length_iov_bytes by (simp_all add: iov_wide_def)
  have n: "n = iov_len (iov s ! 0) - iov_off s"
    using p cv(1) by (cases rule: peek_sg_cases) (simp_all add: cv(2))
  have step: "iov_rest (s\<lparr>curoff := c_int (curoff s + int j)\<rparr>) = drop j (iov_rest s)"
    if "j \<le> n" "j = n \<or> j \<le> int_room s" for j
    using iov_wide_skip_off [OF w p that] n
    by (auto simp: iov_wide_rest [OF iov_wide_step [OF w]] iov_wide_rest [OF w] b add.commute)
  show "\<exists>s'. skip_sg False s k = Inr s' \<and> iov_wide s' \<and> iov_rest s' = drop k (iov_rest s)"
    using step [OF k] iov_wide_step [OF w] by (simp add: skip_wide_eq [OF w])
  show "skip_sg False s n = Inr s' \<Longrightarrow> iov_rest s' = []"
    using step [of n] n b by (auto simp: skip_wide_eq [OF w] iov_wide_rest [OF w])
qed

interpretation wide: byte_reader peek_sg "skip_sg False" iov_rest iov_wide int_room "\<lambda>_. False"
proof
  fix s s' :: iov_source and m n k
  assume i: "iov_wide s"
  have cv: "curvec s < iovlen s" "curvec s = 0" and b: "length (iov_bytes (iov s ! 0)) = iov_len (iov s ! 0)"
    and len: "iov_len (iov s ! curvec s) \<le> length (iov_base (iov s ! curvec s))"
    using i length_iov_bytes by (simp_all add: iov_wide_def)
  have "iov_len (iov s ! 0) < 2 ^ 32" using i by (simp add: iov_wide_def)
  then show "length (iov_rest s) < 2 ^ 32" using b by (simp add: iov_wide_rest [OF i])
  { assume p: "peek_sg s = (m, n)"
    show "n \<le> length m \<and> n \<le> length (iov_rest s)" "take n m = take n (iov_rest s)"
      by (rule peek_sg_avail [OF p cv(1) len])+
    show "k \<le> n \<Longrightarrow> k = n \<or> k \<le> int_room s \<or> False \<Longrightarrow>
        \<exists>s'. skip_sg False s k = Inr s' \<and> iov_wide s' \<and> iov_rest s' = drop k (iov_rest s)"
      using iov_wide_skip(1) [OF i p] by simp
    show "skip_sg False s n = Inr s' \<Longrightarrow> iov_rest s' = [] \<or> False"
      using iov_wide_skip(2) [OF i p order_refl] by simp
    assume k: "k \<le> int_room s" and s': "skip_sg False s k = Inr s'"
    have "- (2 ^ 31) \<le> curoff s + int k" "curoff s + int k < 2 ^ 31"
      using k i by (auto simp: int_room_def iov_wide_def)
    then show "int_room s \<le> int_room s' + k"
      using s' by (auto simp: skip_wide_eq [OF i] c_int_id int_room_def)
  }
  assume "peek_sg s = (m, 0)"
  then have "iov_len (iov s ! 0) \<le> iov_off s" using cv by (cases rule: peek_sg_cases) simp_all
  then show "iov_rest s = []" using b by (simp add: iov_wide_rest [OF i])
qed simp_all

end
