(* ===== verification/Snappy_Format.thy ===== *)
theory Snappy_Format
  imports Snappy_Mem
begin

text \<open>
  The compressed format as an abstract specification: a stream of literals and back
  references, what it expands to, how an element is laid out in bytes and the reference decoder
  of a byte stream. The compressor is proved to produce such a stream for its input
  and the decompressor to implement the reference decoder.
\<close>

section \<open>Elements and their expansion\<close>

datatype element = Literal buffer | Copy nat nat \<comment> \<open>offset and length\<close>

text \<open>\<open>self_copy off n out\<close> appends \<open>n\<close> bytes, each taken \<open>off\<close> bytes behind the end.\<close>

fun self_copy :: "nat \<Rightarrow> nat \<Rightarrow> buffer \<Rightarrow> buffer" where
  "self_copy off 0 out = out"
| "self_copy off (Suc n) out = self_copy off n (out @ [out ! (length out - off)])"

fun expand :: "buffer \<Rightarrow> element \<Rightarrow> buffer" where
  "expand out (Literal bs) = out @ bs"
| "expand out (Copy off n) = self_copy off n out"

definition expand_all :: "element list \<Rightarrow> buffer \<Rightarrow> buffer" where
  "expand_all es out = foldl expand out es"

text \<open>What a decoder with room for \<open>limit\<close> bytes does with one element.\<close>

fun apply_element :: "nat \<Rightarrow> buffer \<Rightarrow> element \<Rightarrow> buffer option" where
  "apply_element limit out (Literal bs) =
     (if length out + length bs \<le> limit then Some (out @ bs) else None)"
| "apply_element limit out (Copy off n) =
     (if 0 < off \<and> off \<le> length out \<and> length out + n \<le> limit then Some (self_copy off n out) else None)"

section \<open>Bytes of an element\<close>

text \<open>Little-endian digits of a positive number, without leading zeros.\<close>

fun nat_bytes :: "nat \<Rightarrow> buffer" where
  "nat_bytes n = (if n = 0 then [] else word_of_nat (n mod 256) # nat_bytes (n div 256))"

declare nat_bytes.simps [simp del]

definition literal_header :: "nat \<Rightarrow> buffer" where
  "literal_header len =
     (let n = len - 1 in
      if n < 60 then [word_of_nat (4 * n)]
      else word_of_nat (4 * (59 + length (nat_bytes n))) # nat_bytes n)"

definition copy_bytes :: "nat \<Rightarrow> nat \<Rightarrow> buffer" where
  "copy_bytes off len =
     (if len < 12 \<and> off < 2048
      then [word_of_nat (1 + 4 * (len - 4) + 32 * (off div 256)), word_of_nat (off mod 256)]
      else [word_of_nat (2 + 4 * (len - 1)), word_of_nat (off mod 256), word_of_nat (off div 256)])"

fun encode_element :: "element \<Rightarrow> buffer" where
  "encode_element (Literal bs) = literal_header (length bs) @ bs"
| "encode_element (Copy off n) = copy_bytes off n"

definition encode_all :: "element list \<Rightarrow> buffer" where
  "encode_all es = concat (map encode_element es)"

text \<open>The elements the encoder can express.\<close>

fun encodable :: "element \<Rightarrow> bool" where
  "encodable (Literal bs) = (0 < length bs \<and> length bs < 2 ^ 32)"
| "encodable (Copy off n) = (4 \<le> n \<and> n \<le> 64 \<and> 0 < off \<and> off < 65536)"

section \<open>Reference decoder\<close>

text \<open>The number of bytes that follow a tag byte and belong to its element header.\<close>

definition tag_extra :: "u8 \<Rightarrow> nat" where
  "tag_extra c =
     (case unat c mod 4 of
        0 \<Rightarrow> if unat c div 4 < 60 then 0 else unat c div 4 - 59
      | Suc 0 \<Rightarrow> 1
      | Suc (Suc 0) \<Rightarrow> 2
      | _ \<Rightarrow> 4)"

fun le_nat :: "buffer \<Rightarrow> nat" where
  "le_nat [] = 0"
| "le_nat (x # xs) = unat x + 256 * le_nat xs"

definition literal_len :: "u8 \<Rightarrow> buffer \<Rightarrow> nat" where
  "literal_len c extra =
     (if unat c div 4 < 60 then unat c div 4 + 1 else (le_nat extra + 1) mod 2 ^ 32)"

definition copy_of :: "u8 \<Rightarrow> buffer \<Rightarrow> element" where
  "copy_of c extra =
     (if unat c mod 4 = 1 then Copy (256 * (unat c div 32) + le_nat extra) (unat c div 4 mod 8 + 4)
      else Copy (le_nat extra) (unat c div 4 + 1))"

text \<open>One element off the front of a byte stream; \<^verbatim>\<open>None\<close> when the stream ends too early.\<close>

fun decode_element :: "buffer \<Rightarrow> (element \<times> buffer) option" where
  "decode_element [] = None"
| "decode_element (c # cs) =
     (let k = tag_extra c; extra = take k cs; rest = drop k cs in
      if length cs < k then None
      else if unat c mod 4 = 0 then
        (let len = literal_len c extra in
         if length rest < len then None else Some (Literal (take len rest), drop len rest))
      else Some (copy_of c extra, rest))"

lemma decode_element_shorter: "decode_element cs = Some (e, rest) \<Longrightarrow> length rest < length cs"
  by (cases cs) (auto simp: Let_def split: if_splits)

text \<open>
  The whole stream: the output so far, bounded by the announced length. \<^verbatim>\<open>None\<close> stands for
  every malformed stream.
\<close>

function decode :: "nat \<Rightarrow> buffer \<Rightarrow> buffer \<Rightarrow> buffer option" where
  "decode limit out cs =
     (if cs = [] then Some out
      else case decode_element cs of
             None \<Rightarrow> None
           | Some (e, rest) \<Rightarrow>
               (case apply_element limit out e of
                  None \<Rightarrow> None
                | Some out' \<Rightarrow> decode limit out' rest))"
  by pat_completeness auto
termination
  by (relation "measure (\<lambda>(limit, out, cs). length cs)") (auto simp: decode_element_shorter)

declare decode.simps [simp del]

text \<open>What has been decoded when the decoder stops, at the end or at the first element it does not accept.\<close>

function decoded :: "nat \<Rightarrow> buffer \<Rightarrow> buffer \<Rightarrow> buffer" where
  "decoded limit out cs =
     (if cs = [] then out
      else case decode_element cs of
             None \<Rightarrow> out
           | Some (e, rest) \<Rightarrow>
               (case apply_element limit out e of
                  None \<Rightarrow> out
                | Some out' \<Rightarrow> decoded limit out' rest))"
  by pat_completeness auto
termination
  by (relation "measure (\<lambda>(limit, out, cs). length cs)") (auto simp: decode_element_shorter)

declare decoded.simps [simp del]

lemma decode_decoded: "decode limit out cs = Some out' \<Longrightarrow> decoded limit out cs = out'"
proof (induction limit out cs rule: decode.induct)
  case (1 limit out cs)
  then show ?case
    by (subst decoded.simps) (subst (asm) decode.simps [of limit out cs], auto split: if_splits option.splits)
qed

section \<open>Lemmas on expansion\<close>

lemma take_self_copy: "take (length out) (self_copy off n out) = out"
proof (induction n arbitrary: out)
  case (Suc n)
  let ?out = "out @ [out ! (length out - off)]"
  have "take (length out) (self_copy off (Suc n) out) = take (length out) (take (length ?out) (self_copy off n ?out))"
    by (simp add: take_take min_def del: take_append)
  then show ?case unfolding Suc.IH by simp
qed simp

lemma length_self_copy [simp]: "length (self_copy off n out) = length out + n"
  by (induction n arbitrary: out) simp_all

lemma self_copy_add: "self_copy off (m + n) out = self_copy off n (self_copy off m out)"
  by (induction m arbitrary: out) simp_all

lemma length_expand_Literal [simp]: "length (expand out (Literal bs)) = length out + length bs"
  by simp

lemma expand_all_Nil [simp]: "expand_all [] out = out"
  by (simp add: expand_all_def)

lemma expand_all_Cons [simp]: "expand_all (e # es) out = expand_all es (expand out e)"
  by (simp add: expand_all_def)

lemma expand_all_append [simp]: "expand_all (es @ fs) out = expand_all fs (expand_all es out)"
  by (simp add: expand_all_def)

lemma encode_all_Nil [simp]: "encode_all [] = []"
  by (simp add: encode_all_def)

lemma encode_all_append [simp]: "encode_all (es @ fs) = encode_all es @ encode_all fs"
  by (simp add: encode_all_def)

lemma encode_all_Cons [simp]: "encode_all (e # es) = encode_element e @ encode_all es"
  by (simp add: encode_all_def)

text \<open>A match in the input is what a back reference expands to.\<close>

lemma self_copy_match:
  assumes "off \<le> pos" "0 < off" "pos + n \<le> length xs"
    and "\<And>k. k < n \<Longrightarrow> xs ! (pos - off + k) = xs ! (pos + k)"
  shows "self_copy off n (take pos xs) = take (pos + n) xs"
  using assms
proof (induction n arbitrary: pos)
  case 0
  then show ?case by simp
next
  case (Suc n)
  have "take pos xs @ [take pos xs ! (length (take pos xs) - off)] = take (Suc pos) xs"
    using Suc.prems(1,2,3) Suc.prems(4) [of 0] by (simp add: take_Suc_nth)
  moreover have "self_copy off n (take (Suc pos) xs) = take (Suc pos + n) xs"
    using Suc.prems(1,2,3) Suc.prems(4) [of "Suc k" for k]
    by (intro Suc.IH) (auto simp: Suc_diff_le)
  ultimately show ?case by simp
qed

lemma nth_self_copy:
  assumes "0 < off" "off \<le> length out" "j < length out + n"
  shows "self_copy off n out ! j =
           (if j < length out then out ! j
            else out ! (length out - off + (j - length out) mod off))"
  using assms
proof (induction n arbitrary: out)
  case 0
  then show ?case by simp
next
  case (Suc n)
  let ?o = "out @ [out ! (length out - off)]"
  have IH: "self_copy off n ?o ! j =
      (if j < length ?o then ?o ! j else ?o ! (length ?o - off + (j - length ?o) mod off))"
    using Suc.prems by (intro Suc.IH) auto
  consider "j < length out" | "j = length out" | "length out < j" by linarith
  then show ?case
  proof cases
    case 3
    define m where "m = j - Suc (length out)"
    have j: "j - length out = Suc m" using 3 by (simp add: m_def)
    show ?thesis
    proof (cases "Suc (m mod off) = off")
      case True
      then have "Suc m mod off = 0" by (simp add: mod_Suc)
      then show ?thesis
        using IH 3 True Suc.prems j by (simp add: nth_append flip: m_def)
    next
      case False
      then have "Suc m mod off = Suc (m mod off)" by (simp add: mod_Suc)
      moreover have "Suc (m mod off) < off"
        using False Suc.prems(1) mod_less_divisor [of off m] by linarith
      moreover from this have "Suc (length out + m mod off - off) < length out"
        using Suc.prems(2) by linarith
      ultimately show ?thesis
        using IH 3 Suc.prems j by (simp add: nth_append Suc_diff_le flip: m_def)
    qed
  qed (use IH in \<open>auto simp: nth_append\<close>)
qed

section \<open>Decoding what was encoded\<close>

fun well_formed :: "nat \<Rightarrow> element list \<Rightarrow> bool" where
  "well_formed n [] = True"
| "well_formed n (Literal bs # es) = (encodable (Literal bs) \<and> well_formed (n + length bs) es)"
| "well_formed n (Copy off k # es) = (encodable (Copy off k) \<and> off \<le> n \<and> well_formed (n + k) es)"

fun element_len :: "element \<Rightarrow> nat" where
  "element_len (Literal bs) = length bs"
| "element_len (Copy off k) = k"

definition expanded_len :: "element list \<Rightarrow> nat" where
  "expanded_len es = sum_list (map element_len es)"

lemma length_expand: "length (expand out e) = length out + element_len e"
  by (cases e) simp_all

lemma length_expand_all: "length (expand_all es out) = length out + expanded_len es"
  by (induction es arbitrary: out) (simp_all add: length_expand expanded_len_def)

lemma well_formed_append [simp]:
  "well_formed n (es @ fs) \<longleftrightarrow> well_formed n es \<and> well_formed (n + expanded_len es) fs"
  by (induction n es rule: well_formed.induct) (auto simp: expanded_len_def add.assoc)

lemma well_formed_mono: "well_formed m es \<Longrightarrow> m \<le> n \<Longrightarrow> well_formed n es"
  by (induction m es arbitrary: n rule: well_formed.induct) auto

lemma unat_byte [simp]: "n < 256 \<Longrightarrow> unat (word_of_nat n :: u8) = n"
  by (simp add: unat_of_nat take_bit_nat_eq_self_iff)

lemma nat_bytes_pos: "0 < n \<Longrightarrow> nat_bytes n = word_of_nat (n mod 256) # nat_bytes (n div 256)"
  by (simp add: nat_bytes.simps)

lemma nat_bytes_0 [simp]: "nat_bytes 0 = []"
  by (simp add: nat_bytes.simps)

lemma le_nat_nat_bytes [simp]: "le_nat (nat_bytes n) = n"
proof (induction n rule: nat_bytes.induct)
  case (1 n)
  then show ?case
    by (cases "n = 0") (simp_all add: nat_bytes_pos)
qed

lemma length_nat_bytes_le: "n < 256 ^ k \<Longrightarrow> length (nat_bytes n) \<le> k"
proof (induction k arbitrary: n)
  case 0
  then show ?case by simp
next
  case (Suc k)
  then have "length (nat_bytes (n div 256)) \<le> k"
    by (intro Suc.IH) (simp add: less_mult_imp_div_less mult.commute)
  then show ?case
    by (cases "n = 0") (simp_all add: nat_bytes_pos)
qed

lemma length_nat_bytes_pos: "0 < n \<Longrightarrow> 1 \<le> length (nat_bytes n)"
  by (simp add: nat_bytes_pos)

lemma decode_literal:
  assumes "0 < length bs" "length bs < 2 ^ 32"
  shows "decode_element (literal_header (length bs) @ bs @ rest) = Some (Literal bs, rest)"
proof -
  obtain n where n: "length bs = Suc n" using assms(1) by (cases "length bs") simp_all
  let ?c = "length (nat_bytes n)"
  define t :: u8 where "t = word_of_nat (if n < 60 then 4 * n else 4 * (59 + ?c))"
  have hdr: "literal_header (length bs) = t # (if n < 60 then [] else nat_bytes n)"
    by (simp add: literal_header_def n t_def Let_def del: of_nat_mult of_nat_add)
  show ?thesis
  proof (cases "n < 60")
    case True
    then have "unat t = 4 * n" by (simp add: t_def del: of_nat_mult)
    then show ?thesis
      using True unfolding hdr by (simp add: Let_def tag_extra_def literal_len_def n)
  next
    case False
    have c: "1 \<le> ?c" "?c \<le> 4"
      using False assms(2) n length_nat_bytes_pos [of n] length_nat_bytes_le [of n 4] by simp_all
    then have ne: "nat_bytes n \<noteq> []" by auto
    from c have "unat t = 4 * (59 + ?c)"
      using False by (simp add: t_def del: of_nat_mult of_nat_add)
    then show ?thesis
      using False c ne assms unfolding hdr by (simp add: Let_def tag_extra_def literal_len_def n)
  qed
qed

lemma copy1_tag_arith:
  fixes a q :: nat
  assumes "a < 8" "q < 8"
  shows "1 + 4 * a + 32 * q < 256" "(1 + 4 * a + 32 * q) mod 4 = 1"
    "(1 + 4 * a + 32 * q) div 32 = q" "(1 + 4 * a + 32 * q) div 4 mod 8 = a"
proof -
  have e: "1 + 4 * a + 32 * q = (a + q * 8) * 4 + 1" "1 + 4 * a + 32 * q = q * 32 + (1 + 4 * a)"
    by simp_all
  have d: "((a + q * 8) * 4 + 1) div 4 = a + q * 8" 
    by (rule div_nat_eqI) simp_all
  show "1 + 4 * a + 32 * q < 256" using assms by linarith
  show "(1 + 4 * a + 32 * q) mod 4 = 1" unfolding e(1) by (simp only: mod_mult_self3) simp
  show "(1 + 4 * a + 32 * q) div 32 = q" unfolding e(2) using assms by simp
  show "(1 + 4 * a + 32 * q) div 4 mod 8 = a" unfolding e(1) d using assms by simp
qed

lemma copy2_tag_arith:
  fixes a :: nat
  assumes "a < 64"
  shows "2 + 4 * a < 256" "(2 + 4 * a) mod 4 = 2" "(2 + 4 * a) div 4 = a"
  using assms by presburger+

lemma decode_copy:
  assumes "encodable (Copy off n)"
  shows "decode_element (copy_bytes off n @ rest) = Some (Copy off n, rest)"
proof (cases "n < 12 \<and> off < 2048")
  case True
  then have "n - 4 < 8" "off div 256 < 8" by auto
  note t = copy1_tag_arith [OF this]
  define c :: u8 where "c = word_of_nat (1 + 4 * (n - 4) + 32 * (off div 256))"
  have "unat c = 1 + 4 * (n - 4) + 32 * (off div 256)"
    unfolding c_def using t(1) by (rule unat_byte)
  moreover have "copy_bytes off n = [c, word_of_nat (off mod 256)]"
    using True by (simp only: copy_bytes_def c_def if_True simp_thms)
  ultimately show ?thesis
    using t assms True by (simp add: Let_def tag_extra_def copy_of_def del: of_nat_mod)
next
  case False
  have "n - 1 < 64" "off div 256 < 256" using assms by (auto simp: less_mult_imp_div_less)
  define c :: u8 where "c = word_of_nat (2 + 4 * (n - 1))"
  note t = copy2_tag_arith [OF \<open>n - 1 < 64\<close>]
  have "unat c = 2 + 4 * (n - 1)"
    unfolding c_def using t(1) by (rule unat_byte)
  moreover have "copy_bytes off n = [c, word_of_nat (off mod 256), word_of_nat (off div 256)]"
    using False by (simp only: copy_bytes_def c_def if_False)
  ultimately show ?thesis
    using t assms \<open>off div 256 < 256\<close>
    by (simp add: Let_def tag_extra_def copy_of_def numeral_2_eq_2)
qed

lemma decode_encode_element:
  "encodable e \<Longrightarrow> decode_element (encode_element e @ rest) = Some (e, rest)"
  by (cases e) (simp_all add: decode_literal decode_copy del: decode_element.simps encodable.simps(2))

lemma encode_element_nonempty [simp]: "encode_element e \<noteq> []"
  by (cases e) (simp_all add: literal_header_def copy_bytes_def Let_def)

lemma decode_encode_all:
  assumes "well_formed (length out) es" "length out + expanded_len es \<le> limit"
  shows "decode limit out (encode_all es @ rest) = decode limit (expand_all es out) rest
    \<and> decoded limit out (encode_all es @ rest) = decoded limit (expand_all es out) rest"
  using assms
proof (induction es arbitrary: out)
  case Nil
  then show ?case by simp
next
  case (Cons e es)
  have e: "encodable e" "apply_element limit out e = Some (expand out e)"
    using Cons.prems by (cases e; auto simp: expanded_len_def)+
  have "decode limit out (encode_all (e # es) @ rest) = decode limit (expand out e) (encode_all es @ rest)"
      "decoded limit out (encode_all (e # es) @ rest) = decoded limit (expand out e) (encode_all es @ rest)"
    using e by (subst decode.simps decoded.simps, simp add: decode_encode_element)+
  moreover have "decode limit (expand out e) (encode_all es @ rest) = decode limit (expand_all es (expand out e)) rest
      \<and> decoded limit (expand out e) (encode_all es @ rest) = decoded limit (expand_all es (expand out e)) rest"
    using Cons.prems by (intro Cons.IH) (cases e; simp add: expanded_len_def length_expand)+
  ultimately show ?case by simp
qed

text \<open>Nothing is added to a full output.\<close>

lemma decoded_full: "length out = limit \<Longrightarrow> decoded limit out cs = out"
proof (induction limit out cs rule: decoded.induct)
  case (1 limit out cs)
  have keep: "out' = out" if "apply_element limit out e = Some out'" for e out'
    using that "1.prems" by (cases e) (auto split: if_splits)
  show ?case
  proof (cases "cs = [] \<or> decode_element cs = None")
    case False
    then obtain e rest where e: "decode_element cs = Some (e, rest)" "cs \<noteq> []" by auto
    show ?thesis
      using "1.IH" [OF e(2,1) refl] keep [of e] "1.prems" e by (subst decoded.simps) (auto split: option.splits)
  qed (auto simp: decoded.simps)
qed

end
