(* ===== verification/Snappy_Emit.thy ===== *)
theory Snappy_Emit
  imports Snappy_Format
begin

text \<open>
  The output side of the compressor: \<^verbatim>\<open>emit_literal\<close>, \<^verbatim>\<open>emit_copy_less_than64\<close> and
  \<^verbatim>\<open>emit_copy\<close> of \<^verbatim>\<open>snappy.c\<close>, writing into an output buffer at \<open>op\<close>. Each is shown to append
  the bytes of the elements of the format, provided the buffer has room for them and for the bytes
  the 16-byte fast path writes beyond the literal.
\<close>

section \<open>Tags\<close>

definition LITERAL :: int where "LITERAL = 0"
definition COPY_1_BYTE_OFFSET :: int where "COPY_1_BYTE_OFFSET = 1"
definition COPY_2_BYTE_OFFSET :: int where "COPY_2_BYTE_OFFSET = 2"
definition COPY_4_BYTE_OFFSET :: int where "COPY_4_BYTE_OFFSET = 3"

lemmas tag_defs = LITERAL_def COPY_1_BYTE_OFFSET_def COPY_2_BYTE_OFFSET_def COPY_4_BYTE_OFFSET_def

section \<open>Operations\<close>

definition snappy_max_compressed_length :: "nat \<Rightarrow> nat" where
  "snappy_max_compressed_length source_len = 32 + source_len + source_len div 6"

text \<open>The loop \<^verbatim>\<open>while (n > 0)\<close> of \<^verbatim>\<open>emit_literal\<close>: the bytes of \<open>n\<close>, low byte first.\<close>

function emit_length_bytes :: "buffer \<Rightarrow> nat \<Rightarrow> int \<Rightarrow> nat \<Rightarrow> (buffer \<times> nat \<times> nat) c_result" where
  "emit_length_bytes dst op n count =
     (if n > 0 then
        cbind (store8 dst op (word_of_int (n AND 0xff))) (\<lambda>dst.
          emit_length_bytes dst (op + 1) (drop_bit 8 n) (count + 1))
      else Inr (dst, op, count))"
  by pat_completeness auto
termination
  by (relation "measure (\<lambda>(dst, op, n, count). nat n)") (auto simp: drop_bit_eq_div)

declare emit_length_bytes.simps [simp del]

text \<open>The final \<^verbatim>\<open>memcpy(op, literal, len); return op + len\<close>.\<close>

definition emit_literal_tail ::
    "buffer \<Rightarrow> nat \<Rightarrow> buffer \<Rightarrow> nat \<Rightarrow> nat \<Rightarrow> (buffer \<times> nat) c_result" where
  "emit_literal_tail dst op input literal len =
     cbind (load_bytes input literal len) (\<lambda>bs.
     cbind (store_bytes dst op bs) (\<lambda>dst. Inr (dst, op + len)))"

definition emit_literal ::
    "buffer \<Rightarrow> nat \<Rightarrow> buffer \<Rightarrow> nat \<Rightarrow> nat \<Rightarrow> bool \<Rightarrow> (buffer \<times> nat) c_result" where
  "emit_literal dst op input literal len allow_fast_path =
    (let n = int len - 1 in
     if n < 60 then
       cbind (store8 dst op (word_of_int (LITERAL OR push_bit 2 n))) (\<lambda>dst.
         let op = op + 1 in
         if allow_fast_path \<and> len \<le> 16 then
           cbind (unaligned_copy64 input literal dst op) (\<lambda>dst.
           cbind (unaligned_copy64 input (literal + 8) dst (op + 8)) (\<lambda>dst.
             Inr (dst, op + len)))
         else emit_literal_tail dst op input literal len)
     else
       let base = op in
       cbind (emit_length_bytes dst (op + 1) n 0) (\<lambda>(dst, op, count).
       cbind (cassert (count \<ge> 1)) (\<lambda>_.
       cbind (cassert (count \<le> 4)) (\<lambda>_.
       cbind (store8 dst base (word_of_int (LITERAL OR push_bit 2 (59 + int count)))) (\<lambda>dst.
         emit_literal_tail dst op input literal len)))))"

definition emit_copy_less_than64 :: "buffer \<Rightarrow> nat \<Rightarrow> nat \<Rightarrow> nat \<Rightarrow> (buffer \<times> nat) c_result" where
  "emit_copy_less_than64 dst op offset len =
     cbind (cassert (len \<le> 64)) (\<lambda>_.
     cbind (cassert (len \<ge> 4)) (\<lambda>_.
     cbind (cassert (offset < 65536)) (\<lambda>_.
     if len < 12 \<and> offset < 2048 then
       (let len_minus_4 = int len - 4 in
        cbind (cassert (len_minus_4 < 8)) (\<lambda>_.
        cbind (store8 dst op (word_of_int (COPY_1_BYTE_OFFSET + push_bit 2 len_minus_4
                                           + push_bit 5 (drop_bit 8 (int offset))))) (\<lambda>dst.
        cbind (store8 dst (op + 1) (word_of_int (int offset AND 0xff))) (\<lambda>dst.
          Inr (dst, op + 2)))))
     else
       cbind (store8 dst op (word_of_int (COPY_2_BYTE_OFFSET + push_bit 2 (int len - 1)))) (\<lambda>dst.
       cbind (put_unaligned_le16 (word_of_int (int offset)) dst (op + 1)) (\<lambda>dst.
         Inr (dst, op + 1 + 2))))))"

text \<open>The loop \<^verbatim>\<open>while (len >= 68)\<close> of \<^verbatim>\<open>emit_copy\<close> and the two emissions after it.\<close>

fun emit_copy :: "buffer \<Rightarrow> nat \<Rightarrow> nat \<Rightarrow> nat \<Rightarrow> (buffer \<times> nat) c_result" where
  "emit_copy dst op offset len =
     (if len \<ge> 68 then
        cbind (emit_copy_less_than64 dst op offset 64) (\<lambda>(dst, op).
          emit_copy dst op offset (len - 64))
      else if len > 64 then
        cbind (emit_copy_less_than64 dst op offset 60) (\<lambda>(dst, op).
          emit_copy_less_than64 dst op offset (len - 60))
      else emit_copy_less_than64 dst op offset len)"

declare emit_copy.simps [simp del]

section \<open>Appending to the output\<close>

text \<open>
  \<open>emits dst op bs dst' op'\<close>: the bytes \<open>bs\<close> were appended at \<open>op\<close>; everything before \<open>op\<close> and
  the size of the buffer are unchanged.
\<close>

definition emits :: "buffer \<Rightarrow> nat \<Rightarrow> buffer \<Rightarrow> buffer \<Rightarrow> nat \<Rightarrow> bool" where
  "emits dst op bs dst' op' \<longleftrightarrow>
     op' = op + length bs \<and> length dst' = length dst \<and> op' \<le> length dst \<and>
     take op' dst' = take op dst @ bs"

lemma emits_Nil: "op \<le> length dst \<Longrightarrow> emits dst op [] dst op"
  by (simp add: emits_def)

lemma emits_trans [trans]:
  "emits dst op bs dst' op' \<Longrightarrow> emits dst' op' cs dst'' op'' \<Longrightarrow> emits dst op (bs @ cs) dst'' op''"
  by (auto simp: emits_def)

lemma emitsD:
  assumes "emits dst op bs dst' op'"
  shows "op' = op + length bs" "length dst' = length dst" "op' \<le> length dst"
    "take op' dst' = take op dst @ bs"
  using assms unfolding emits_def by blast+

lemma emits_take: "emits dst op bs dst' op' \<Longrightarrow> take op dst' = take op dst"
proof -
  assume e: "emits dst op bs dst' op'"
  then have "op \<le> op'" "op \<le> length dst" using emitsD(1,3) [OF e] by linarith+
  then have "take op dst' = take op (take op' dst')" by (simp add: min_def)
  also have "\<dots> = take op dst" using emitsD(4) [OF e] \<open>op \<le> length dst\<close> by simp
  finally show ?thesis .
qed

text \<open>A store whose first \<open>k\<close> bytes matter.\<close>

lemma store_bytes_emits:
  assumes "op + length bs \<le> length dst"
  shows "\<exists>dst'. store_bytes dst op bs = Inr dst' \<and> emits dst op bs dst' (op + length bs)"
  using assms by (simp add: mem_simps emits_def)

lemma store8_emits:
  "op < length dst \<Longrightarrow> \<exists>dst'. store8 dst op v = Inr dst' \<and> emits dst op [v] dst' (op + 1)"
  using store_bytes_emits [of op "[v]" dst] by (simp add: store8_def)

lemma emit_literal_tail_emits:
  assumes "literal + len \<le> length input" "op + len \<le> length dst"
  shows "\<exists>dst'. emit_literal_tail dst op input literal len = Inr (dst', op + len)
           \<and> emits dst op (take len (drop literal input)) dst' (op + len)"
proof -
  let ?bs = "take len (drop literal input)"
  have l: "length ?bs = len" using assms(1) by simp
  show ?thesis
    using assms store_bytes_emits [of op ?bs dst] l
    by (auto simp: emit_literal_tail_def mem_simps simp del: length_take length_drop)
qed

text \<open>The fast path: sixteen bytes are written, the first \<open>len\<close> of them count.\<close>

lemma fast_copy_emits:
  assumes "literal + 16 \<le> length input" "op + 16 \<le> length dst" "len \<le> 16"
  shows "\<exists>dst1 dst2. unaligned_copy64 input literal dst op = Inr dst1
           \<and> unaligned_copy64 input (literal + 8) dst1 (op + 8) = Inr dst2
           \<and> emits dst op (take len (drop literal input)) dst2 (op + len)"
proof -
  let ?d1 = "take op dst @ take 8 (drop literal input) @ drop (op + 8) dst"
  let ?d2 = "take (op + 8) ?d1 @ take 8 (drop (literal + 8) input) @ drop (op + 8 + 8) ?d1"
  have 1: "unaligned_copy64 input literal dst op = Inr ?d1"
    using assms by (intro unaligned_copy64_ok) auto
  have 2: "unaligned_copy64 input (literal + 8) ?d1 (op + 8) = Inr ?d2"
    using assms by (intro unaligned_copy64_ok) auto
  have t: "take 16 (drop literal input) = take 8 (drop literal input) @ take 8 (drop (literal + 8) input)"
    using take_add [of 8 8 "drop literal input"] by (simp add: add.commute)
  have d2: "?d2 = take op dst @ take 16 (drop literal input) @ drop (op + 16) dst"
    using assms unfolding t by (simp add: add.commute)
  define x where "x = take 16 (drop literal input)"
  have x: "length x = 16" "take len (drop literal input) = take len x"
    using assms by (auto simp: x_def min_def)
  have "emits dst op (take len (drop literal input)) ?d2 (op + len)"
    unfolding d2 x(2) x_def [symmetric] using assms x(1) by (simp add: emits_def)
  with 1 2 show ?thesis by blast
qed

section \<open>The emitters append elements\<close>

lemma word_of_int_and_255: "(word_of_int (int n AND 0xff) :: u8) = word_of_nat (n mod 256)"
proof -
  have "int n AND 0xff = int (n mod 256)"
    using take_bit_eq_mask [of 8 "int n"] by (simp add: mask_eq_exp_minus_1 take_bit_eq_mod zmod_int)
  then show ?thesis by (simp del: of_nat_mod)
qed

lemma drop_bit_8_int: "drop_bit 8 (int n) = int (n div 256)"
  by (simp add: drop_bit_eq_div zdiv_int)

lemma emit_length_bytes_emits:
  assumes "op + length (nat_bytes n) \<le> length dst"
  shows "\<exists>dst'. emit_length_bytes dst op (int n) count =
             Inr (dst', op + length (nat_bytes n), count + length (nat_bytes n))
           \<and> emits dst op (nat_bytes n) dst' (op + length (nat_bytes n))"
  using assms
proof (induction n arbitrary: dst op count rule: nat_bytes.induct)
  case (1 n)
  show ?case
  proof (cases "n = 0")
    case True
    then show ?thesis using 1 by (simp add: emit_length_bytes.simps emits_Nil)
  next
    case False
    then have nb: "nat_bytes n = word_of_nat (n mod 256) # nat_bytes (n div 256)"
      by (simp add: nat_bytes_pos)
    obtain d1 where d1: "store8 dst op (word_of_nat (n mod 256)) = Inr d1"
        "emits dst op [word_of_nat (n mod 256)] d1 (op + 1)"
      using store8_emits [of op dst "word_of_nat (n mod 256)"] "1.prems" nb by auto
    have "op + 1 + length (nat_bytes (n div 256)) \<le> length d1"
      using "1.prems" nb emitsD(2) [OF d1(2)] by simp
    from "1.IH" [OF False this, of "count + 1"] obtain d2 where
      d2: "emit_length_bytes d1 (op + 1) (int (n div 256)) (count + 1) =
             Inr (d2, op + 1 + length (nat_bytes (n div 256)),
                  count + 1 + length (nat_bytes (n div 256)))"
        "emits d1 (op + 1) (nat_bytes (n div 256)) d2 (op + 1 + length (nat_bytes (n div 256)))"
      by blast
    have "emit_length_bytes dst op (int n) count =
        Inr (d2, op + length (nat_bytes n), count + length (nat_bytes n))"
      using False d1(1) d2(1) drop_bit_8_int [of n]
      by (simp add: emit_length_bytes.simps [of dst] word_of_int_and_255 nb del: of_nat_mod of_nat_div)
    moreover have "emits dst op (nat_bytes n) d2 (op + length (nat_bytes n))"
      using emits_trans [OF d1(2) d2(2)] by (simp add: nb del: of_nat_mod of_nat_div)
    ultimately show ?thesis by blast
  qed
qed

text \<open>The tag byte of a long literal is written after its length bytes.\<close>

lemma store8_before_emits:
  assumes "emits dst (op + 1) bs dst1 op1"
  shows "\<exists>dst2. store8 dst1 op v = Inr dst2 \<and> emits dst op (v # bs) dst2 op1"
proof -
  note e = emitsD [OF assms]
  let ?d = "take op dst1 @ [v] @ drop (op + 1) dst1"
  have "take op1 ?d = take op dst1 @ [v] @ take (op1 - (op + 1)) (drop (op + 1) dst1)"
    using e by (simp add: Suc_diff_le)
  also have "take (op1 - (op + 1)) (drop (op + 1) dst1) = drop (op + 1) (take op1 dst1)"
    by (simp add: drop_take)
  also have "\<dots> = bs"
    using e by (simp add: min_def)
  finally have t: "take op1 ?d = take op dst1 @ [v] @ bs" .
  have "take op dst1 = take op dst"
    using emits_take [OF assms] by (metis le_add1 min.absorb1 take_take)
  then have "emits dst op (v # bs) ?d op1"
    using e t by (simp add: emits_def)
  moreover have "store8 dst1 op v = Inr ?d"
    using e by (simp add: store8_def mem_simps)
  ultimately show ?thesis by blast
qed

definition literal_room :: "nat \<Rightarrow> bool \<Rightarrow> nat" where
  "literal_room len fast = length (literal_header len) + (if fast \<and> len \<le> 16 then 16 else len)"

lemma emit_literal_emits:
  assumes "0 < len" "len < 2 ^ 32" "literal + len \<le> length input"
    and "op + literal_room len fast \<le> length dst"
    and "fast \<longrightarrow> len \<le> 16 \<longrightarrow> literal + 16 \<le> length input"
  shows "\<exists>dst' op'. emit_literal dst op input literal len fast = Inr (dst', op')
           \<and> emits dst op (encode_element (Literal (take len (drop literal input)))) dst' op'"
proof -
  let ?bs = "take len (drop literal input)"
  have l: "length ?bs = len" using assms(3) by simp
  show ?thesis
  proof (cases "len \<le> 60")
    case True
    let ?t = "word_of_nat (4 * (len - 1)) :: u8"
    have hdr: "literal_header len = [?t]"
    proof -
      have "len - 1 < 60" using True assms(1) by linarith
      then show ?thesis by (simp only: literal_header_def Let_def if_True)
    qed
    have tag: "(word_of_int (LITERAL OR push_bit 2 (int len - 1)) :: u8) = ?t"
      using assms(1) by (simp add: tag_defs push_bit_eq_mult of_nat_diff mult.commute)
    obtain d1 where d1: "store8 dst op ?t = Inr d1" "emits dst op [?t] d1 (op + 1)"
      using store8_emits [of op dst ?t] assms(4) hdr by (auto simp: literal_room_def)
    note ed1 = emitsD [OF d1(2)]
    show ?thesis
    proof (cases "fast \<and> len \<le> 16")
      case f: True
      then obtain a b where ab: "unaligned_copy64 input literal d1 (op + 1) = Inr a"
          "unaligned_copy64 input (literal + 8) a (op + 1 + 8) = Inr b"
          "emits d1 (op + 1) ?bs b (op + 1 + len)"
        using fast_copy_emits [of literal input "op + 1" d1 len] assms ed1 hdr
        by (auto simp: literal_room_def)
      then have "emit_literal dst op input literal len fast = Inr (b, op + 1 + len)"
        using True f d1 by (simp add: emit_literal_def tag Let_def)
      then show ?thesis
        using emits_trans [OF d1(2) ab(3)] hdr l by auto
    next
      case f: False
      then obtain a where a: "emit_literal_tail d1 (op + 1) input literal len = Inr (a, op + 1 + len)"
          "emits d1 (op + 1) ?bs a (op + 1 + len)"
        using emit_literal_tail_emits [of literal len input "op + 1" d1] assms ed1 hdr
        by (auto simp: literal_room_def)
      then have "emit_literal dst op input literal len fast = Inr (a, op + 1 + len)"
        using True f d1 by (auto simp add: emit_literal_def tag Let_def)
      then show ?thesis
        using emits_trans [OF d1(2) a(2)] hdr l by auto
    qed
  next
    case False
    let ?nb = "nat_bytes (len - 1)"
    let ?t = "word_of_nat (4 * (59 + length ?nb)) :: u8"
    have hdr: "literal_header len = ?t # ?nb"
      using False by (simp add: literal_header_def Let_def del: of_nat_mult of_nat_add)
    have tag: "(word_of_int (LITERAL OR push_bit 2 (59 + int (length ?nb))) :: u8) = ?t"
      by (simp add: tag_defs push_bit_eq_mult mult.commute)
    have c: "1 \<le> length ?nb" "length ?nb \<le> 4"
      using False assms(2) length_nat_bytes_pos [of "len - 1"] length_nat_bytes_le [of "len - 1" 4]
      by simp_all
    have room: "op + 1 + length ?nb + len \<le> length dst"
      using assms(4) hdr False by (simp add: literal_room_def)
    obtain d1 where d1: "emit_length_bytes dst (op + 1) (int (len - 1)) 0 =
          Inr (d1, op + 1 + length ?nb, length ?nb)"
        "emits dst (op + 1) ?nb d1 (op + 1 + length ?nb)"
      using emit_length_bytes_emits [of "op + 1" "len - 1" dst 0] room by auto
    obtain d2 where d2: "store8 d1 op ?t = Inr d2" "emits dst op (?t # ?nb) d2 (op + 1 + length ?nb)"
      using store8_before_emits [OF d1(2)] by blast
    obtain a where a: "emit_literal_tail d2 (op + 1 + length ?nb) input literal len =
          Inr (a, op + 1 + length ?nb + len)"
        "emits d2 (op + 1 + length ?nb) ?bs a (op + 1 + length ?nb + len)"
      using emit_literal_tail_emits [of literal len input "op + 1 + length ?nb" d2] room assms(3)
        emitsD(2) [OF d2(2)] by auto
    have "int len - 1 = int (len - 1)" using assms(1) by simp
    then have "emit_literal dst op input literal len fast = Inr (a, op + 1 + length ?nb + len)"
      using False c d1(1) d2(1) [folded tag] a(1) by (simp add: emit_literal_def Let_def del: of_nat_diff)
    then show ?thesis
      using emits_trans [OF d2(2) a(2)] hdr l by auto
  qed
qed

text \<open>Back references: one call emits one element, or a run of elements with one offset.\<close>

lemma le_bytes_2_of_nat:
  assumes "n < 65536"
  shows "le_bytes 2 (word_of_int (int n) :: u16) = [word_of_nat (n mod 256), word_of_nat (n div 256)]"
proof -
  have u: "unat (word_of_nat n :: u16) = n"
    using assms by (simp add: unat_of_nat take_bit_nat_eq_self_iff)
  have "(ucast (word_of_nat n :: u16) :: u8) = word_of_nat (n mod 256)"
    by (rule word_unat_eq_iff [THEN iffD2]) (simp add: unsigned_ucast_eq u take_bit_eq_mod)
  moreover have "unat (drop_bit 8 (word_of_nat n :: u16)) = n div 256"
    using unat_drop_bit_eq [of 8 "word_of_nat n :: u16"] by (simp only: u) (simp add: drop_bit_eq_div)
  then have "(ucast (drop_bit 8 (word_of_nat n :: u16)) :: u8) = word_of_nat (n div 256)"
    using assms
    by (intro word_unat_eq_iff [THEN iffD2]) (simp add: unsigned_ucast_eq take_bit_eq_mod)
  ultimately show ?thesis
    by (simp add: numeral_2_eq_2 del: of_nat_mod of_nat_div)
qed

lemma emit_copy_less_than64_emits:
  assumes "encodable (Copy offset len)" "op + 3 \<le> length dst"
  shows "\<exists>dst' op'. emit_copy_less_than64 dst op offset len = Inr (dst', op')
           \<and> emits dst op (copy_bytes offset len) dst' op'"
proof (cases "len < 12 \<and> offset < 2048")
  case True
  let ?t = "word_of_nat (1 + 4 * (len - 4) + 32 * (offset div 256)) :: u8"
  let ?o = "word_of_nat (offset mod 256) :: u8"
  have "int len - 4 = int (len - 4)" using assms(1) by simp
  then have tag: "(word_of_int (COPY_1_BYTE_OFFSET + push_bit 2 (int len - 4)
                     + push_bit 5 (drop_bit 8 (int offset))) :: u8) = ?t"
    using drop_bit_8_int [of offset]
    by (simp add: tag_defs push_bit_eq_mult mult.commute flip: of_nat_diff)
  obtain d1 where d1: "store8 dst op ?t = Inr d1" "emits dst op [?t] d1 (op + 1)"
    using store8_emits [of op dst ?t] assms(2) by auto
  obtain d2 where d2: "store8 d1 (op + 1) ?o = Inr d2" "emits d1 (op + 1) [?o] d2 (op + 1 + 1)"
    using store8_emits [of "op + 1" d1 ?o] assms(2) emitsD(2) [OF d1(2)] by auto
  have "emit_copy_less_than64 dst op offset len = Inr (d2, op + 2)"
    using assms(1) True d1(1) [folded tag] d2(1) [folded word_of_int_and_255]
    by (simp add: emit_copy_less_than64_def Let_def)
  moreover have "copy_bytes offset len = [?t] @ [?o]"
    using True by (simp only: copy_bytes_def simp_thms if_True append.simps)
  ultimately show ?thesis
    using emits_trans [OF d1(2) d2(2)] by auto
next
  case False
  let ?t = "word_of_nat (2 + 4 * (len - 1)) :: u8"
  let ?o = "[word_of_nat (offset mod 256), word_of_nat (offset div 256)] :: buffer"
  have "int len - 1 = int (len - 1)" using assms(1) by simp
  then have tag: "(word_of_int (COPY_2_BYTE_OFFSET + push_bit 2 (int len - 1)) :: u8) = ?t"
    by (simp add: tag_defs push_bit_eq_mult mult.commute flip: of_nat_diff)
  have le: "le_bytes 2 (word_of_int (int offset) :: u16) = ?o"
    using assms(1) by (intro le_bytes_2_of_nat) simp
  obtain d1 where d1: "store8 dst op ?t = Inr d1" "emits dst op [?t] d1 (op + 1)"
    using store8_emits [of op dst ?t] assms(2) by auto
  obtain d2 where d2: "store_bytes d1 (op + 1) ?o = Inr d2" "emits d1 (op + 1) ?o d2 (op + 1 + length ?o)"
    using store_bytes_emits [of "op + 1" ?o d1] assms(2) emitsD(2) [OF d1(2)] by auto
  have "emit_copy_less_than64 dst op offset len = Inr (d2, op + 1 + 2)"
    using assms(1) False d1(1) [folded tag] d2(1) [folded le]
    by (auto simp add: emit_copy_less_than64_def Let_def put_unaligned_le16_def)
  moreover have "copy_bytes offset len = [?t] @ ?o"
    using False by (simp only: copy_bytes_def if_False append.simps)
  ultimately show ?thesis
    using emits_trans [OF d1(2) d2(2)] by auto
qed

text \<open>How \<^verbatim>\<open>emit_copy\<close> splits a long match.\<close>

fun copy_chunks :: "nat \<Rightarrow> nat list" where
  "copy_chunks len =
     (if len \<ge> 68 then 64 # copy_chunks (len - 64)
      else if len > 64 then [60, len - 60] else [len])"

declare copy_chunks.simps [simp del]

lemma sum_list_copy_chunks: "sum_list (copy_chunks len) = len"
proof (induction len rule: copy_chunks.induct)
  case (1 len)
  then show ?case by (subst copy_chunks.simps) auto
qed

lemma copy_chunks_range: "4 \<le> len \<Longrightarrow> n \<in> set (copy_chunks len) \<Longrightarrow> 4 \<le> n \<and> n \<le> 64"
proof (induction len rule: copy_chunks.induct)
  case (1 len)
  then show ?case by (subst (asm) copy_chunks.simps) (auto split: if_splits)
qed

lemma length_copy_chunks: "4 \<le> len \<Longrightarrow> 3 * length (copy_chunks len) < len"
proof (induction len rule: copy_chunks.induct)
  case (1 len)
  have "len \<ge> 68 \<Longrightarrow> 3 * length (copy_chunks (len - 64)) < len - 64"
    by (rule "1.IH") linarith+
  then show ?case using "1.prems" by (subst copy_chunks.simps) auto
qed

lemma length_copy_bytes: "length (copy_bytes off n) \<le> 3"
  by (simp add: copy_bytes_def)

definition copies :: "nat \<Rightarrow> nat \<Rightarrow> element list" where
  "copies offset len = map (Copy offset) (copy_chunks len)"

lemma length_encode_copies: "length (encode_all (copies offset len)) \<le> 3 * length (copy_chunks len)"
proof -
  have "length (encode_all (map (Copy offset) ns)) \<le> 3 * length ns" for ns
  proof (induction ns)
    case (Cons n ns)
    then show ?case using length_copy_bytes [of offset n] by simp
  qed simp
  then show ?thesis by (simp add: copies_def)
qed

lemma expand_copies: "expand_all (copies offset len) out = self_copy offset len out"
proof -
  have "expand_all (map (Copy offset) ns) out = self_copy offset (sum_list ns) out" for ns
    by (induction ns arbitrary: out) (simp_all add: self_copy_add)
  then show ?thesis by (simp add: copies_def sum_list_copy_chunks)
qed

lemma expanded_len_copies: "expanded_len (copies offset len) = len"
  by (simp add: copies_def expanded_len_def o_def sum_list_copy_chunks)

lemma well_formed_copies:
  assumes "4 \<le> len" "0 < offset" "offset < 65536" "offset \<le> n"
  shows "well_formed n (copies offset len)"
proof -
  have "(\<And>m. m \<in> set ns \<Longrightarrow> 4 \<le> m \<and> m \<le> 64) \<Longrightarrow> offset \<le> n \<Longrightarrow>
          well_formed n (map (Copy offset) ns)" for ns n
    using assms(2,3) by (induction ns arbitrary: n) auto
  then show ?thesis
    unfolding copies_def using assms copy_chunks_range by blast
qed

lemma emit_copy_emits:
  assumes "4 \<le> len" "0 < offset" "offset < 65536"
    and "op + 3 * length (copy_chunks len) \<le> length dst"
  shows "\<exists>dst' op'. emit_copy dst op offset len = Inr (dst', op')
           \<and> emits dst op (encode_all (copies offset len)) dst' op'"
  using assms
proof (induction len arbitrary: dst op rule: copy_chunks.induct)
  case (1 len)
  have one: "\<exists>dst' op'. emit_copy_less_than64 dst op offset n = Inr (dst', op')
        \<and> emits dst op (copy_bytes offset n) dst' op' \<and> op' \<le> op + 3 \<and> length dst' = length dst"
    if "4 \<le> n" "n \<le> 64" "op + 3 \<le> length dst" for n dst op
    using emit_copy_less_than64_emits [of offset n op dst] that "1.prems"(2,3)
      length_copy_bytes [of offset n]
    by (fastforce simp: emits_def)
  consider "len \<ge> 68" | "len < 68" "len > 64" | "len \<le> 64" by linarith
  then show ?case
  proof cases
    case c: 1
    then have ch: "copy_chunks len = 64 # copy_chunks (len - 64)" by (simp add: copy_chunks.simps)
    obtain d1 o1 where a: "emit_copy_less_than64 dst op offset 64 = Inr (d1, o1)"
        "emits dst op (copy_bytes offset 64) d1 o1" "o1 \<le> op + 3" "length d1 = length dst"
      using one [of 64 op dst] "1.prems" ch by auto
    have "4 \<le> len - 64" using c by linarith
    then obtain d2 o2 where b: "emit_copy d1 o1 offset (len - 64) = Inr (d2, o2)"
        "emits d1 o1 (encode_all (copies offset (len - 64))) d2 o2"
      using "1.IH" [OF c, of o1 d1] "1.prems" a c ch by auto
    show ?thesis
      using c a(1) b(1) emits_trans [OF a(2) b(2)]
      by (subst emit_copy.simps) (auto simp: ch copies_def)
  next
    case c: 2
    then have ch: "copy_chunks len = [60, len - 60]" by (simp add: copy_chunks.simps)
    obtain d1 o1 where a: "emit_copy_less_than64 dst op offset 60 = Inr (d1, o1)"
        "emits dst op (copy_bytes offset 60) d1 o1" "o1 \<le> op + 3" "length d1 = length dst"
      using one [of 60 op dst] "1.prems" ch by auto
    have "4 \<le> len - 60" "len - 60 \<le> 64" using c by linarith+
    then obtain d2 o2 where b: "emit_copy_less_than64 d1 o1 offset (len - 60) = Inr (d2, o2)"
        "emits d1 o1 (copy_bytes offset (len - 60)) d2 o2"
      using one [of "len - 60" o1 d1] "1.prems" a c ch by auto
    show ?thesis
      using c a(1) b(1) emits_trans [OF a(2) b(2)]
      by (subst emit_copy.simps) (auto simp: ch copies_def)
  next
    case c: 3
    then have "copy_chunks len = [len]" by (simp add: copy_chunks.simps)
    then show ?thesis
      using one [of len op dst] "1.prems" c by (subst emit_copy.simps) (auto simp: copies_def)
  qed
qed

end
