(* ===== verification/Snappy_Sink.thy ===== *)
theory Snappy_Sink
  imports Snappy_Emit Snappy_Source
begin

text \<open>
  Byte sinks of the compressor (\<^verbatim>\<open>struct sink\<close>, \<^verbatim>\<open>append\<close> and \<^verbatim>\<open>sink_peek\<close> of \<^verbatim>\<open>snappy.c\<close>): the flat sink and the
  scatter-gather sink over output vectors. The compressor is written against both; what it relies
  on is the locale \<open>byte_sink\<close>, which both sinks are shown to satisfy.
\<close>

section \<open>What the compressor expects of a sink\<close>

text \<open>
  What is appended to a sink: \<open>In_place m\<close> is the case \<^verbatim>\<open>data == dst\<close>, where the bytes have been written at the position
  that \<^verbatim>\<open>sink_peek\<close> returned and \<open>m\<close> is the memory of the sink there; \<open>From b\<close> are bytes of another buffer.
\<close>

datatype sink_data = In_place buffer | From buffer

text \<open>
  \<open>reserve w n\<close> is the memory and the position at which \<open>n\<close> bytes may be written in one piece, if there is one;
  \<open>put\<close> appends; \<open>written\<close> are the bytes appended so far and \<open>room\<close> bounds what may still be appended.
\<close>

locale byte_sink =
  fixes reserve :: "'k \<Rightarrow> nat \<Rightarrow> (buffer \<times> nat) option"
    and put :: "'k \<Rightarrow> sink_data \<Rightarrow> nat \<Rightarrow> 'k c_result"
    and written :: "'k \<Rightarrow> buffer"
    and room :: "'k \<Rightarrow> nat"
    and sink_ok :: "'k \<Rightarrow> bool"
  assumes reserve_room: "sink_ok w \<Longrightarrow> reserve w n = Some (m, p) \<Longrightarrow> p + min n (room w) \<le> length m"
    and put_in_place: "sink_ok w \<Longrightarrow> reserve w n = Some (m, p) \<Longrightarrow> emits m p bs m' q \<Longrightarrow> length bs \<le> min n (room w) \<Longrightarrow>
          \<exists>w'. put w (In_place m') (length bs) = Inr w' \<and> sink_ok w' \<and> written w' = written w @ bs
             \<and> room w' = room w - length bs"
    and put_from: "sink_ok w \<Longrightarrow> n \<le> length b \<Longrightarrow> n \<le> room w \<Longrightarrow>
          \<exists>w'. put w (From b) n = Inr w' \<and> sink_ok w' \<and> written w' = written w @ take n b \<and> room w' = room w - n"

section \<open>The flat sink\<close>

text \<open>The flat sink: \<^verbatim>\<open>dest\<close> is a position in the output buffer.\<close>

record sink =
  sink_mem :: buffer
  dest :: nat

definition append_sink :: "sink \<Rightarrow> sink_data \<Rightarrow> nat \<Rightarrow> sink c_result" where
  "append_sink s data n =
     (case data of
        In_place m \<Rightarrow> Inr (s\<lparr>sink_mem := m, dest := dest s + n\<rparr>)
      | From b \<Rightarrow>
          cbind (load_bytes b 0 n) (\<lambda>bs.
          cbind (store_bytes (sink_mem s) (dest s) bs) (\<lambda>m.
            Inr (s\<lparr>sink_mem := m, dest := dest s + n\<rparr>))))"

definition sink_peek :: "sink \<Rightarrow> nat \<Rightarrow> (buffer \<times> nat) option" where
  "sink_peek s n = Some (sink_mem s, dest s)"

definition sink_written :: "nat \<Rightarrow> sink \<Rightarrow> buffer" where
  "sink_written start s = drop start (take (dest s) (sink_mem s))"

definition sink_room :: "sink \<Rightarrow> nat" where
  "sink_room s = length (sink_mem s) - dest s"

definition sink_invar :: "nat \<Rightarrow> nat \<Rightarrow> sink \<Rightarrow> bool" where
  "sink_invar start cap s \<longleftrightarrow> start \<le> dest s \<and> dest s \<le> length (sink_mem s) \<and> length (sink_mem s) = cap"

interpretation flat_sink: byte_sink sink_peek append_sink "sink_written start" sink_room "sink_invar start cap"
  for start cap
proof
  fix w :: sink and n m p bs m' q and b :: buffer
  assume ok: "sink_invar start cap w"
  { assume r: "sink_peek w n = Some (m, p)"
    then have mp: "m = sink_mem w" "p = dest w" by (simp_all add: sink_peek_def)
    show "p + min n (sink_room w) \<le> length m" using ok mp by (auto simp: sink_invar_def sink_room_def)
    assume "emits m p bs m' q" "length bs \<le> min n (sink_room w)"
    then show "\<exists>w'. append_sink w (In_place m') (length bs) = Inr w' \<and> sink_invar start cap w'
        \<and> sink_written start w' = sink_written start w @ bs \<and> sink_room w' = sink_room w - length bs"
      using ok mp by (auto simp: append_sink_def sink_invar_def sink_written_def sink_room_def emits_def) }
  assume "n \<le> length b" "n \<le> sink_room w"
  then show "\<exists>w'. append_sink w (From b) n = Inr w' \<and> sink_invar start cap w'
      \<and> sink_written start w' = sink_written start w @ take n b \<and> sink_room w' = sink_room w - n"
    using ok by (auto simp: append_sink_def mem_simps sink_invar_def sink_written_def sink_room_def)
qed

section \<open>The scatter-gather sink\<close>

text \<open>\<^verbatim>\<open>curvec\<close>, \<^verbatim>\<open>curoff\<close> and \<^verbatim>\<open>written\<close> are \<^verbatim>\<open>unsigned\<close>: 32 bits.\<close>

record iov_sink =
  out_iov :: "iovec list"
  out_iovlen :: nat
  out_vec :: nat
  out_off :: nat
  out_written :: nat

text \<open>Subtraction of \<^verbatim>\<open>size_t\<close> values.\<close>

definition size_sub :: "nat \<Rightarrow> nat \<Rightarrow> nat" where
  "size_sub a b = nat ((int a - int b) mod 2 ^ 64)"

text \<open>The loop of \<^verbatim>\<open>append\<close>: the remaining \<open>n\<close> bytes of \<open>data\<close> from \<open>pos\<close> on go to the following vectors.\<close>

function append_rest :: "iov_sink \<Rightarrow> buffer \<Rightarrow> nat \<Rightarrow> nat \<Rightarrow> iov_sink c_result" where
  "append_rest s data pos n =
     (if 0 < n then
        let v = out_vec s + 1 in
        if v < out_iovlen s then
          if v < length (out_iov s) then
            let iv = out_iov s ! v; nlen = min (iov_len iv) n in
            cbind (load_bytes data pos nlen) (\<lambda>bs.
            cbind (store_bytes (iov_base iv) 0 bs) (\<lambda>m.
              append_rest (s\<lparr>out_iov := (out_iov s)[v := iv\<lparr>iov_base := m\<rparr>], out_vec := v, out_off := nlen mod 2 ^ 32\<rparr>)
                data (pos + nlen) (n - nlen)))
          else Inl Invalid_access
        else Inl Assertion_failure
      else Inr s)"
  by pat_completeness auto
termination
  by (relation "measure (\<lambda>(s, data, pos, n). out_iovlen s - out_vec s)") auto

declare append_rest.simps [simp del]

definition append_sg :: "iov_sink \<Rightarrow> sink_data \<Rightarrow> nat \<Rightarrow> iov_sink c_result" where
  "append_sg s data n =
     (if out_vec s < length (out_iov s) then
        let iv = out_iov s ! out_vec s; nlen = min (size_sub (iov_len iv) (out_off s)) n in
        cbind (case data of
                 In_place m \<Rightarrow> Inr m
               | From b \<Rightarrow> cbind (load_bytes b 0 nlen) (\<lambda>bs. store_bytes (iov_base iv) (out_off s) bs)) (\<lambda>m.
          append_rest (s\<lparr>out_iov := (out_iov s)[out_vec s := iv\<lparr>iov_base := m\<rparr>],
              out_written := (out_written s + n) mod 2 ^ 32, out_off := (out_off s + nlen) mod 2 ^ 32\<rparr>)
            (case data of In_place m \<Rightarrow> drop (out_off s) m | From b \<Rightarrow> b) nlen (n - nlen))
      else Inl Invalid_access)"

text \<open>The test compares the index of the vector with the length of the vector, as the code does.\<close>

definition sink_peek_sg :: "iov_sink \<Rightarrow> nat \<Rightarrow> (buffer \<times> nat) option" where
  "sink_peek_sg s n =
     (let iv = out_iov s ! out_vec s in
      if out_vec s < iov_len iv \<and> n \<le> size_sub (iov_len iv) (out_off s) then Some (iov_base iv, out_off s) else None)"

lemma size_sub_eq: "b \<le> a \<Longrightarrow> a < 2 ^ 64 \<Longrightarrow> size_sub a b = a - b"
  by (simp add: size_sub_def flip: of_nat_diff)

text \<open>
  A sink in use: the vectors before the current one are full, the current one is filled up to the offset. Only the last
  vector may claim to be longer than its memory is.
\<close>

definition vec_room :: "iovec \<Rightarrow> nat" where
  "vec_room v = min (iov_len v) (length (iov_base v))"

definition sg_written :: "iov_sink \<Rightarrow> buffer" where
  "sg_written s = concat (map iov_bytes (take (out_vec s) (out_iov s))) @ take (out_off s) (iov_base (out_iov s ! out_vec s))"

definition sg_free :: "iov_sink \<Rightarrow> nat" where
  "sg_free s = vec_room (out_iov s ! out_vec s) - out_off s + sum_list (map vec_room (drop (Suc (out_vec s)) (out_iov s)))"

definition sg_room :: "iov_sink \<Rightarrow> nat" where
  "sg_room s = min (sg_free s) (2 ^ 32 - 1 - out_written s)"

definition sizes :: "iovec \<Rightarrow> nat \<times> nat" where
  "sizes v = (iov_len v, length (iov_base v))"

definition vecs_ok :: "iovec list \<Rightarrow> bool" where
  "vecs_ok vs \<longleftrightarrow> (\<forall>v \<in> set vs. iov_len v < 2 ^ 32) \<and> (\<forall>v \<in> set (butlast vs). iov_len v \<le> length (iov_base v))"

definition sg_ok :: "(nat \<times> nat) list \<Rightarrow> iov_sink \<Rightarrow> bool" where
  "sg_ok shape s \<longleftrightarrow> map sizes (out_iov s) = shape \<and> out_iovlen s = length (out_iov s) \<and> out_vec s < length (out_iov s)
     \<and> vecs_ok (out_iov s) \<and> out_off s \<le> vec_room (out_iov s ! out_vec s)
     \<and> out_written s = length (sg_written s) \<and> out_written s < 2 ^ 32"

text \<open>The same, for a sink given as the vectors before the current one, the current one and those after it.\<close>

definition sink_at :: "iov_sink \<Rightarrow> iovec list \<Rightarrow> iovec \<Rightarrow> iovec list \<Rightarrow> bool" where
  "sink_at s pre cur post \<longleftrightarrow> out_iov s = pre @ cur # post \<and> out_vec s = length pre \<and> out_iovlen s = length (out_iov s)
     \<and> vecs_ok (pre @ cur # post) \<and> out_off s \<le> vec_room cur"

lemma sink_at_simps:
  assumes "sink_at s pre cur post"
  shows "sg_written s = concat (map iov_bytes pre) @ take (out_off s) (iov_base cur)"
    "sg_free s = vec_room cur - out_off s + sum_list (map vec_room post)"
    "out_vec s < length (out_iov s)" "out_iov s ! out_vec s = cur" "iov_len cur < 2 ^ 32"
    "post \<noteq> [] \<Longrightarrow> vec_room cur = iov_len cur" "out_off s \<le> vec_room cur"
  using assms by (auto simp: sink_at_def sg_written_def sg_free_def vecs_ok_def vec_room_def butlast_append min_def)

lemma sg_ok_split:
  assumes "sg_ok shape s"
  obtains pre cur post where "sink_at s pre cur post"
proof
  show "sink_at s (take (out_vec s) (out_iov s)) (out_iov s ! out_vec s) (drop (Suc (out_vec s)) (out_iov s))"
    using assms by (simp add: sg_ok_def sink_at_def id_take_nth_drop [symmetric])
qed

text \<open>Replacing the memory of a vector keeps its sizes.\<close>

lemma sizes_eq_simps:
  assumes "sizes v = sizes v'"
  shows "vec_room v = vec_room v'" "iov_len v = iov_len v'" "length (iov_base v) = length (iov_base v')"
  using assms by (auto simp: sizes_def vec_room_def)

lemma vecs_ok_sizes:
  assumes "map sizes vs = map sizes vs'"
  shows "vecs_ok vs = vecs_ok vs'"
proof -
  have ok: "vecs_ok us \<longleftrightarrow> (\<forall>z \<in> set (map sizes us). fst z < 2 ^ 32) \<and> (\<forall>z \<in> set (butlast (map sizes us)). fst z \<le> snd z)" for us
    by (auto simp: vecs_ok_def sizes_def map_butlast [symmetric])
  show ?thesis unfolding ok assms ..
qed

text \<open>
  Appending to the following vectors: the current vector is full, the bytes before the position \<open>pos\<close> have been written, and
  the rest fits.
\<close>

lemma append_rest_ok:
  assumes "sink_at s pre cur post" "n > 0 \<Longrightarrow> out_off s = iov_len cur" "pos + n \<le> length data" "n \<le> sum_list (map vec_room post)"
  shows "\<exists>s'. append_rest s data pos n = Inr s' \<and> map sizes (out_iov s') = map sizes (out_iov s) \<and> out_written s' = out_written s
     \<and> (\<exists>pre cur post. sink_at s' pre cur post) \<and> sg_written s' = sg_written s @ take n (drop pos data) \<and> sg_free s' = sg_free s - n"
  using assms
proof (induction post arbitrary: s pre cur pos n)
  case Nil
  then show ?case by (auto simp: append_rest.simps [of s])
next
  case (Cons v post)
  note at = sink_at_simps [OF Cons.prems(1)]
  show ?case
  proof (cases "n = 0")
    case True
    then show ?thesis using Cons.prems(1) by (auto simp: append_rest.simps [of s])
  next
    case False
    define k where "k = min (iov_len v) n"
    define v' where "v' = v\<lparr>iov_base := take k (drop pos data) @ drop k (iov_base v)\<rparr>"
    define s1 where "s1 = s\<lparr>out_iov := (out_iov s)[length pre + 1 := v'], out_vec := length pre + 1, out_off := k\<rparr>"
    have cur: "vec_room cur = iov_len cur" "out_off s = iov_len cur" "iov_len cur \<le> length (iov_base cur)"
      using at(6) Cons.prems(2) False by (auto simp: vec_room_def)
    have kv: "k \<le> length (iov_base v)"
    proof (cases "post = []")
      case True
      then show ?thesis using Cons.prems(4) by (simp add: k_def vec_room_def)
    next
      case False
      then show ?thesis using Cons.prems(1) by (auto simp: sink_at_def vecs_ok_def butlast_append k_def)
    qed
    have k: "k \<le> n" "k < 2 ^ 32" "k \<le> vec_room v"
      using Cons.prems(1) kv by (auto simp: k_def sink_at_def vecs_ok_def vec_room_def)
    have sz: "sizes v' = sizes v" using kv Cons.prems(3) k(1) by (simp add: sizes_def v'_def)
    have iov1: "out_iov s1 = (pre @ [cur]) @ v' # post" using Cons.prems(1) by (simp add: s1_def sink_at_def list_update_append)
    have map1: "map sizes (out_iov s1) = map sizes (out_iov s)" using iov1 sz Cons.prems(1) by (simp add: sink_at_def)
    have at1: "sink_at s1 (pre @ [cur]) v' post"
      using Cons.prems(1) iov1 map1 vecs_ok_sizes [OF map1] k(3) sizes_eq_simps(1) [OF sz] by (simp add: sink_at_def s1_def)
    have eq: "append_rest s data pos n = append_rest s1 data (pos + k) (n - k)"
      using Cons.prems(1,3) False kv k
      by (subst append_rest.simps) (simp add: sink_at_def Let_def nth_append mem_simps k_def [symmetric] s1_def v'_def)
    have f1: "n - k > 0 \<Longrightarrow> out_off s1 = iov_len v'" by (auto simp: s1_def k_def v'_def)
    have f2: "pos + k + (n - k) \<le> length data" using Cons.prems(3) k by simp
    have f3: "n - k \<le> sum_list (map vec_room post)"
      using Cons.prems(4) kv by (auto simp: k_def vec_room_def [of v] min_def split: if_splits)
    obtain s' where s': "append_rest s1 data (pos + k) (n - k) = Inr s'" "map sizes (out_iov s') = map sizes (out_iov s1)"
        "out_written s' = out_written s1" "\<exists>pre cur post. sink_at s' pre cur post"
        "sg_written s' = sg_written s1 @ take (n - k) (drop (pos + k) data)" "sg_free s' = sg_free s1 - (n - k)"
      using Cons.IH [OF at1 f1 f2 f3] by blast
    have "sg_written s1 = sg_written s @ take k (drop pos data)"
      using sink_at_simps(1) [OF at1] at(1) cur Cons.prems(3) k(1) by (simp add: s1_def v'_def iov_bytes_def)
    then have "sg_written s' = sg_written s @ take n (drop pos data)"
      using s'(5) take_add [of k "n - k" "drop pos data"] k(1) by (simp add: add.commute)
    moreover have "sg_free s' = sg_free s - n"
      using s'(6) sink_at_simps(2) [OF at1] at(2) cur k sizes_eq_simps(1) [OF sz] by (simp add: s1_def)
    ultimately show ?thesis using s' eq map1 by (auto simp: s1_def)
  qed
qed

text \<open>The first step of \<^verbatim>\<open>append\<close>: the current vector takes what it has room for.\<close>

lemma append_sg_ok:
  assumes ok: "sg_ok shape s" and n: "n \<le> sg_room s" "n \<le> length data"
    and m: "emits (iov_base (out_iov s ! out_vec s)) (out_off s) (take k data) m q" "k = min (iov_len (out_iov s ! out_vec s) - out_off s) n"
    and src: "case d of In_place m' \<Rightarrow> m' = m \<and> n = k | From b \<Rightarrow> b = data
      \<and> m = take (out_off s) (iov_base (out_iov s ! out_vec s)) @ take k data @ drop (out_off s + k) (iov_base (out_iov s ! out_vec s))"
  shows "\<exists>s'. append_sg s d n = Inr s' \<and> sg_ok shape s' \<and> sg_written s' = sg_written s @ take n data \<and> sg_room s' = sg_room s - n"
proof -
  obtain pre cur post where at: "sink_at s pre cur post" using sg_ok_split [OF ok] .
  note c = sink_at_simps [OF at]
  let ?cur = "cur\<lparr>iov_base := m\<rparr>"
  define s1 where "s1 = s\<lparr>out_iov := (out_iov s)[out_vec s := ?cur], out_written := (out_written s + n) mod 2 ^ 32, out_off := out_off s + k\<rparr>"
  note e = emitsD [OF m(1)] and m2 = m(2) [unfolded c(4)]
  have len: "length m = length (iov_base cur)" "length (take k data) = k" using e(2) c(4) n(2) m2 by auto
  have "k \<le> iov_len cur - out_off s" "k \<le> n" using m2 by simp_all
  then have off: "out_off s + k \<le> vec_room cur" using e(1,3) len c(4,7) by (auto simp: vec_room_def)
  have off32: "out_off s + k < 2 ^ 32" using off c(5) by (simp add: vec_room_def)
  have sz: "sizes ?cur = sizes cur" using len by (simp add: sizes_def)
  have iov1: "out_iov s1 = pre @ ?cur # post" "out_vec s1 = length pre" using at by (simp_all add: s1_def sink_at_def)
  have map1: "map sizes (out_iov s1) = map sizes (out_iov s)" using iov1 sz at by (simp add: sink_at_def)
  have at1: "sink_at s1 pre ?cur post"
    using at iov1 vecs_ok_sizes [OF map1] off sizes_eq_simps(1) [OF sz] by (simp add: sink_at_def s1_def)
  have room: "n \<le> sg_free s" "out_written s + n < 2 ^ 32" using n(1) ok by (auto simp: sg_room_def sg_ok_def)
  have kroom: "k = min (vec_room cur - out_off s) n"
  proof (cases "post = []")
    case True
    then show ?thesis using room(1) c(2,7) m2 by (auto simp: vec_room_def)
  next
    case False
    then show ?thesis using c(6) m2 by simp
  qed
  have rest: "n - k \<le> sum_list (map vec_room post)" using room(1) c(2) kroom by auto
  have full: "n - k > 0 \<Longrightarrow> out_off s1 = iov_len ?cur" using m2 c(7) by (auto simp: s1_def vec_room_def)
  have w1: "sg_written s1 = sg_written s @ take k data"
    using sink_at_simps(1) [OF at1] c(1,4) e(1,4) len by (simp add: s1_def)
  have nlen: "min (size_sub (iov_len cur) (out_off s)) n = k"
    using c(5,7) m2 by (simp add: size_sub_eq vec_room_def)
  have "\<exists>rd. append_sg s d n = append_rest s1 rd k (n - k) \<and> (n - k > 0 \<longrightarrow> rd = data)"
  proof (cases d)
    case (In_place m')
    then show ?thesis using src c(3,4) nlen off32 by (auto simp: append_sg_def Let_def s1_def)
  next
    case (From b)
    have "store_bytes (iov_base cur) (out_off s) (take k b) = Inr m" "load_bytes b 0 k = Inr (take k b)"
      using From src len off m2 n(2) c(4) by (auto simp: mem_simps vec_room_def)
    then show ?thesis using From src c(3,4) nlen off32 by (auto simp: append_sg_def Let_def s1_def)
  qed
  then obtain rd where rd: "append_sg s d n = append_rest s1 rd k (n - k)" "n - k > 0 \<longrightarrow> rd = data"
    by (elim exE conjE) (rule that)
  have rl: "k + (n - k) \<le> length rd" if "n \<noteq> k" using that rd(2) n(2) \<open>k \<le> n\<close> by auto
  obtain s' where s': "append_rest s1 rd k (n - k) = Inr s'" "map sizes (out_iov s') = map sizes (out_iov s1)"
      "out_written s' = out_written s1" "\<exists>pre cur post. sink_at s' pre cur post"
      "sg_written s' = sg_written s1 @ take (n - k) (drop k rd)" "sg_free s' = sg_free s1 - (n - k)"
  proof (cases "n = k")
    case True
    then show ?thesis using that [of s1] at1 by (auto simp: append_rest.simps)
  next
    case False
    then show ?thesis using append_rest_ok [OF at1 full rl rest] that by blast
  qed
  have w: "sg_written s' = sg_written s @ take n data"
    using s'(5) w1 rd(2) \<open>k \<le> n\<close> take_add [of k "n - k" data] by (cases "n = k") auto
  have "out_written s' = out_written s + n" using s'(3) room(2) by (simp add: s1_def)
  moreover have "sg_free s' = sg_free s - n"
    using s'(6) sink_at_simps(2) [OF at1] c(2) sizes_eq_simps(1) [OF sz] off kroom by (simp add: s1_def)
  moreover have "sg_ok shape s'"
    using s'(2-4) ok map1 w room(2) n(2) sink_at_simps(3,7) vecs_ok_sizes [OF s'(2)] vecs_ok_sizes [OF map1] calculation(1)
    by (auto simp: sg_ok_def sink_at_def)
  ultimately show ?thesis using rd(1) s'(1) w room by (auto simp: sg_room_def)
qed

interpretation sg_sink: byte_sink sink_peek_sg append_sg sg_written sg_room "sg_ok shape" for shape
proof
  fix w :: iov_sink and n m p bs m' q and b :: buffer
  assume ok: "sg_ok shape w"
  let ?cur = "out_iov w ! out_vec w"
  obtain pre cur post where at: "sink_at w pre cur post" using sg_ok_split [OF ok] .
  note c = sink_at_simps [OF at]
  { assume r: "sink_peek_sg w n = Some (m, p)"
    then have mp: "m = iov_base ?cur" "p = out_off w" "n \<le> iov_len ?cur - out_off w"
      using c(4,5,7) by (auto simp: sink_peek_sg_def Let_def size_sub_eq vec_room_def split: if_splits)
    have "min n (sg_room w) \<le> vec_room cur - out_off w"
      using mp(3) c by (cases "post = []") (auto simp: sg_room_def)
    then show "p + min n (sg_room w) \<le> length m" using mp(1,2) c(4,7) by (auto simp: vec_room_def)
    assume "emits m p bs m' q" "length bs \<le> min n (sg_room w)"
    then show "\<exists>w'. append_sg w (In_place m') (length bs) = Inr w' \<and> sg_ok shape w'
        \<and> sg_written w' = sg_written w @ bs \<and> sg_room w' = sg_room w - length bs"
      using append_sg_ok [OF ok, of "length bs" bs "length bs" m' q "In_place m'"] mp by auto }
  assume n: "n \<le> length b" "n \<le> sg_room w"
  define k where "k = min (iov_len ?cur - out_off w) n"
  define m0 where "m0 = take (out_off w) (iov_base ?cur) @ take k b @ drop (out_off w + k) (iov_base ?cur)"
  have "k \<le> vec_room cur - out_off w" using n(2) c by (cases "post = []") (auto simp: sg_room_def k_def vec_room_def)
  then have "emits (iov_base ?cur) (out_off w) (take k b) m0 (out_off w + k)"
    using c(4,7) n(1) by (auto simp: emits_def m0_def k_def vec_room_def)
  from append_sg_ok [OF ok n(2,1) this k_def, of "From b"]
  show "\<exists>w'. append_sg w (From b) n = Inr w' \<and> sg_ok shape w' \<and> sg_written w' = sg_written w @ take n b \<and> sg_room w' = sg_room w - n"
    by (simp add: m0_def)
qed

end
