(* ===== verification/Snappy_Varint.thy ===== *)
theory Snappy_Varint
  imports Snappy_Mem
begin

text \<open>
  The variable-length encoding of the uncompressed length (\<^verbatim>\<open>varint_encode32\<close>,
  \<^verbatim>\<open>varint_parse32_with_limit\<close>, \<^verbatim>\<open>snappy_uncompressed_length\<close> of \<^verbatim>\<open>snappy.c\<close>), with the round
  trip of the two and the size of an encoding.
\<close>

definition kmax32 :: nat where
  "kmax32 = 5"

text \<open>
  The parser reads \<^verbatim>\<open>[ptr, limit)\<close> of the buffer; \<^verbatim>\<open>None\<close> is the \<^verbatim>\<open>NULL\<close> return, and
  \<^verbatim>\<open>Some (v, p)\<close> stores \<open>v\<close> in \<^verbatim>\<open>*OUTPUT\<close> and returns the pointer \<open>p\<close> past the last byte.
\<close>

definition varint_parse32_with_limit ::
    "buffer \<Rightarrow> nat \<Rightarrow> nat \<Rightarrow> (u32 \<times> nat) option c_result" where
  "varint_parse32_with_limit buf ptr limit =
    (if ptr \<ge> limit then Inr None else
     cbind (load8 buf ptr) (\<lambda>c0. let b = (ucast c0 :: u32); result = b AND 127 in
     if b < 128 then Inr (Some (result, ptr + 1)) else
     if ptr + 1 \<ge> limit then Inr None else
     cbind (load8 buf (ptr + 1)) (\<lambda>c1. let b = (ucast c1 :: u32);
                                       result = result OR push_bit 7 (b AND 127) in
     if b < 128 then Inr (Some (result, ptr + 2)) else
     if ptr + 2 \<ge> limit then Inr None else
     cbind (load8 buf (ptr + 2)) (\<lambda>c2. let b = (ucast c2 :: u32);
                                       result = result OR push_bit 14 (b AND 127) in
     if b < 128 then Inr (Some (result, ptr + 3)) else
     if ptr + 3 \<ge> limit then Inr None else
     cbind (load8 buf (ptr + 3)) (\<lambda>c3. let b = (ucast c3 :: u32);
                                       result = result OR push_bit 21 (b AND 127) in
     if b < 128 then Inr (Some (result, ptr + 4)) else
     if ptr + 4 \<ge> limit then Inr None else
     cbind (load8 buf (ptr + 4)) (\<lambda>c4. let b = (ucast c4 :: u32);
                                       result = result OR push_bit 28 (b AND 127) in
     if b < 16 then Inr (Some (result, ptr + 5)) else
     Inr None))))))"

text \<open>The bytes \<^verbatim>\<open>varint_encode32\<close> stores at consecutive positions, branch by branch.\<close>

definition varint_bytes :: "u32 \<Rightarrow> buffer" where
  "varint_bytes v =
    (let B = 128 in
     if v < 2 ^ 7 then [ucast v]
     else if v < 2 ^ 14 then [ucast (v OR B), ucast (drop_bit 7 v)]
     else if v < 2 ^ 21 then
       [ucast (v OR B), ucast (drop_bit 7 v OR B), ucast (drop_bit 14 v)]
     else if v < 2 ^ 28 then
       [ucast (v OR B), ucast (drop_bit 7 v OR B), ucast (drop_bit 14 v OR B),
        ucast (drop_bit 21 v)]
     else
       [ucast (v OR B), ucast (drop_bit 7 v OR B), ucast (drop_bit 14 v OR B),
        ucast (drop_bit 21 v OR B), ucast (drop_bit 28 v)])"

definition varint_encode32 :: "buffer \<Rightarrow> nat \<Rightarrow> u32 \<Rightarrow> (buffer \<times> nat) c_result" where
  "varint_encode32 buf sptr v =
     cbind (store_bytes buf sptr (varint_bytes v)) (\<lambda>buf'.
       Inr (buf', sptr + length (varint_bytes v)))"

text \<open>
  \<^verbatim>\<open>snappy_uncompressed_length\<close>: \<^verbatim>\<open>Some v\<close> is the return value true with \<open>v\<close> in \<^verbatim>\<open>*result\<close>.
\<close>

definition snappy_uncompressed_length :: "buffer \<Rightarrow> nat \<Rightarrow> nat \<Rightarrow> nat option c_result" where
  "snappy_uncompressed_length buf start n =
     cbind (varint_parse32_with_limit buf start (start + n)) (\<lambda>r.
       case r of Some (v, _) \<Rightarrow> Inr (Some (unat v)) | None \<Rightarrow> Inr None)"

section \<open>Size of an encoding\<close>

lemma length_varint_bytes: "1 \<le> length (varint_bytes v) \<and> length (varint_bytes v) \<le> kmax32"
  by (simp add: varint_bytes_def kmax32_def Let_def)

lemma varint_bytes_nonempty [simp]: "varint_bytes v \<noteq> []"
  by (simp add: varint_bytes_def Let_def)

section \<open>Round trip\<close>

text \<open>A continuation byte has its top bit set; a final byte of a small value has not.\<close>

lemma and_127: "(x :: 'a::len word) AND 127 = take_bit 7 x"
  by (simp add: take_bit_eq_mask mask_eq_exp_minus_1)

lemma word_less_exp_bit: "(v :: 'a::len word) < 2 ^ k \<Longrightarrow> bit v n \<Longrightarrow> n < k"
  using less_mask_eq [of v k] by (metis bit_and_iff bit_mask_iff)

lemma bit_128: "7 < LENGTH('a::len) \<Longrightarrow> bit (128 :: 'a word) n \<longleftrightarrow> n = 7"
proof -
  assume "7 < LENGTH('a)"
  moreover have "(128 :: 'a word) = 2 ^ 7" by simp
  ultimately show ?thesis by (simp only: bit_exp_iff) (auto simp: bit_simps)
qed

lemma ucast_cont_byte_ge: "\<not> (ucast (ucast (x OR 128 :: u32) :: u8) :: u32) < 128"
proof
  assume "(ucast (ucast (x OR 128 :: u32) :: u8) :: u32) < 128"
  moreover have "bit (ucast (ucast (x OR 128 :: u32) :: u8) :: u32) 7"
    by (simp add: bit_simps bit_128)
  ultimately show False
    using word_less_exp_bit [of "ucast (ucast (x OR 128 :: u32) :: u8) :: u32" 7 7] by simp
qed

lemma ucast_cont_byte_take:
  "take_bit 7 (ucast (ucast (x OR 128 :: u32) :: u8) :: u32) = take_bit 7 x"
proof (rule bit_word_eqI)
  fix n show "bit (take_bit 7 (ucast (ucast (x OR 128 :: u32) :: u8) :: u32)) n = bit (take_bit 7 x) n"
    using bit_128 [where 'a = 32, of n]
    by (auto simp: bit_take_bit_iff bit_unsigned_iff bit_or_iff simp del: unsigned_or_eq)
qed

lemma ucast_last_byte:
  assumes "\<And>n. bit (v :: u32) n \<Longrightarrow> n < m" "m \<le> k + j" "j \<le> 8"
  shows "(ucast (ucast (drop_bit k v) :: u8) :: u32) = drop_bit k v \<and> drop_bit k v < 2 ^ j"
proof -
  have b: "n < j" if "bit (drop_bit k v) n" for n
    using assms(1) [of "k + n"] that assms(2) by (simp add: bit_simps)
  have "(ucast (ucast (drop_bit k v) :: u8) :: u32) = drop_bit k v"
    by (rule bit_word_eqI)
      (use b assms(3) in \<open>auto simp: bit_simps dest: bit_imp_le_length intro: less_le_trans\<close>)
  moreover have "take_bit j (drop_bit k v) = drop_bit k v"
    by (rule bit_word_eqI) (use b in \<open>auto simp: bit_take_bit_iff\<close>)
  then have "drop_bit k v < 2 ^ j"
    using and_mask_less' [of j "drop_bit k v"] assms(3) by (simp add: take_bit_eq_mask)
  ultimately show ?thesis ..
qed

lemma ucast_last_byte_less:
  assumes "v < (2 ^ m :: u32)" "m \<le> k + j" "j \<le> 8"
  shows "(ucast (ucast (drop_bit k v) :: u8) :: u32) = drop_bit k v \<and> drop_bit k v < 2 ^ j"
  using word_less_exp_bit [OF assms(1)] assms(2,3) by (rule ucast_last_byte)

lemma ucast_last_byte_28:
  "(ucast (ucast (drop_bit 28 v) :: u8) :: u32) = drop_bit 28 v \<and> drop_bit 28 v < (2 ^ 4 :: u32)"
proof (rule ucast_last_byte [where m = 32])
  show "n < 32" if "bit v n" for n
    using bit_imp_le_length [OF that] by simp
qed simp_all

text \<open>Putting a word together from its low bits and the rest.\<close>

lemma take_bit_or_push_bit:
  "take_bit k v OR push_bit k (take_bit j (drop_bit k v)) = take_bit (k + j) (v :: 'a::len word)"
  by (rule bit_word_eqI) (auto simp: bit_simps)

lemma take_bit_7_less: "(v :: u32) < 128 \<Longrightarrow> take_bit 7 v = v"
  using less_mask_eq [of v 7] by (simp add: take_bit_eq_mask)

lemma take_bit_or_push_bit_rest:
  "take_bit k v OR push_bit k (drop_bit k v) = (v :: 'a::len word)"
  by (rule bit_word_eqI) (auto simp: bit_simps, metis le_add_diff_inverse not_less)

lemmas varint_join = take_bit_or_push_bit [of 7 _ 7, simplified] take_bit_or_push_bit [of 14 _ 7, simplified]
  take_bit_or_push_bit [of 21 _ 7, simplified] take_bit_or_push_bit_rest

lemmas varint_byte_simps = and_127 take_bit_7_less ucast_cont_byte_ge ucast_cont_byte_take varint_join

lemma varint_parse_bytes:
  assumes "b = pre @ varint_bytes v @ post"
      and "length pre + length (varint_bytes v) \<le> limit"
  shows "varint_parse32_with_limit b (length pre) limit =
           Inr (Some (v, length pre + length (varint_bytes v)))"
proof -
  consider "v < 2 ^ 7" | "\<not> v < 2 ^ 7" "v < 2 ^ 14" | "\<not> v < 2 ^ 7" "\<not> v < 2 ^ 14" "v < 2 ^ 21"
    | "\<not> v < 2 ^ 7" "\<not> v < 2 ^ 14" "\<not> v < 2 ^ 21" "v < 2 ^ 28"
    | "\<not> v < 2 ^ 7" "\<not> v < 2 ^ 14" "\<not> v < 2 ^ 21" "\<not> v < 2 ^ 28" by blast
  then show ?thesis
  proof cases
    case 1
    with ucast_last_byte_less [of v 7 0 7] show ?thesis using assms
      by (simp add: varint_parse32_with_limit_def load8_def varint_bytes_def Let_def
          nth_append varint_byte_simps)
  next
    case 2
    with ucast_last_byte_less [of v 14 7 7] show ?thesis using assms
      by (simp add: varint_parse32_with_limit_def load8_def varint_bytes_def Let_def
          nth_append varint_byte_simps)
  next
    case 3
    with ucast_last_byte_less [of v 21 14 7] show ?thesis using assms
      by (simp add: varint_parse32_with_limit_def load8_def varint_bytes_def Let_def
          nth_append varint_byte_simps)
  next
    case 4
    with ucast_last_byte_less [of v 28 21 7] show ?thesis using assms
      by (simp add: varint_parse32_with_limit_def load8_def varint_bytes_def Let_def
          nth_append varint_byte_simps)
  next
    case 5
    have "drop_bit 28 v < (2 ^ 7 :: u32)"
      using ucast_last_byte_28 [of v] by (elim conjE less_trans) simp
    with ucast_last_byte_28 [of v] show ?thesis using assms 5
      by (simp add: varint_parse32_with_limit_def load8_def varint_bytes_def Let_def
          nth_append varint_byte_simps)
  qed
qed

section \<open>Properties of the varint codec\<close>

text \<open>
  C31. Varint round trip: \<^verbatim>\<open>varint_encode32\<close> into a buffer with five spare bytes succeeds, and
  \<^verbatim>\<open>varint_parse32_with_limit\<close> on the bytes written returns the encoded value and the end of
  the encoding, for every 32-bit value.
\<close>

theorem varint_roundtrip:
  assumes "p + kmax32 \<le> length buf"
  shows "\<exists>buf' q. varint_encode32 buf p v = Inr (buf', q) \<and> p < q \<and> q \<le> p + kmax32
           \<and> length buf' = length buf
           \<and> varint_parse32_with_limit buf' p q = Inr (Some (v, q))"
proof -
  let ?bs = "varint_bytes v"
  let ?b = "take p buf @ ?bs @ drop (p + length ?bs) buf"
  have fits: "p + length ?bs \<le> length buf"
    using assms length_varint_bytes [of v] by linarith
  then have enc: "varint_encode32 buf p v = Inr (?b, p + length ?bs)"
    by (simp add: varint_encode32_def mem_simps)
  have "varint_parse32_with_limit ?b (length (take p buf)) (p + length ?bs) =
          Inr (Some (v, length (take p buf) + length ?bs))"
    using fits by (intro varint_parse_bytes [OF refl]) simp
  then show ?thesis
    using enc fits length_varint_bytes [of v] by simp
qed

theorem varint_roundtrip_witness:
  "\<exists>buf' q. varint_encode32 (replicate 5 0) 0 300 = Inr (buf', q) \<and> 0 < q \<and> q \<le> 0 + kmax32
     \<and> length buf' = length (replicate 5 (0 :: u8))
     \<and> varint_parse32_with_limit buf' 0 q = Inr (Some (300, q))"
  by (rule varint_roundtrip) (simp add: kmax32_def)

end
