(* ===== verification/Snappy_Compress.thy ===== *)
theory Snappy_Compress
  imports Snappy_Match Snappy_Source Snappy_Sink Snappy_Varint
begin

text \<open>
  The compressor of \<^verbatim>\<open>snappy.c\<close>: the environment with its hash table, \<^verbatim>\<open>get_hash_table\<close>,
  \<^verbatim>\<open>compress_fragment\<close> with its three nested loops, \<^verbatim>\<open>compress\<close> and \<^verbatim>\<open>snappy_compress\<close>. Positions are offsets
  from the start of the fragment (\<^verbatim>\<open>baseip\<close> is \<open>0\<close>); every load, store and table access is checked
  against the object it is made in. The loops get an iteration budget; it is
  proved to be enough.
\<close>

section \<open>Environment\<close>

definition kblock_size :: nat where "kblock_size = 65536"
definition kmax_hash_table_size :: nat where "kmax_hash_table_size = 16384"

text \<open>\<^verbatim>\<open>None\<close> is a null pointer.\<close>

record snappy_env =
  hash_table :: "u16 list option"
  env_scratch :: "buffer option"
  scratch_output :: "buffer option"

definition clear_env :: "snappy_env \<Rightarrow> snappy_env" where
  "clear_env env = \<lparr>hash_table = None, env_scratch = None, scratch_output = None\<rparr>"

text \<open>
  \<open>mem\<close> is the outcome of \<^verbatim>\<open>vmalloc\<close>: \<^verbatim>\<open>None\<close> when it fails, else the uninitialised table.
\<close>

definition snappy_init_env :: "u16 list option \<Rightarrow> snappy_env \<Rightarrow> int \<times> snappy_env" where
  "snappy_init_env mem env =
     (let env = (clear_env env)\<lparr>hash_table := mem\<rparr> in
      if hash_table env = None then (- ENOMEM, env) else (0, env))"

definition snappy_free_env :: "snappy_env \<Rightarrow> snappy_env" where
  "snappy_free_env env = clear_env env"

definition snappy_init_env_sg ::
    "u16 list option \<Rightarrow> buffer option \<Rightarrow> buffer option \<Rightarrow> snappy_env \<Rightarrow> bool \<Rightarrow> int \<times> snappy_env" where
  "snappy_init_env_sg mem mem1 mem2 env sg =
     (case snappy_init_env mem env of (r, env) \<Rightarrow>
      if r < 0 then (- ENOMEM, snappy_free_env env)
      else if sg then
        (let env = env\<lparr>env_scratch := mem1\<rparr> in
         if env_scratch env = None then (- ENOMEM, snappy_free_env env)
         else
           let env = env\<lparr>scratch_output := mem2\<rparr> in
           if scratch_output env = None then (- ENOMEM, snappy_free_env env) else (0, env))
      else (0, env))"

text \<open>Checked access to the table.\<close>

definition table_get :: "u16 list \<Rightarrow> u32 \<Rightarrow> nat c_result" where
  "table_get t i = (if unat i < length t then Inr (unat (t ! unat i)) else Inl Invalid_access)"

definition table_set :: "u16 list \<Rightarrow> u32 \<Rightarrow> nat \<Rightarrow> u16 list c_result" where
  "table_set t i v = (if unat i < length t then Inr (t[unat i := word_of_nat v]) else Inl Invalid_access)"

text \<open>The loop \<^verbatim>\<open>while (htsize < kmax_hash_table_size && htsize < input_size)\<close>.\<close>

function grow_htsize :: "nat \<Rightarrow> nat \<Rightarrow> nat" where
  "grow_htsize htsize input_size =
     (if 0 < htsize \<and> htsize < kmax_hash_table_size \<and> htsize < input_size
      then grow_htsize (2 * htsize) input_size else htsize)"
  by pat_completeness auto
termination
  by (relation "measure (\<lambda>(h, n). n - h)") auto

declare grow_htsize.simps [simp del]

definition get_hash_table :: "snappy_env \<Rightarrow> nat \<Rightarrow> (u16 list \<times> nat) c_result" where
  "get_hash_table env input_size =
    (let htsize = grow_htsize 256 input_size in
     cbind (cassert (htsize AND (htsize - 1) = 0)) (\<lambda>_.
     cbind (cassert (htsize \<le> kmax_hash_table_size)) (\<lambda>_.
     case hash_table env of
       None \<Rightarrow> Inl Invalid_access
     | Some table \<Rightarrow>
         if htsize \<le> length table then Inr (replicate htsize 0 @ drop htsize table, htsize)
         else Inl Invalid_access)))"

section \<open>One fragment\<close>

text \<open>
  Step 1, the \<^verbatim>\<open>do ... while\<close> loop that scans for a four-byte match. \<^verbatim>\<open>None\<close> is \<^verbatim>\<open>goto emit_remainder\<close>;
  otherwise the position of the match and the candidate.
\<close>

fun scan ::
    "nat \<Rightarrow> buffer \<Rightarrow> nat \<Rightarrow> nat \<Rightarrow> u16 list \<Rightarrow> nat \<Rightarrow> u32 \<Rightarrow> u32 \<Rightarrow> ((nat \<times> nat) option \<times> u16 list) c_result" where
  "scan 0 input shift ip_limit table next_ip next_hash skip_bytes = Inl Nontermination"
| "scan (Suc fuel) input shift ip_limit table next_ip next_hash skip_bytes =
    (let ip = next_ip; hval = next_hash in
     cbind (hash input ip shift) (\<lambda>h.
     cbind (cassert (hval = h)) (\<lambda>_.
     let bytes_between_hash_lookups = drop_bit 5 skip_bytes;
         next_ip = ip + unat bytes_between_hash_lookups in
     if next_ip > ip_limit then Inr (None, table)
     else
       cbind (hash input next_ip shift) (\<lambda>next_hash.
       cbind (table_get table hval) (\<lambda>candidate.
       cbind (cassert (candidate < ip)) (\<lambda>_.
       cbind (table_set table hval ip) (\<lambda>table.
       cbind (UNALIGNED_LOAD32 input ip) (\<lambda>a.
       cbind (UNALIGNED_LOAD32 input candidate) (\<lambda>b.
         if a \<noteq> b then scan fuel input shift ip_limit table next_ip next_hash (skip_bytes + 1)
         else Inr (Some (ip, candidate), table))))))))))"

text \<open>
  Step 3, the loop that emits copies as long as the input right after the last one matches again. The
  result: \<^verbatim>\<open>None\<close> for \<^verbatim>\<open>goto emit_remainder\<close>, else the hash at \<open>ip + 1\<close>; then the output, the table and \<open>ip\<close>, which
  is also \<open>next_emit\<close>.
\<close>

fun copy_loop ::
    "nat \<Rightarrow> buffer \<Rightarrow> nat \<Rightarrow> nat \<Rightarrow> nat \<Rightarrow> buffer \<Rightarrow> nat \<Rightarrow> u16 list \<Rightarrow> nat \<Rightarrow> nat \<Rightarrow>
     (u32 option \<times> buffer \<times> nat \<times> u16 list \<times> nat) c_result" where
  "copy_loop 0 input shift ip_limit ip_end dst op table ip candidate = Inl Nontermination"
| "copy_loop (Suc fuel) input shift ip_limit ip_end dst op table ip candidate =
    (let base = ip in
     cbind (find_match_length input (candidate + 4) (ip + 4) ip_end) (\<lambda>m.
     let matched = 4 + m; ip = ip + matched; offset = base - candidate in
     cbind (load_bytes input base matched) (\<lambda>x.
     cbind (load_bytes input candidate matched) (\<lambda>y.
     cbind (cassert (x = y)) (\<lambda>_.
     cbind (emit_copy dst op offset matched) (\<lambda>(dst, op).
     let insert_tail = ip - 1 in
     if ip \<ge> ip_limit then Inr (None, dst, op, table, ip)
     else
       cbind (get_eight_bytes_at input insert_tail) (\<lambda>input_bytes.
       cbind (get_u32_at_offset input_bytes 0) (\<lambda>b0.
       cbind (table_set table (hash_bytes b0 shift) (ip - 1)) (\<lambda>table.
       cbind (get_u32_at_offset input_bytes 1) (\<lambda>b1.
       let cur_hash = hash_bytes b1 shift in
       cbind (table_get table cur_hash) (\<lambda>candidate.
       cbind (UNALIGNED_LOAD32 input candidate) (\<lambda>candidate_bytes.
       cbind (table_set table cur_hash ip) (\<lambda>table.
       if b1 = candidate_bytes then
         copy_loop fuel input shift ip_limit ip_end dst op table ip candidate
       else
         cbind (get_u32_at_offset input_bytes 2) (\<lambda>b2.
           Inr (Some (hash_bytes b2 shift), dst, op, table, ip)))))))))))))))"

text \<open>The \<^verbatim>\<open>for (next_hash = hash(++ip, shift);;)\<close> loop, up to \<^verbatim>\<open>emit_remainder\<close>: output and \<open>next_emit\<close> there.\<close>

fun main_loop ::
    "nat \<Rightarrow> buffer \<Rightarrow> nat \<Rightarrow> nat \<Rightarrow> nat \<Rightarrow> buffer \<Rightarrow> nat \<Rightarrow> u16 list \<Rightarrow> nat \<Rightarrow> nat \<Rightarrow> u32 \<Rightarrow>
     (buffer \<times> nat \<times> u16 list \<times> nat) c_result" where
  "main_loop 0 input shift ip_limit ip_end dst op table ip next_emit next_hash = Inl Nontermination"
| "main_loop (Suc fuel) input shift ip_limit ip_end dst op table ip next_emit next_hash =
     cbind (cassert (next_emit < ip)) (\<lambda>_.
     cbind (scan (Suc ip_end) input shift ip_limit table ip next_hash 32) (\<lambda>(found, table).
     case found of
       None \<Rightarrow> Inr (dst, op, table, next_emit)
     | Some (ip, candidate) \<Rightarrow>
         cbind (cassert (next_emit + 16 \<le> ip_end)) (\<lambda>_.
         cbind (emit_literal dst op input next_emit (ip - next_emit) True) (\<lambda>(dst, op).
         cbind (copy_loop (Suc ip_end) input shift ip_limit ip_end dst op table ip candidate)
           (\<lambda>(h, dst, op, table, ip).
         case h of
           None \<Rightarrow> Inr (dst, op, table, ip)
         | Some next_hash \<Rightarrow>
             main_loop fuel input shift ip_limit ip_end dst op table (ip + 1) ip next_hash)))))"

definition compress_fragment ::
    "buffer \<Rightarrow> nat \<Rightarrow> buffer \<Rightarrow> nat \<Rightarrow> u16 list \<Rightarrow> nat \<Rightarrow> (buffer \<times> nat \<times> u16 list) c_result" where
  "compress_fragment input input_size dst op table table_size =
     cbind (cassert (input_size \<le> kblock_size)) (\<lambda>_.
     cbind (cassert (table_size AND (table_size - 1) = 0)) (\<lambda>_.
     let shift = nat (32 - log2_floor (word_of_nat table_size)); ip_end = input_size in
     cbind (cassert (drop_bit shift (-1 :: u32) = word_of_nat table_size - 1)) (\<lambda>_.
     cbind (if input_size \<ge> 15 then
              cbind (hash input 1 shift) (\<lambda>next_hash.
                main_loop (Suc input_size) input shift (input_size - 15) ip_end dst op table 1 0 next_hash)
            else Inr (dst, op, table, 0)) (\<lambda>(dst, op, table, next_emit).
     cbind (if next_emit < ip_end then emit_literal dst op input next_emit (ip_end - next_emit) False
            else Inr (dst, op)) (\<lambda>(dst, op).
       Inr (dst, op, table))))))"

section \<open>The whole input\<close>

text \<open>
  The loop \<^verbatim>\<open>while (bytes_read < num_to_read)\<close> that gathers a block in \<^verbatim>\<open>env->scratch\<close>. A reader with nothing left
  makes an iteration that changes nothing.
\<close>

function gather ::
    "('s \<Rightarrow> buffer \<times> nat) \<Rightarrow> ('s \<Rightarrow> nat \<Rightarrow> 's c_result) \<Rightarrow> 's \<Rightarrow> buffer \<Rightarrow> nat \<Rightarrow> nat \<Rightarrow> (buffer \<times> 's) c_result" where
  "gather pk sk r scr bytes_read num_to_read =
     (if bytes_read < num_to_read then
        (case pk r of (fragment, fragment_size) \<Rightarrow>
          let n = min fragment_size (num_to_read - bytes_read) in
          if n = 0 then Inl Nontermination
          else
            cbind (load_bytes fragment 0 n) (\<lambda>bs.
            cbind (store_bytes scr bytes_read bs) (\<lambda>scr.
            cbind (sk r n) (\<lambda>r.
              gather pk sk r scr (bytes_read + n) num_to_read))))
      else Inr (scr, r))"
  by pat_completeness auto
termination
  by (relation "measure (\<lambda>(pk, sk, r, scr, b, n). n - b)") auto

declare gather.simps [simp del]

text \<open>
  The block to compress: its memory, the reader and \<^verbatim>\<open>pending_advance\<close>. Both branches set
  \<^verbatim>\<open>fragment_size\<close> to \<^verbatim>\<open>num_to_read\<close>, so the test \<^verbatim>\<open>fragment_size < num_to_read\<close> after them is never true.
\<close>

definition next_block ::
    "('s \<Rightarrow> buffer \<times> nat) \<Rightarrow> ('s \<Rightarrow> nat \<Rightarrow> 's c_result) \<Rightarrow> snappy_env \<Rightarrow> 's \<Rightarrow> buffer \<Rightarrow> nat \<Rightarrow> nat \<Rightarrow>
     (buffer \<times> snappy_env \<times> 's \<times> nat) c_result" where
  "next_block pk sk env r fragment bytes_read num_to_read =
     (if bytes_read \<ge> num_to_read then Inr (fragment, env, r, num_to_read)
      else
        case env_scratch env of
          None \<Rightarrow> Inl Invalid_access
        | Some scr \<Rightarrow>
            cbind (load_bytes fragment 0 bytes_read) (\<lambda>bs.
            cbind (store_bytes scr 0 bs) (\<lambda>scr.
            cbind (sk r bytes_read) (\<lambda>r.
            cbind (gather pk sk r scr bytes_read num_to_read) (\<lambda>(scr, r).
              Inr (scr, env\<lparr>env_scratch := Some scr\<rparr>, r, 0))))))"

text \<open>
  Compressing one block: into the memory of the sink when \<^verbatim>\<open>sink_peek\<close> finds room for it in one piece, else into
  \<^verbatim>\<open>env->scratch_output\<close> and from there to the sink.
\<close>

definition emit_block ::
    "('k \<Rightarrow> nat \<Rightarrow> (buffer \<times> nat) option) \<Rightarrow> ('k \<Rightarrow> sink_data \<Rightarrow> nat \<Rightarrow> 'k c_result) \<Rightarrow> snappy_env \<Rightarrow> 'k \<Rightarrow>
     buffer \<Rightarrow> nat \<Rightarrow> (snappy_env \<times> 'k) c_result" where
  "emit_block sp ap env w fragment num_to_read =
     cbind (get_hash_table env num_to_read) (\<lambda>(table, table_size).
     case sp w (snappy_max_compressed_length num_to_read) of
       Some (mem, dst) \<Rightarrow>
         cbind (compress_fragment fragment num_to_read mem dst table table_size) (\<lambda>(mem, endp, table).
         cbind (ap w (In_place mem) (endp - dst)) (\<lambda>w.
           Inr (env\<lparr>hash_table := Some table\<rparr>, w)))
     | None \<Rightarrow>
         (case scratch_output env of
            None \<Rightarrow> Inl Invalid_access
          | Some out \<Rightarrow>
              cbind (compress_fragment fragment num_to_read out 0 table table_size) (\<lambda>(out, endp, table).
              cbind (ap w (From out) endp) (\<lambda>w.
                Inr (env\<lparr>hash_table := Some table, scratch_output := Some out\<rparr>, w)))))"

function compress_blocks ::
    "('s \<Rightarrow> buffer \<times> nat) \<Rightarrow> ('s \<Rightarrow> nat \<Rightarrow> 's c_result) \<Rightarrow> ('k \<Rightarrow> nat \<Rightarrow> (buffer \<times> nat) option) \<Rightarrow>
     ('k \<Rightarrow> sink_data \<Rightarrow> nat \<Rightarrow> 'k c_result) \<Rightarrow> snappy_env \<Rightarrow> 's \<Rightarrow> 'k \<Rightarrow> int \<Rightarrow>
     (int \<times> snappy_env \<times> 's \<times> 'k) c_result" where
  "compress_blocks pk sk sp ap env r w N =
     (if N > 0 then
        (case pk r of (fragment, fragment_size) \<Rightarrow>
          if fragment_size = 0 then Inr (- EIO, env, r, w)
          else
            let num_to_read = nat (min N (int kblock_size)) in
            cbind (next_block pk sk env r fragment fragment_size num_to_read) (\<lambda>(fragment, env, r, pending_advance).
            cbind (emit_block sp ap env w fragment num_to_read) (\<lambda>(env, w).
            cbind (sk r pending_advance) (\<lambda>r.
              compress_blocks pk sk sp ap env r w (N - int num_to_read)))))
      else Inr (0, env, r, w))"
  by pat_completeness auto
termination
  by (relation "measure (\<lambda>(pk, sk, sp, ap, env, r, w, N). nat N)") (auto simp: kblock_size_def)

declare compress_blocks.simps [simp del]

definition compress ::
    "('s \<Rightarrow> int) \<Rightarrow> ('s \<Rightarrow> buffer \<times> nat) \<Rightarrow> ('s \<Rightarrow> nat \<Rightarrow> 's c_result) \<Rightarrow> ('k \<Rightarrow> nat \<Rightarrow> (buffer \<times> nat) option) \<Rightarrow>
     ('k \<Rightarrow> sink_data \<Rightarrow> nat \<Rightarrow> 'k c_result) \<Rightarrow> snappy_env \<Rightarrow> 's \<Rightarrow> 'k \<Rightarrow>
     (int \<times> snappy_env \<times> 's \<times> 'k) c_result" where
  "compress av pk sk sp ap env r w =
    (let N = av r in
     cbind (varint_encode32 (replicate kmax32 0) 0 (word_of_int N)) (\<lambda>(ulength, p).
     cbind (ap w (From ulength) p) (\<lambda>w.
       compress_blocks pk sk sp ap env r w N)))"

text \<open>
  \<^verbatim>\<open>snappy_compress\<close> of the build without \<^verbatim>\<open>SG\<close>: return value, environment, output buffer and
  \<^verbatim>\<open>*compressed_length\<close>.
\<close>

definition snappy_compress ::
    "snappy_env \<Rightarrow> buffer \<Rightarrow> nat \<Rightarrow> buffer \<Rightarrow> (int \<times> snappy_env \<times> buffer \<times> nat) c_result" where
  "snappy_compress env input input_length compressed =
    (let r = \<lparr>smem = input, ptr = 0, left = input_length\<rparr>;
         w = \<lparr>sink_mem = compressed, dest = 0\<rparr> in
     cbind (compress available Snappy_Source.peek Snappy_Source.skip sink_peek append_sink env r w) (\<lambda>(err, env, r, w).
       Inr (err, env, sink_mem w, dest w)))"

end
