(* ===== verification/Snappy_Reference.thy ===== *)
theory Snappy_Reference
  imports Snappy_Compress
begin

text \<open>
  What the compressor is to write, as a function of its input alone: the greedy search for repeated four-byte sequences through a
  table of last positions, on lists, with no memory, no pointers and no buffers. The compressor is shown elsewhere to write exactly this stream,
  whatever its buffers hold, wherever its output begins and however its input and its output are cut into pieces.
\<close>

section \<open>One fragment\<close>

abbreviation hash_at :: "buffer \<Rightarrow> nat \<Rightarrow> nat \<Rightarrow> u32" where
  "hash_at input ip shift \<equiv> hash_bytes (le_word (take 4 (drop ip input))) shift"

text \<open>The position last seen for each hash value.\<close>

type_synonym positions = "u32 \<Rightarrow> nat"

text \<open>
  The next position from \<open>ip\<close> on whose four bytes are those at the last position with the same hash. The step
  grows by one for every 32 bytes looked at.
\<close>

function seek_match :: "buffer \<Rightarrow> nat \<Rightarrow> positions \<Rightarrow> nat \<Rightarrow> nat \<Rightarrow> (nat \<times> nat) option \<times> positions" where
  "seek_match xs shift p ip looked =
    (let next_ip = ip + looked div 32; h = hash_at xs ip shift in
     if next_ip > length xs - 15 \<or> looked < 32 then (None, p)
     else if take 4 (drop ip xs) = take 4 (drop (p h) xs) then (Some (ip, p h), p(h := ip))
     else seek_match xs shift (p(h := ip)) next_ip (looked + 1))"
  by pat_completeness auto
termination
  by (relation "measure (\<lambda>(xs, shift, p, ip, looked). length xs - ip)") auto

declare seek_match.simps [simp del]

text \<open>One step, with names for what it computes.\<close>

lemma seek_match_step:
  assumes "h = hash_at xs ip shift" "c = p h"
  shows "seek_match xs shift p ip looked =
    (if ip + looked div 32 > length xs - 15 \<or> looked < 32 then (None, p)
     else if take 4 (drop ip xs) = take 4 (drop c xs) then (Some (ip, c), p(h := ip))
     else seek_match xs shift (p(h := ip)) (ip + looked div 32) (looked + 1))"
  unfolding assms by (subst seek_match.simps) (simp only: Let_def)

text \<open>
  The copies from a match on, as long as the input right behind the last one matches again. The flag says whether the
  search goes on.
\<close>

function copy_run :: "buffer \<Rightarrow> nat \<Rightarrow> positions \<Rightarrow> nat \<Rightarrow> nat \<Rightarrow> bool \<times> element list \<times> positions \<times> nat" where
  "copy_run xs shift p ip cand =
    (let n = 4 + match_len xs (cand + 4) (ip + 4) (length xs); es = copies (ip - cand) n in
     if ip + n \<ge> length xs - 15 then (False, es, p, ip + n)
     else
       let p = p(hash_at xs (ip + n - 1) shift := ip + n - 1); h = hash_at xs (ip + n) shift in
       if take 4 (drop (ip + n) xs) = take 4 (drop (p h) xs) then
         (case copy_run xs shift (p(h := ip + n)) (ip + n) (p h) of (b, es', p, ip) \<Rightarrow> (b, es @ es', p, ip))
       else (True, es, p(h := ip + n), ip + n))"
  by pat_completeness auto
termination
  by (relation "measure (\<lambda>(xs, shift, p, ip, cand). length xs - ip)") auto

declare copy_run.simps [simp del]

lemma seek_match_ge: "seek_match xs shift p ip looked = (Some (ip', c), p') \<Longrightarrow> ip \<le> ip' \<and> ip' < length xs"
proof (induction xs shift p ip looked rule: seek_match.induct)
  case (1 xs shift p ip looked)
  then show ?case
    using "1.IH" [OF refl refl] "1.prems" unfolding seek_match_step [OF refl refl, of xs shift p ip looked]
    by (fastforce split: if_splits)
qed

lemma copy_run_step:
  assumes "n = 4 + match_len xs (cand + 4) (ip + 4) (length xs)" "p1 = p(hash_at xs (ip + n - 1) shift := ip + n - 1)"
    "h = hash_at xs (ip + n) shift" "c = p1 h"
  shows "copy_run xs shift p ip cand =
    (if ip + n \<ge> length xs - 15 then (False, copies (ip - cand) n, p, ip + n)
     else if take 4 (drop (ip + n) xs) = take 4 (drop c xs) then
       (case copy_run xs shift (p1(h := ip + n)) (ip + n) c of (b, es, p, ip') \<Rightarrow> (b, copies (ip - cand) n @ es, p, ip'))
     else (True, copies (ip - cand) n, p1(h := ip + n), ip + n))"
  unfolding assms by (subst copy_run.simps) (simp only: Let_def)

lemma copy_run_gt: "copy_run xs shift p ip cand = (b, es, p', ip') \<Longrightarrow> ip < ip'"
proof (induction "length xs - ip" arbitrary: p ip cand b es p' ip' rule: less_induct)
  case less
  define n where "n = 4 + match_len xs (cand + 4) (ip + 4) (length xs)"
  have "ip + n < length xs - 15 \<Longrightarrow> length xs - (ip + n) < length xs - ip" by (simp add: n_def)
  then show ?case
    using less.prems less.hyps [of "ip + n"] unfolding copy_run_step [OF n_def refl refl refl]
    by (fastforce simp: n_def split: if_splits prod.splits)
qed

text \<open>The elements from \<open>ip\<close> on, when everything before \<open>ne\<close> has been written, and the position behind the last copy.\<close>

function parse_from :: "buffer \<Rightarrow> nat \<Rightarrow> positions \<Rightarrow> nat \<Rightarrow> nat \<Rightarrow> element list \<times> nat" where
  "parse_from xs shift p ip ne =
     (case seek_match xs shift p ip 32 of
        (None, p) \<Rightarrow> ([], ne)
      | (Some (ip', cand), p) \<Rightarrow>
          (case copy_run xs shift p ip' cand of (b, es, p, ip2) \<Rightarrow>
             let es = Literal (take (ip' - ne) (drop ne xs)) # es in
             if b then case parse_from xs shift p (ip2 + 1) ip2 of (es', ne) \<Rightarrow> (es @ es', ne)
             else (es, ip2)))"
  by pat_completeness auto
termination
proof (relation "measure (\<lambda>(xs, shift, p, ip, ne). length xs - ip)", simp, clarsimp)
  fix xs shift p ip ip' cand p1 es p2 ip2
  assume "(Some (ip', cand), p1) = seek_match xs shift p ip 32" "(True, es, p2, ip2) = copy_run xs shift p1 ip' cand"
  then have "ip \<le> ip'" "ip' < length xs" "ip' < ip2"
    using seek_match_ge [of xs shift p ip 32 ip' cand p1] copy_run_gt [of xs shift p1 ip' cand True es p2 ip2] by simp_all
  then show "length xs - Suc ip2 < length xs - ip" by simp
qed

declare parse_from.simps [simp del]

text \<open>The number of bits by which a hash is shifted, for a table as large as the fragment needs.\<close>

definition hash_shift :: "nat \<Rightarrow> nat" where
  "hash_shift n = nat (32 - log2_floor (word_of_nat (grow_htsize 256 n)))"

definition fragment_elements :: "buffer \<Rightarrow> element list" where
  "fragment_elements xs =
    (case if length xs \<ge> 15 then parse_from xs (hash_shift (length xs)) (\<lambda>h. 0) 1 0 else ([], 0) of (es, ne) \<Rightarrow>
       es @ (if ne < length xs then [Literal (drop ne xs)] else []))"

section \<open>The whole input\<close>

text \<open>The input is cut into blocks, and every block is searched on its own.\<close>

function stream_elements :: "buffer \<Rightarrow> element list" where
  "stream_elements xs =
     (if xs = [] then [] else fragment_elements (take kblock_size xs) @ stream_elements (drop kblock_size xs))"
  by pat_completeness auto
termination
  by (relation "measure length") (auto simp: kblock_size_def)

declare stream_elements.simps [simp del]

definition snappy_stream :: "buffer \<Rightarrow> buffer" where
  "snappy_stream xs = varint_bytes (word_of_nat (length xs)) @ encode_all (stream_elements xs)"

end
