(* ===== verification/Snappy_Compress_Correct.thy ===== *)
theory Snappy_Compress_Correct
  imports Snappy_Reference
begin

text \<open>
  Correctness of the compressor, up to the stream of elements it writes: \<^verbatim>\<open>compress_fragment\<close> keeps its
  assertions, stays inside the input, the output and the hash table, ends, and writes well-formed
  elements that expand to the fragment; \<^verbatim>\<open>compress\<close> does so block by block for every byte source and every byte sink. The output is
  bounded block by block, so that \<^verbatim>\<open>snappy_max_compressed_length\<close> bytes are enough for the whole.
\<close>

section \<open>Progress through a fragment\<close>

text \<open>
  \<open>progress input dst0 op0 e es dst op next\<close>: since the start of the fragment at \<open>op0\<close> the well-formed
  elements \<open>es\<close> have been written, which expand to the first \<open>next\<close> bytes of the input, and the output
  has not outgrown the input by more than a sixtieth and \<open>e\<close> sixtieths of a byte.
\<close>

definition progress :: "buffer \<Rightarrow> buffer \<Rightarrow> nat \<Rightarrow> nat \<Rightarrow> element list \<Rightarrow> buffer \<Rightarrow> nat \<Rightarrow> nat \<Rightarrow> bool" where
  "progress input dst0 op0 e es dst op next \<longleftrightarrow>
     emits dst0 op0 (encode_all es) dst op \<and> well_formed 0 es \<and>
       expand_all es [] = take next input \<and> 60 * (op - op0) \<le> 61 * next + e"

definition block_bound :: "nat \<Rightarrow> nat" where
  "block_bound s = s + s div 60 + 1"

lemma block_boundI: "60 * n \<le> 61 * s + 60 \<Longrightarrow> n \<le> block_bound s"
  by (simp add: block_bound_def)

lemma progress_start: "op \<le> length dst \<Longrightarrow> progress input dst op 0 [] dst op 0"
  by (simp add: progress_def emits_Nil)

lemma progress_length: "progress input dst0 op0 e es dst op next \<Longrightarrow> length dst = length dst0 \<and> op0 \<le> op \<and> op \<le> length dst"
  by (auto simp: progress_def emits_def)

lemma progress_mono: "progress input dst0 op0 e es dst op next \<Longrightarrow> e \<le> e' \<Longrightarrow> progress input dst0 op0 e' es dst op next"
  unfolding progress_def by auto

lemma length_literal_header:
  assumes "0 < n" "n \<le> 65536"
  shows "length (literal_header n) \<le> 1 + n div 60" "n \<le> 60 \<Longrightarrow> length (literal_header n) = 1"
proof -
  show "n \<le> 60 \<Longrightarrow> length (literal_header n) = 1" using assms by (auto simp: literal_header_def Let_def)
  consider "n \<le> 60" | "60 < n" "n \<le> 256" | "256 < n" by linarith
  then show "length (literal_header n) \<le> 1 + n div 60"
  proof cases
    case 1
    then show ?thesis using assms by (auto simp: literal_header_def Let_def)
  next
    case 2
    then have "length (nat_bytes (n - 1)) \<le> 1" by (intro length_nat_bytes_le) simp
    moreover have "1 \<le> n div 60" using 2 by simp
    ultimately show ?thesis using 2 by (simp add: literal_header_def Let_def)
  next
    case 3
    then have "length (nat_bytes (n - 1)) \<le> 2" using assms by (intro length_nat_bytes_le) simp
    moreover have "2 \<le> n div 60" using 3 by simp
    ultimately show ?thesis using 3 by (simp add: literal_header_def Let_def)
  qed
qed

text \<open>A literal takes its own bytes and a header; what it adds to the output is at most a sixtieth more.\<close>

lemma progress_literal:
  assumes pr: "progress input dst0 op0 0 es dst op next" and lt: "next < ip" "ip \<le> length input" "ip \<le> 65536"
    and room: "op0 + block_bound sz \<le> length dst0" "ip \<le> sz"
    and fast: "fast \<longrightarrow> next + 16 \<le> sz" and szl: "sz \<le> length input"
  shows "\<exists>dst' op'. emit_literal dst op input next (ip - next) fast = Inr (dst', op')
           \<and> progress input dst0 op0 60 (es @ [Literal (take (ip - next) (drop next input))]) dst' op' ip"
proof -
  let ?n = "ip - next" and ?bs = "take (ip - next) (drop next input)"
  have es: "emits dst0 op0 (encode_all es) dst op" "well_formed 0 es" "expand_all es [] = take next input"
      "60 * (op - op0) \<le> 61 * next"
    using pr by (simp_all add: progress_def)
  note hl = length_literal_header [of ?n]
  have n: "0 < ?n" "?n \<le> 65536" using lt by auto
  have h60: "60 * length (literal_header ?n) \<le> 60 + ?n" 
    using hl(1) [OF n] div_times_less_eq_dividend [of ?n 60] by linarith
  have op0: "op0 \<le> op" using progress_length [OF pr] by simp
  have "op - op0 + literal_room ?n fast \<le> block_bound sz"
  proof (cases "fast \<and> ?n \<le> 16")
    case True
    then have "literal_room ?n fast = 17" using hl(2) [OF n] by (simp add: literal_room_def)
    then show ?thesis using es(4) True fast by (intro block_boundI) auto
  next
    case False
    then have "literal_room ?n fast = length (literal_header ?n) + ?n" by (auto simp: literal_room_def)
    then show ?thesis using es(4) h60 room(2) lt(1) by (intro block_boundI) auto
  qed
  then have "op + literal_room ?n fast \<le> length dst"
    using room(1) op0 progress_length [OF pr] by linarith
  moreover have "fast \<longrightarrow> ?n \<le> 16 \<longrightarrow> next + 16 \<le> length input" using fast szl by auto
  ultimately obtain dst' op' where lit: "emit_literal dst op input next ?n fast = Inr (dst', op')"
      "emits dst op (encode_element (Literal ?bs)) dst' op'"
    using emit_literal_emits [of ?n "next" input op fast dst] n lt by auto
  have len: "length ?bs = ?n" using lt by auto
  have "op' = op + (length (literal_header ?n) + ?n)" using emitsD(1) [OF lit(2)] len by simp
  then have siz: "60 * (op' - op0) \<le> 61 * ip + 60" using es(4) h60 lt(1) op0 by auto
  have "expand_all (es @ [Literal ?bs]) [] = take ip input"
    using es(3) take_drop_append_middle [of "next" ip input] lt by simp
  moreover have "well_formed 0 (es @ [Literal ?bs])" using es(2) n len by simp
  moreover have "emits dst0 op0 (encode_all (es @ [Literal ?bs])) dst' op'"
    using emits_trans [OF es(1) lit(2)] by simp
  ultimately show ?thesis using lit(1) siz unfolding progress_def by blast
qed

text \<open>A match pays for the header of the literal before it.\<close>

lemma progress_copy:
  assumes pr: "progress input dst0 op0 60 es dst op ip" and len: "4 \<le> n" "ip + n \<le> sz" "sz \<le> length input" "sz \<le> 65536"
    and cand: "cand < ip" "take n (drop cand input) = take n (drop ip input)"
    and room: "op0 + block_bound sz \<le> length dst0"
  shows "\<exists>dst' op'. emit_copy dst op (ip - cand) n = Inr (dst', op') \<and> progress input dst0 op0 0 (es @ copies (ip - cand) n) dst' op' (ip + n)"
proof -
  have es: "emits dst0 op0 (encode_all es) dst op" "well_formed 0 es" "expand_all es [] = take ip input"
      "60 * (op - op0) \<le> 61 * ip + 60"
    using pr by (simp_all add: progress_def)
  let ?off = "ip - cand" and ?cs = "copies (ip - cand) n"
  have off: "?off < 65536" "0 < ?off" using len cand(1) by linarith+
  have op0: "op0 \<le> op" using progress_length [OF pr] by simp
  note short = length_copy_chunks [OF len(1)]
  have fit: "60 * (op - op0 + 3 * length (copy_chunks n)) \<le> 61 * (ip + n)" using es(4) short by auto
  then have "op - op0 + 3 * length (copy_chunks n) \<le> block_bound sz" using len(2) by (intro block_boundI) auto
  then have "op + 3 * length (copy_chunks n) \<le> length dst" using op0 room progress_length [OF pr] by linarith
  then obtain dst' op' where cp: "emit_copy dst op ?off n = Inr (dst', op')" "emits dst op (encode_all ?cs) dst' op'"
    using emit_copy_emits [OF len(1) off(2,1)] by blast
  have "op' \<le> op + 3 * length (copy_chunks n)"
    using emitsD(1) [OF cp(2)] length_encode_copies [of ?off n] by simp
  then have "60 * (op' - op0) \<le> 61 * (ip + n) + 0" using fit op0 by auto
  moreover have elen: "expanded_len es = ip" using es(3) length_expand_all [of es "[]"] len by simp
  have "well_formed 0 (es @ ?cs)"
    using es(2) well_formed_copies [OF len(1) off(2,1), of ip] by (simp add: elen)
  moreover have "input ! (ip - ?off + k) = input ! (ip + k)" if "k < n" for k
  proof -
    have "take n (drop cand input) ! k = take n (drop ip input) ! k" by (simp only: cand(2))
    then show ?thesis using that cand(1) len by simp
  qed
  then have "self_copy ?off n (take ip input) = take (ip + n) input"
    using cand(1) len by (intro self_copy_match) auto
  then have "expand_all (es @ ?cs) [] = take (ip + n) input"
    by (simp add: expand_copies es(3))
  moreover have "emits dst0 op0 (encode_all (es @ ?cs)) dst' op'"
    using emits_trans [OF es(1) cp(2)] by simp
  ultimately show ?thesis using cp(1) unfolding progress_def by blast
qed

section \<open>The hash table\<close>

text \<open>The first \<open>n\<close> entries are the positions \<open>p\<close>, all before \<open>ip\<close>.\<close>

definition table_inv :: "u16 list \<Rightarrow> nat \<Rightarrow> nat \<Rightarrow> positions \<Rightarrow> bool" where
  "table_inv t n ip p \<longleftrightarrow> n \<le> length t \<and> (\<forall>h. unat h < n \<longrightarrow> unat (t ! unat h) = p h \<and> p h < ip)"

lemma table_inv_mono: "table_inv t n ip p \<Longrightarrow> ip \<le> ip' \<Longrightarrow> table_inv t n ip' p"
  by (auto simp: table_inv_def intro: less_le_trans)

lemma table_get_ok:
  "table_inv t n ip p \<Longrightarrow> unat h < n \<Longrightarrow> table_get t h = Inr (p h) \<and> p h < ip"
  by (auto simp: table_inv_def table_get_def)

lemma table_set_ok:
  assumes "table_inv t n ip p" "unat h < n" "v < ip'" "ip \<le> ip'" "v < 65536"
  shows "\<exists>t'. table_set t h v = Inr t' \<and> table_inv t' n ip' (p(h := v)) \<and> length t' = length t"
proof -
  have "unat (word_of_nat v :: u16) = v" using assms(5) by (simp add: unat_of_nat take_bit_nat_eq_self_iff)
  then show ?thesis
    using assms by (auto simp: table_inv_def table_set_def nth_list_update word_unat_eq_iff intro: less_le_trans)
qed

section \<open>The loops\<close>

text \<open>The fragment is the first \<open>len\<close> bytes of the input; the loops read nothing behind them.\<close>

lemma fragment_four: "i + 4 \<le> len \<Longrightarrow> take 4 (drop i (take len input)) = take 4 (drop i input)"
  by (simp add: drop_take min_def)

lemma common_prefix_take: "length ys \<le> n \<Longrightarrow> common_prefix (take n xs) ys = common_prefix xs ys"
proof (induction xs ys arbitrary: n rule: common_prefix.induct)
  case (1 x xs y ys)
  then show ?case by (cases n) simp_all
qed (cases n; simp)+

lemma fragment_match_len:
  assumes "s1 \<le> s2"
  shows "match_len (take len input) s1 s2 len = match_len input s1 s2 len"
  using assms by (simp add: match_len_def drop_take common_prefix_take)

lemma scan_ok:
  assumes "ip + 14 \<le> len" "0 < ip" "len \<le> length input" "len \<le> 65536" "shift \<le> 32"
    "table_inv table (2 ^ (32 - shift)) ip p" "next_hash = hash_at input ip shift"
    "32 \<le> unat skip_bytes" "unat skip_bytes + fuel < 2 ^ 32" "len < ip + fuel"
  shows "\<exists>found t p'. scan fuel input shift (len - 15) table ip next_hash skip_bytes = Inr (found, t) \<and> length t = length table
       \<and> seek_match (take len input) shift p ip (unat skip_bytes) = (found, p')
       \<and> (case found of None \<Rightarrow> True
           | Some (ip', cand) \<Rightarrow> ip \<le> ip' \<and> ip' + 16 \<le> len \<and> cand < ip' \<and> take 4 (drop cand input) = take 4 (drop ip' input)
               \<and> table_inv t (2 ^ (32 - shift)) (Suc ip') p')"
  using assms
proof (induction fuel arbitrary: table ip p next_hash skip_bytes)
  case (Suc fuel)
  define step where "step = unat (drop_bit 5 skip_bytes)"
  have stp: "step = unat skip_bytes div 32" by (simp add: step_def drop_bit_eq_div unat_div)
  then have step: "1 \<le> step" using Suc.prems(8) by simp
  have h1: "hash input ip shift = Inr next_hash" using Suc.prems by (simp add: mem_simps)
  let ?xs = "take len input"
  have xs: "length ?xs = len" "\<And>i. i + 4 \<le> len \<Longrightarrow> take 4 (drop i ?xs) = take 4 (drop i input)"
    using Suc.prems(3) fragment_four by simp_all
  have nh: "next_hash = hash_at ?xs ip shift" using Suc.prems(1,7) xs(2) by simp
  show ?case
  proof (cases "ip + step > len - 15")
    case True
    then have "seek_match ?xs shift p ip (unat skip_bytes) = (None, p)"
      using xs(1) by (subst seek_match.simps) (simp add: stp)
    then show ?thesis using h1 True by (auto simp: step_def)
  next
    case False
    then have lim: "ip + step + 15 \<le> len" using Suc.prems(1) step by linarith
    have hv: "unat next_hash < 2 ^ (32 - shift)"
      using Suc.prems(5,7) unat_hash_bytes_less by simp
    have h2: "hash input (ip + step) shift = Inr (hash_at input (ip + step) shift)"
      using lim Suc.prems(3) by (simp add: mem_simps)
    define c where "c = p next_hash"
    have c: "table_get table next_hash = Inr c" "c < ip" using table_get_ok [OF Suc.prems(6) hv] by (simp_all add: c_def)
    obtain t where t: "table_set table next_hash ip = Inr t" "table_inv t (2 ^ (32 - shift)) (Suc ip) (p(next_hash := ip))"
        "length t = length table"
      using table_set_ok [OF Suc.prems(6) hv, of ip "Suc ip"] lim Suc.prems(4) by auto
    have l: "UNALIGNED_LOAD32 input ip = Inr (le_word (take 4 (drop ip input)))"
      "UNALIGNED_LOAD32 input c = Inr (le_word (take 4 (drop c input)))"
      using lim c(2) Suc.prems(3) by (simp_all add: mem_simps)
    have same: "(le_word (take 4 (drop ip input)) :: u32) = le_word (take 4 (drop c input)) \<longleftrightarrow>
        take 4 (drop ip input) = take 4 (drop c input)"
      using lim c(2) Suc.prems(3) by (subst le_word_inj) auto
    have ref: "seek_match ?xs shift p ip (unat skip_bytes) =
        (if take 4 (drop ip input) = take 4 (drop c input) then (Some (ip, c), p(next_hash := ip))
         else seek_match ?xs shift (p(next_hash := ip)) (ip + step) (unat skip_bytes + 1))"
      unfolding seek_match_step [where p = p, OF nh c_def, of "unat skip_bytes"] xs(1)
      using lim c(2) xs(2) [of ip] xs(2) [of c] Suc.prems(8) False by (simp flip: stp)
    show ?thesis
    proof (cases "take 4 (drop ip input) = take 4 (drop c input)")
      case True
      moreover have "scan (Suc fuel) input shift (len - 15) table ip next_hash skip_bytes = Inr (Some (ip, c), t)"
        using h1 h2 c t(1) l True False same by (simp add: step_def)
      ultimately show ?thesis using c(2) t(2,3) lim step ref by auto
    next
      case neq: False
      have eq: "scan (Suc fuel) input shift (len - 15) table ip next_hash skip_bytes =
          scan fuel input shift (len - 15) t (ip + step) (hash_at input (ip + step) shift) (skip_bytes + 1)"
        using h1 h2 c t(1) l neq False same by (simp add: step_def Let_def)
      have sk: "unat (skip_bytes + 1) = unat skip_bytes + 1"
        using Suc.prems(9) by (simp add: unat_word_ariths)
      have inv: "table_inv t (2 ^ (32 - shift)) (ip + step) (p(next_hash := ip))" using t(2) step by (auto intro: table_inv_mono)
      have "ip + step + 14 \<le> len" "0 < ip + step" "unat (skip_bytes + 1) + fuel < 2 ^ 32" "32 \<le> unat (skip_bytes + 1)"
          "len < ip + step + fuel"
        using lim step sk Suc.prems(8,9,10) by simp_all
      from Suc.IH [OF this(1,2) Suc.prems(3,4,5) inv refl this(4,3,5)]
      obtain found t' p' where ih:
        "scan fuel input shift (len - 15) t (ip + step) (hash_at input (ip + step) shift) (skip_bytes + 1) = Inr (found, t')"
        "length t' = length t" "seek_match ?xs shift (p(next_hash := ip)) (ip + step) (unat (skip_bytes + 1)) = (found, p')"
        "case found of None \<Rightarrow> True
           | Some (ip', cand) \<Rightarrow> ip + step \<le> ip' \<and> ip' + 16 \<le> len \<and> cand < ip' \<and> take 4 (drop cand input) = take 4 (drop ip' input)
               \<and> table_inv t' (2 ^ (32 - shift)) (Suc ip') p'"
        by blast
      then show ?thesis
        unfolding eq ref using neq t(3) by (intro exI [of _ found] exI [of _ t'] exI [of _ p']) (auto simp: sk split: option.splits)
    qed
  qed
qed simp

lemma match_extends:
  assumes "cand < ip" "ip + 4 \<le> len" "len \<le> length input" "take 4 (drop cand input) = take 4 (drop ip input)"
  defines "n \<equiv> 4 + match_len input (cand + 4) (ip + 4) len"
  shows "ip + n \<le> len" "take n (drop cand input) = take n (drop ip input)"
proof -
  let ?m = "match_len input (cand + 4) (ip + 4) len"
  let ?xs = "drop (cand + 4) input" and ?ys = "take (len - (ip + 4)) (drop (ip + 4) input)"
  have m: "?m \<le> length ?ys" "\<And>k. k < ?m \<Longrightarrow> ?xs ! k = ?ys ! k"
    using common_prefix_le [of ?xs ?ys] common_prefix_nth [of _ ?xs ?ys] by (simp_all add: match_len_def)
  then show le: "ip + n \<le> len" using assms(2,3) by (simp add: n_def)
  have "input ! (cand + k) = input ! (ip + k)" if "k < n" for k
  proof (cases "k < 4")
    case True
    have "take 4 (drop cand input) ! k = take 4 (drop ip input) ! k" by (simp only: assms(4))
    then show ?thesis using True assms(1-3) by simp
  next
    case False
    then have "k - 4 < ?m" using that by (simp add: n_def)
    with m(2) have "?xs ! (k - 4) = ?ys ! (k - 4)" .
    then show ?thesis using False \<open>k - 4 < ?m\<close> m(1) assms(1-3) by (simp add: add.assoc)
  qed
  then show "take n (drop cand input) = take n (drop ip input)"
    using le assms(1,3) by (subst nth_eq_take_drop) auto
qed

lemma get_u32_at:
  assumes "p + 8 \<le> length input" "k \<le> 4"
  shows "get_u32_at_offset (le_word (take 8 (drop p input))) k = Inr (le_word (take 4 (drop (p + k) input)))"
proof -
  have "take 4 (drop k (take 8 (drop p input))) = take 4 (drop (p + k) input)"
    using assms(2) by (simp add: drop_take add.commute min_def)
  then show ?thesis using get_u32_at_offset_le_word [of "take 8 (drop p input)" k] assms by simp
qed

lemma copy_loop_ok:
  assumes "progress input dst0 op0 60 es dst op ip" "op0 + block_bound len \<le> length dst0"
    "ip + 4 \<le> len" "len \<le> length input" "len \<le> 65536" "shift \<le> 32"
    "cand < ip" "take 4 (drop cand input) = take 4 (drop ip input)"
    "table_inv table (2 ^ (32 - shift)) (Suc ip) p" "len < ip + fuel"
  shows "\<exists>h dst' op' t ip' cs p'. copy_loop fuel input shift (len - 15) len dst op table ip cand = Inr (h, dst', op', t, ip')
           \<and> copy_run (take len input) shift p ip cand = (h \<noteq> None, cs, p', ip')
           \<and> ip < ip' \<and> ip' \<le> len \<and> progress input dst0 op0 0 (es @ cs) dst' op' ip' \<and> length t = length table
           \<and> (case h of None \<Rightarrow> True
               | Some h \<Rightarrow> ip' + 15 < len \<and> h = hash_at input (ip' + 1) shift \<and> table_inv t (2 ^ (32 - shift)) (Suc ip') p')"
  using assms
proof (induction fuel arbitrary: es dst op table p ip cand)
  case (Suc fuel)
  define m where "m = match_len input (cand + 4) (ip + 4) len"
  define ip1 where "ip1 = ip + (4 + m)"
  let ?xs = "take len input"
  have xs: "length ?xs = len" using Suc.prems(4) by simp
  have four: "i + 4 \<le> len \<Longrightarrow> take 4 (drop i ?xs) = take 4 (drop i input)" for i by (rule fragment_four)
  have m: "4 + m = 4 + match_len ?xs (cand + 4) (ip + 4) (length ?xs)"
    using Suc.prems(7) unfolding xs by (simp add: m_def fragment_match_len)
  have fm: "find_match_length input (cand + 4) (ip + 4) len = Inr m"
    unfolding m_def using Suc.prems by (intro find_match_length_ok) auto
  have ext: "ip1 \<le> len" "take (4 + m) (drop cand input) = take (4 + m) (drop ip input)"
    using match_extends [OF Suc.prems(7,3,4,8)] by (simp_all add: m_def ip1_def)
  have ld: "load_bytes input ip (4 + m) = Inr (take (4 + m) (drop ip input))"
    "load_bytes input cand (4 + m) = Inr (take (4 + m) (drop ip input))"
    using ext Suc.prems(4,7) by (simp_all add: mem_simps ip1_def)
  obtain dst1 op1 where cp: "emit_copy dst op (ip - cand) (4 + m) = Inr (dst1, op1)"
      "progress input dst0 op0 0 (es @ copies (ip - cand) (4 + m)) dst1 op1 ip1"
    using progress_copy [OF Suc.prems(1) _ _ Suc.prems(4,5,7) ext(2) Suc.prems(2)] ext(1) by (auto simp: ip1_def)
  show ?case
  proof (cases "ip1 \<ge> len - 15")
    case True
    then have "copy_loop (Suc fuel) input shift (len - 15) len dst op table ip cand = Inr (None, dst1, op1, table, ip1)"
      using fm ld cp(1) by (simp add: Let_def flip: ip1_def)
    moreover have "copy_run ?xs shift p ip cand = (False, copies (ip - cand) (4 + m), p, ip1)"
      using True unfolding copy_run_step [OF m refl refl refl] xs by (simp flip: ip1_def)
    ultimately show ?thesis using cp(2) ext(1) by (auto simp: ip1_def)
  next
    case False
    let ?T = "2 ^ (32 - shift) :: nat"
    let ?w = "\<lambda>k. le_word (take 4 (drop (ip1 + k) input)) :: u32"
    have pos: "ip < ip1" "ip1 + 15 < len" using False by (auto simp: ip1_def)
    then have small: "ip1 - 1 < 65536" using Suc.prems(5) by linarith
    define p1 where "p1 = p(hash_at input (ip1 - 1) shift := ip1 - 1)"
    define h where "h = hash_bytes (?w 0) shift"
    define c where "c = p1 h"
    have w8: "get_eight_bytes_at input (ip1 - 1) = Inr (le_word (take 8 (drop (ip1 - 1) input)))"
      using pos Suc.prems(4) by (simp add: get_eight_bytes_at_def mem_simps)
    have g: "get_u32_at_offset (le_word (take 8 (drop (ip1 - 1) input))) 0 = Inr (le_word (take 4 (drop (ip1 - 1) input)))"
      "get_u32_at_offset (le_word (take 8 (drop (ip1 - 1) input))) 1 = Inr (?w 0)"
      "get_u32_at_offset (le_word (take 8 (drop (ip1 - 1) input))) 2 = Inr (?w 1)"
      using get_u32_at [of "ip1 - 1" input] pos Suc.prems(4) by simp_all
    have hb: "unat (hash_bytes w shift) < ?T" for w by (rule unat_hash_bytes_less [OF Suc.prems(6)])
    obtain t1 where t1: "table_set table (hash_at input (ip1 - 1) shift) (ip1 - 1) = Inr t1"
        "table_inv t1 ?T ip1 p1" "length t1 = length table"
      using table_set_ok [OF Suc.prems(9) hb, of "ip1 - 1" ip1] pos small by (auto simp: p1_def)
    have c: "table_get t1 (hash_bytes (?w 0) shift) = Inr c" "c < ip1"
      using table_get_ok [OF t1(2) hb] by (simp_all add: c_def h_def)
    obtain t2 where t2: "table_set t1 (hash_bytes (?w 0) shift) ip1 = Inr t2"
        "table_inv t2 ?T (Suc ip1) (p1(h := ip1))" "length t2 = length table"
      using table_set_ok [OF t1(2) hb, of ip1 "Suc ip1"] t1(3) pos Suc.prems(5) by (auto simp: h_def)
    have lc: "UNALIGNED_LOAD32 input c = Inr (le_word (take 4 (drop c input)))"
      using c(2) pos Suc.prems(4) by (simp add: mem_simps)
    have same: "?w 0 = le_word (take 4 (drop c input)) \<longleftrightarrow> take 4 (drop ip1 input) = take 4 (drop c input)"
      using pos c(2) Suc.prems(4) by (subst le_word_inj) auto
    have eq: "copy_loop (Suc fuel) input shift (len - 15) len dst op table ip cand =
        (if take 4 (drop ip1 input) = take 4 (drop c input) then copy_loop fuel input shift (len - 15) len dst1 op1 t2 ip1 c
         else Inr (Some (hash_bytes (?w 1) shift), dst1, op1, t2, ip1))"
      using fm ld cp(1) w8 g t1(1) c(1) t2(1) lc False same by (simp add: Let_def flip: ip1_def)
    have "p1 = p(hash_at ?xs (ip + (4 + m) - 1) shift := ip + (4 + m) - 1)" "h = hash_at ?xs (ip + (4 + m)) shift"
      using pos four [of "ip1 - 1"] four [of ip1] by (simp_all add: p1_def h_def flip: ip1_def)
    note ref = copy_run_step [where ?p1.0 = p1, OF m this c_def, folded ip1_def]
    have ref: "copy_run ?xs shift p ip cand =
        (if take 4 (drop ip1 input) = take 4 (drop c input) then
           (case copy_run ?xs shift (p1(h := ip1)) ip1 c of (b, cs, p, ip') \<Rightarrow> (b, copies (ip - cand) (4 + m) @ cs, p, ip'))
         else (True, copies (ip - cand) (4 + m), p1(h := ip1), ip1))"
      unfolding ref xs using False pos c(2) four [of ip1] four [of c] by simp
    show ?thesis
    proof (cases "take 4 (drop ip1 input) = take 4 (drop c input)")
      case True
      then show ?thesis
        using Suc.IH [OF progress_mono [OF cp(2)] Suc.prems(2) _ Suc.prems(4,5,6) c(2) _ t2(2)] pos Suc.prems(10) t2(3)
        unfolding eq ref by (fastforce intro: less_trans)
    next
      case False
      then show ?thesis unfolding eq ref using cp(2) ext(1) pos t2 by auto
    qed
  qed
qed simp

lemma main_loop_ok:
  assumes "progress input dst0 op0 0 es dst op ne" "op0 + block_bound len \<le> length dst0"
    "ne < ip" "ip + 14 \<le> len" "len \<le> length input" "len \<le> 65536" "shift \<le> 32"
    "table_inv table (2 ^ (32 - shift)) ip p" "next_hash = hash_at input ip shift" "len < ip + fuel"
  shows "\<exists>dst' op' t ne' es'. main_loop fuel input shift (len - 15) len dst op table ip ne next_hash = Inr (dst', op', t, ne')
           \<and> parse_from (take len input) shift p ip ne = (es', ne')
           \<and> ne' \<le> len \<and> progress input dst0 op0 0 (es @ es') dst' op' ne' \<and> length t = length table"
  using assms
proof (induction fuel arbitrary: es dst op table p ip ne next_hash)
  case (Suc fuel)
  have "unat (32 :: u32) + Suc len < 2 ^ 32" "32 \<le> unat (32 :: u32)" using Suc.prems(6) by simp_all
  with scan_ok [OF Suc.prems(4) _ Suc.prems(5,6,7,8,9), of 32 "Suc len"] Suc.prems(3)
  obtain found t p1 where sc: "scan (Suc len) input shift (len - 15) table ip next_hash 32 = Inr (found, t)" "length t = length table"
      "seek_match (take len input) shift p ip 32 = (found, p1)"
      "case found of None \<Rightarrow> True
           | Some (ip', cand) \<Rightarrow> ip \<le> ip' \<and> ip' + 16 \<le> len \<and> cand < ip' \<and> take 4 (drop cand input) = take 4 (drop ip' input)
               \<and> table_inv t (2 ^ (32 - shift)) (Suc ip') p1"
    by auto
  show ?case
  proof (cases found)
    case None
    then show ?thesis using Suc.prems sc by (auto simp: parse_from.simps)
  next
    case (Some ic)
    then obtain ip' cand where f: "found = Some (ip', cand)" by (cases ic) simp
    note 2 = sc(4) [unfolded f option.case prod.case]
    have ne: "ne < ip'" "ne + 16 \<le> len" using 2 Suc.prems(3) by auto
    let ?lit = "Literal (take (ip' - ne) (drop ne input))"
    have lxs: "take (ip' - ne) (drop ne (take len input)) = take (ip' - ne) (drop ne input)"
      using 2 diff_le_mono [of ip' len ne] by (simp add: drop_take)
    obtain dst1 op1 where lit: "emit_literal dst op input ne (ip' - ne) True = Inr (dst1, op1)"
        "progress input dst0 op0 60 (es @ [?lit]) dst1 op1 ip'"
      using progress_literal [OF Suc.prems(1) ne(1) _ _ Suc.prems(2), of True] ne 2 Suc.prems(5,6) by auto
    obtain h dst2 op2 t2 ip2 cs p2 where cl: "copy_loop (Suc len) input shift (len - 15) len dst1 op1 t ip' cand = Inr (h, dst2, op2, t2, ip2)"
        "copy_run (take len input) shift p1 ip' cand = (h \<noteq> None, cs, p2, ip2)"
        "ip' < ip2" "ip2 \<le> len" "progress input dst0 op0 0 ((es @ [?lit]) @ cs) dst2 op2 ip2" "length t2 = length t"
        "case h of None \<Rightarrow> True
               | Some h \<Rightarrow> ip2 + 15 < len \<and> h = hash_at input (ip2 + 1) shift \<and> table_inv t2 (2 ^ (32 - shift)) (Suc ip2) p2"
      using copy_loop_ok [OF lit(2) Suc.prems(2) _ Suc.prems(5,6,7), of cand t p1 "Suc len"] 2 by auto
    have ref: "parse_from (take len input) shift p ip ne =
        (if h \<noteq> None then case parse_from (take len input) shift p2 (ip2 + 1) ip2 of (es', ne) \<Rightarrow> ((?lit # cs) @ es', ne)
         else (?lit # cs, ip2))"
      by (subst parse_from.simps) (simp add: sc(3) f cl(2) Let_def lxs)
    show ?thesis
    proof (cases h)
      case None
      then show ?thesis unfolding ref using sc f ne lit(1) cl Suc.prems(3) by auto
    next
      case (Some nh)
      have "main_loop (Suc fuel) input shift (len - 15) len dst op table ip ne next_hash =
          main_loop fuel input shift (len - 15) len dst2 op2 t2 (ip2 + 1) ip2 nh"
        using sc(1) f ne(2) lit(1) cl(1) Some Suc.prems(3) by simp
      moreover have "len < ip2 + 1 + fuel" using Suc.prems(10) cl(3) 2 by linarith
      ultimately show ?thesis
        unfolding ref using Suc.IH [OF cl(5) Suc.prems(2), of "ip2 + 1" t2 p2 nh] cl(6,7) Some Suc.prems(5,6,7) sc(2) by auto
    qed
  qed
qed simp

section \<open>A fragment\<close>

text \<open>Hash table sizes are the powers of two from \<open>256\<close> to \<open>16384\<close>.\<close>

definition htsize_ok :: "nat \<Rightarrow> bool" where
  "htsize_ok n \<longleftrightarrow> n \<in> {256, 512, 1024, 2048, 4096, 8192, 16384}"

lemma grow_htsize_ok: "htsize_ok h \<Longrightarrow> htsize_ok (grow_htsize h n)"
proof (induction h n rule: grow_htsize.induct)
  case (1 h n)
  show ?case
  proof (cases "0 < h \<and> h < kmax_hash_table_size \<and> h < n")
    case True
    then have "htsize_ok (2 * h)" using 1(2) by (auto simp: htsize_ok_def kmax_hash_table_size_def)
    then show ?thesis using 1(1) True by (subst grow_htsize.simps) simp
  next
    case False
    then show ?thesis using 1(2) by (subst grow_htsize.simps) (simp add: if_not_P)
  qed
qed

lemma log2_floor_table:
  "log2_floor 256 = 8" "log2_floor 512 = 9" "log2_floor 1024 = 10" "log2_floor 2048 = 11"
  "log2_floor 4096 = 12" "log2_floor 8192 = 13" "log2_floor 16384 = 14"
  by code_simp+

lemma htsize_ok_facts:
  assumes "htsize_ok n"
  shows "n AND (n - 1) = 0" "n \<le> kmax_hash_table_size"
    "\<exists>shift \<le> 32. nat (32 - log2_floor (word_of_nat n)) = shift \<and> n = 2 ^ (32 - shift)
       \<and> drop_bit shift (-1 :: u32) = word_of_nat n - 1"
proof -
  have n: "n \<in> {256, 512, 1024, 2048, 4096, 8192, 16384}" using assms by (simp add: htsize_ok_def)
  then show "n AND (n - 1) = 0" "n \<le> kmax_hash_table_size"
    by (auto simp: kmax_hash_table_size_def)
  define k where "k = nat (log2_floor (word_of_nat n))"
  have k: "k \<le> 32" "n = 2 ^ k" "log2_floor (word_of_nat n) = int k"
    using n by (auto simp: k_def log2_floor_table)
  have "drop_bit (32 - k) (-1 :: u32) = mask k"
    using k(1) by (intro bit_word_eqI) (auto simp: bit_simps)
  then show "\<exists>shift \<le> 32. nat (32 - log2_floor (word_of_nat n)) = shift \<and> n = 2 ^ (32 - shift)
       \<and> drop_bit shift (-1 :: u32) = word_of_nat n - 1"
    using k by (intro exI [of _ "32 - k"]) (auto simp: mask_eq_exp_minus_1)
qed

lemma htsize_ok_grow: "htsize_ok (grow_htsize 256 len)"
  by (rule grow_htsize_ok) (simp add: htsize_ok_def)

lemma get_hash_table_ok:
  assumes "hash_table env = Some t" "length t = kmax_hash_table_size"
  shows "\<exists>t'. get_hash_table env len = Inr (t', grow_htsize 256 len) \<and> table_inv t' (grow_htsize 256 len) 1 (\<lambda>h. 0)
           \<and> length t' = kmax_hash_table_size"
proof -
  define n where "n = grow_htsize 256 len"
  note f = htsize_ok_facts [OF htsize_ok_grow [of len, folded n_def]]
  have "get_hash_table env len = Inr (replicate n 0 @ drop n t, n)"
    using f(1,2) assms by (simp add: get_hash_table_def flip: n_def)
  moreover have "table_inv (replicate n 0 @ drop n t) n 1 (\<lambda>h. 0)"
    by (simp add: table_inv_def nth_append)
  ultimately show ?thesis using f(2) assms by (simp flip: n_def)
qed

lemma compress_fragment_ok:
  assumes "len \<le> length input" "len \<le> kblock_size" "table_inv table (grow_htsize 256 len) 1 (\<lambda>h. 0)"
    "op + block_bound len \<le> length dst"
  defines "es \<equiv> fragment_elements (take len input)"
  shows "\<exists>dst' op' t. compress_fragment input len dst op table (grow_htsize 256 len) = Inr (dst', op', t)
           \<and> emits dst op (encode_all es) dst' op' \<and> well_formed 0 es \<and> expand_all es [] = take len input
           \<and> op' - op \<le> block_bound len \<and> length t = length table"
proof -
  define n where "n = grow_htsize 256 len"
  define shift where "shift = hash_shift len"
  note hs = htsize_ok_grow [of len, folded n_def]
  have sh: "shift \<le> 32" "nat (32 - log2_floor (word_of_nat n)) = shift" "n = 2 ^ (32 - shift)"
      "drop_bit shift (-1 :: u32) = word_of_nat n - 1"
    using htsize_ok_facts(3) [OF hs] by (auto simp: shift_def hash_shift_def n_def)
  have len: "len \<le> 65536" using assms(2) by (simp add: kblock_size_def)
  have start: "progress input dst op 0 [] dst op 0" using assms(4) by (intro progress_start) simp
  define x where "x = (if len \<ge> 15 then
              cbind (hash input 1 shift) (\<lambda>next_hash.
                main_loop (Suc len) input shift (len - 15) len dst op table 1 0 next_hash)
            else Inr (dst, op, table, 0))"
  define y where "y = (if len \<ge> 15 then parse_from (take len input) shift (\<lambda>h. 0) 1 0 else ([], 0))"
  have "\<exists>dst1 op1 t ne cs. x = Inr (dst1, op1, t, ne) \<and> y = (cs, ne) \<and> ne \<le> len \<and> progress input dst op 0 cs dst1 op1 ne
      \<and> length t = length table"
  proof (cases "len \<ge> 15")
    case True
    then have "hash input 1 shift = Inr (hash_at input 1 shift)" using assms(1) by (simp add: mem_simps)
    then show ?thesis
      using main_loop_ok [OF start assms(4) _ _ assms(1) len sh(1), of 1 table "\<lambda>h. 0" "hash_at input 1 shift" "Suc len"]
        True assms(3) sh(3) by (auto simp: x_def y_def simp flip: n_def)
  qed (use start in \<open>simp add: x_def y_def\<close>)
  then obtain dst1 op1 t ne cs where x: "x = Inr (dst1, op1, t, ne)" "y = (cs, ne)" "ne \<le> len"
      "progress input dst op 0 cs dst1 op1 ne" "length t = length table" by blast
  have es: "es = cs @ (if ne < len then [Literal (take (len - ne) (drop ne input))] else [])"
  proof -
    have l: "length (take len input) = len" using assms(1) by simp
    have "fragment_elements (take len input) = (case y of (es, ne) \<Rightarrow> es @ (if ne < len then [Literal (drop ne (take len input))] else []))"
      unfolding fragment_elements_def l y_def shift_def ..
    then show ?thesis unfolding es_def x(2) by (simp add: drop_take)
  qed
  have "\<exists>dst2 op2. (if ne < len then emit_literal dst1 op1 input ne (len - ne) False else Inr (dst1, op1)) = Inr (dst2, op2)
      \<and> progress input dst op 60 es dst2 op2 len"
    using progress_literal [OF x(4), of len len False] x(3,4) assms(1,4) len
    by (auto simp: es intro: progress_mono dest: order.antisym)
  then obtain dst2 op2 where l: "(if ne < len then emit_literal dst1 op1 input ne (len - ne) False else Inr (dst1, op1)) = Inr (dst2, op2)"
      "progress input dst op 60 es dst2 op2 len" by blast
  have "compress_fragment input len dst op table n = Inr (dst2, op2, t)"
    using assms(2) sh(4) htsize_ok_facts(1) [OF hs] x(1) l(1)
    by (simp add: compress_fragment_def Let_def sh(2) flip: x_def)
  then show ?thesis using l(2) x(5) block_boundI unfolding progress_def n_def by blast
qed

text \<open>So the elements of the reference are well formed, expand to the fragment and are short.\<close>

lemma fragment_elements_ok:
  assumes "length xs \<le> kblock_size"
  shows "well_formed 0 (fragment_elements xs)" "expand_all (fragment_elements xs) [] = xs"
    "length (encode_all (fragment_elements xs)) \<le> block_bound (length xs)"
proof -
  define n where "n = grow_htsize 256 (length xs)"
  have "table_inv (replicate n 0) n 1 (\<lambda>h. 0)" by (simp add: table_inv_def)
  then obtain m q t where f: "emits (replicate (block_bound (length xs)) 0) 0 (encode_all (fragment_elements xs)) m q"
      "well_formed 0 (fragment_elements xs)" "expand_all (fragment_elements xs) [] = xs"
    using compress_fragment_ok [OF order.refl assms, of "replicate n 0" 0 "replicate (block_bound (length xs)) 0"]
    by (auto simp: n_def)
  then show "well_formed 0 (fragment_elements xs)" "expand_all (fragment_elements xs) [] = xs" by simp_all
  show "length (encode_all (fragment_elements xs)) \<le> block_bound (length xs)"
    using emitsD(1,3) [OF f(1)] by simp
qed

section \<open>The whole input\<close>

text \<open>Elements that only reach back into their own block expand the same way behind any prefix.\<close>

lemma self_copy_prefix:
  "0 < off \<Longrightarrow> off \<le> length out \<Longrightarrow> self_copy off n (pre @ out) = pre @ self_copy off n out"
proof (induction n arbitrary: out)
  case (Suc n)
  have "length (pre @ out) - off = length pre + (length out - off)" using Suc.prems by simp
  then have "(pre @ out) ! (length (pre @ out) - off) = out ! (length out - off)" by (simp only: nth_append_length_plus)
  then show ?case
    using Suc.IH [of "out @ [out ! (length out - off)]"] Suc.prems by simp
qed simp

lemma expand_all_prefix:
  "well_formed (length out) es \<Longrightarrow> expand_all es (pre @ out) = pre @ expand_all es out"
proof (induction es arbitrary: out)
  case (Cons e es)
  then show ?case
    by (cases e) (simp_all add: self_copy_prefix)
qed simp

definition total_bound :: "nat \<Rightarrow> nat" where
  "total_bound n = n + n div 60 + n div 65536 + 1"

lemma total_bound_step:
  assumes "0 < n"
  shows "block_bound (min n 65536) + (if n \<le> 65536 then 0 else total_bound (n - 65536)) \<le> total_bound n"
proof (cases "n \<le> 65536")
  case True
  then show ?thesis by (simp add: block_bound_def total_bound_def)
next
  case False
  define k where "k = n - 65536"
  have n: "n = k + 65536" using False by (simp add: k_def)
  have "k div 60 + 1092 \<le> n div 60" unfolding n by linarith
  moreover have "n div 65536 = k div 65536 + 1" unfolding n by simp
  ultimately show ?thesis using False by (simp add: block_bound_def total_bound_def k_def min_def)
qed

lemma total_bound_max: "5 + total_bound n \<le> snappy_max_compressed_length n"
  by (simp add: total_bound_def snappy_max_compressed_length_def)

lemma stream_elements_ok:
  "well_formed 0 (stream_elements xs) \<and> expand_all (stream_elements xs) [] = xs
     \<and> length (encode_all (stream_elements xs)) \<le> total_bound (length xs)"
proof (induction xs rule: stream_elements.induct)
  case (1 xs)
  show ?case
  proof (cases "xs = []")
    case True
    then show ?thesis by (simp add: stream_elements.simps)
  next
    case False
    let ?a = "take kblock_size xs" and ?b = "drop kblock_size xs"
    have eq: "stream_elements xs = fragment_elements ?a @ stream_elements ?b" using False by (subst stream_elements.simps) simp
    have "length ?a \<le> kblock_size" by simp
    note f = fragment_elements_ok [OF this] and ih = "1.IH" [OF False]
    have len: "length ?a = min (length xs) 65536" "length ?b = length xs - 65536" by (simp_all add: kblock_size_def)
    have "stream_elements ?b = []" if "length xs \<le> 65536" using that by (simp add: stream_elements.simps kblock_size_def)
    then have "length (encode_all (stream_elements xs)) \<le> total_bound (length xs)"
      using total_bound_step [of "length xs"] False f(3) ih unfolding eq len by (auto split: if_splits)
    moreover have "expand_all (stream_elements xs) [] = xs"
      using expand_all_prefix [of "[]" "stream_elements ?b" ?a] ih f(2) unfolding eq by simp
    moreover have "well_formed 0 (stream_elements xs)" using f(1) ih well_formed_mono [of 0 "stream_elements ?b"] unfolding eq by simp
    ultimately show ?thesis by simp
  qed
qed

lemma length_snappy_stream: "length (snappy_stream xs) \<le> snappy_max_compressed_length (length xs)"
  using stream_elements_ok [of xs] total_bound_max [of "length xs"] length_varint_bytes [of "word_of_nat (length xs)"]
  by (simp add: snappy_stream_def kmax32_def)

text \<open>A call may change the contents of the blocks of an environment, never their sizes.\<close>

definition same_blocks :: "snappy_env \<Rightarrow> snappy_env \<Rightarrow> bool" where
  "same_blocks env env' \<longleftrightarrow> map_option length (env_scratch env') = map_option length (env_scratch env)
     \<and> map_option length (scratch_output env') = map_option length (scratch_output env)"

lemma same_blocks_refl: "same_blocks env env"
  by (simp add: same_blocks_def)

lemma same_blocks_trans [trans]: "same_blocks env env' \<Longrightarrow> same_blocks env' env'' \<Longrightarrow> same_blocks env env''"
  by (simp add: same_blocks_def)

context byte_source
begin

text \<open>
  The environment has its hash table and, unless every peek delivers all that is left, a scratch block.
\<close>

definition contiguous :: bool where
  "contiguous \<longleftrightarrow> (\<forall>s m n. invar s \<longrightarrow> peek s = (m, n) \<longrightarrow> n = length (rest s))"

definition env_ok :: "snappy_env \<Rightarrow> bool" where
  "env_ok env \<longleftrightarrow> (\<exists>t. hash_table env = Some t \<and> length t = kmax_hash_table_size) \<and>
     (contiguous \<or> (\<exists>scr. env_scratch env = Some scr \<and> length scr = kblock_size))"

lemma gather_ok:
  assumes "invar r" "b \<le> num" "num \<le> length scr" "num - b \<le> length (rest r)"
  shows "\<exists>r'. gather peek skip r scr b num = Inr (take b scr @ take (num - b) (rest r) @ drop num scr, r')
           \<and> invar r' \<and> rest r' = drop (num - b) (rest r)"
  using assms
proof (induction "num - b" arbitrary: r scr b rule: less_induct)
  case less
  show ?case
  proof (cases "b < num")
    case False
    then show ?thesis using less.prems by (simp add: gather.simps)
  next
    case True
    obtain m n where pk: "peek r = (m, n)" by fastforce
    note z = peek_zero_iff [OF less.prems(1) pk] and av = peek_avail [OF less.prems(1) pk]
    have "rest r \<noteq> []" using True less.prems(4) by auto
    define k where "k = min n (num - b)"
    have k: "0 < k" "k \<le> n" "k \<le> num - b" using z \<open>rest r \<noteq> []\<close> True by (auto simp: k_def)
    obtain r' where r': "skip r k = Inr r'" "invar r'" "rest r' = drop k (rest r)"
      using skip_ok [OF less.prems(1) pk k(2)] by auto
    define scr' where "scr' = take b scr @ take k (rest r) @ drop (b + k) scr"
    have ld: "load_bytes m 0 k = Inr (take k (rest r))"
      using k av peek_take [OF less.prems(1) pk k(2)] by (simp add: mem_simps)
    have st: "store_bytes scr b (take k (rest r)) = Inr scr'"
      using k av less.prems by (simp add: mem_simps scr'_def)
    have eq: "gather peek skip r scr b num = gather peek skip r' scr' (b + k) num"
      using True pk ld st r'(1) k(1) by (subst gather.simps) (simp add: Let_def flip: k_def)
    have len: "length scr' = length scr" using k av less.prems by (simp add: scr'_def)
    have "take (b + k) scr' = take b scr @ take k (rest r)" "drop num scr' = drop num scr"
      using k av less.prems by (simp_all add: scr'_def)
    moreover have "take k (rest r) @ take (num - (b + k)) (drop k (rest r)) = take (num - b) (rest r)"
      using k by (simp add: take_add [symmetric])
    moreover have "num - (b + k) < num - b" "b + k \<le> num" "num \<le> length scr'" "num - (b + k) \<le> length (rest r')"
      using k True less.prems len r'(3) by auto
    note less.hyps [OF this(1) r'(2) this(2,3,4)]
    ultimately show ?thesis unfolding eq using k r'(3) by auto
  qed
qed

lemma next_block_ok:
  assumes env: "env_ok env" and r: "invar r" and pk: "peek r = (m, n)" and num: "num \<le> length (rest r)" "num \<le> kblock_size"
  shows "\<exists>frag env' r' adv r''. next_block peek skip env r m n num = Inr (frag, env', r', adv) \<and> env_ok env'
           \<and> same_blocks env env' \<and> num \<le> length frag \<and> take num frag = take num (rest r)
           \<and> skip r' adv = Inr r'' \<and> invar r'' \<and> rest r'' = drop num (rest r)"
proof (cases "num \<le> n")
  case True
  obtain r'' where "skip r num = Inr r''" "invar r''" "rest r'' = drop num (rest r)"
    using skip_ok [OF r pk True] by auto
  then show ?thesis
    using True env peek_take [OF r pk True] peek_avail [OF r pk] same_blocks_refl by (auto simp: next_block_def)
next
  case False
  note av = peek_avail [OF r pk]
  have "\<not> contiguous" using False num(1) r pk by (auto simp: contiguous_def)
  then obtain scr where scr: "env_scratch env = Some scr" "length scr = kblock_size"
    using env by (auto simp: env_ok_def)
  define scr1 where "scr1 = take n (rest r) @ drop n scr"
  have ld: "load_bytes m 0 n = Inr (take n (rest r))"
    using av peek_take [OF r pk order.refl] by (simp add: mem_simps)
  have st: "store_bytes scr 0 (take n (rest r)) = Inr scr1"
    using av False num scr by (simp add: mem_simps scr1_def)
  obtain r1 where r1: "skip r n = Inr r1" "invar r1" "rest r1 = drop n (rest r)"
    using skip_ok [OF r pk order.refl] by auto
  define scr2 where "scr2 = take n scr1 @ take (num - n) (rest r1) @ drop num scr1"
  have l1: "length scr1 = kblock_size" using av False num scr by (simp add: scr1_def)
  obtain r2 where r2: "gather peek skip r1 scr1 n num = Inr (scr2, r2)" "invar r2" "rest r2 = drop (num - n) (rest r1)"
    using gather_ok [OF r1(2), of n num scr1] False num l1 r1(3) diff_le_mono [OF num(1), of n] unfolding scr2_def by auto
  obtain m2 n2 where pk2: "peek r2 = (m2, n2)" by fastforce
  obtain r3 where r3: "skip r2 0 = Inr r3" "invar r3" "rest r3 = rest r2"
    using skip_ok [OF r2(2) pk2, of 0] by auto
  have "take num scr2 = take n (rest r) @ take (num - n) (drop n (rest r))"
    using False av num by (simp add: scr2_def scr1_def r1(3))
  also have "\<dots> = take num (rest r)" using False by (simp add: take_add [symmetric])
  finally have "take num scr2 = take num (rest r)" .
  moreover have "length scr2 = kblock_size"
    using False av num l1 by (simp add: scr2_def r1(3))
  moreover have "next_block peek skip env r m n num = Inr (scr2, env\<lparr>env_scratch := Some scr2\<rparr>, r2, 0)"
    using False scr(1) ld st r1(1) r2(1) by (simp add: next_block_def)
  ultimately show ?thesis
    using env r3 r2(3) r1(3) False num scr by (auto simp: env_ok_def same_blocks_def)
qed

end

text \<open>
  A reader and a sink together. A direct sink always offers its own memory for a block; with any other the environment
  needs an output block.
\<close>

locale compressor = byte_source + byte_sink
begin

definition direct :: bool where
  "direct \<longleftrightarrow> (\<forall>w n. sink_ok w \<longrightarrow> n \<le> snappy_max_compressed_length kblock_size \<longrightarrow> reserve w n \<noteq> None)"

definition ready :: "snappy_env \<Rightarrow> bool" where
  "ready env \<longleftrightarrow> env_ok env \<and>
     (direct \<or> (\<exists>out. scratch_output env = Some out \<and> snappy_max_compressed_length kblock_size \<le> length out))"

lemma emit_block_ok:
  assumes env: "ready env" and w: "sink_ok w" and num: "num \<le> length frag" "num \<le> kblock_size" "block_bound num \<le> room w"
  defines "bs \<equiv> encode_all (fragment_elements (take num frag))"
  shows "\<exists>env' w'. emit_block reserve put env w frag num = Inr (env', w') \<and> ready env' \<and> same_blocks env env' \<and> sink_ok w'
           \<and> written w' = written w @ bs \<and> room w' = room w - length bs"
proof -
  let ?hs = "grow_htsize 256 num"
  obtain t where h: "get_hash_table env num = Inr (t, ?hs)" "table_inv t ?hs 1 (\<lambda>h. 0)" "length t = kmax_hash_table_size"
    using env get_hash_table_ok by (metis env_ok_def ready_def)
  have bb: "block_bound num \<le> snappy_max_compressed_length num"
    by (simp add: block_bound_def snappy_max_compressed_length_def)
  show ?thesis
  proof (cases "reserve w (snappy_max_compressed_length num)")
    case (Some mp)
    then obtain m p where mp: "reserve w (snappy_max_compressed_length num) = Some (m, p)" by (cases mp) simp
    have "p + block_bound num \<le> length m" using reserve_room [OF w mp] num(3) bb by linarith
    from compress_fragment_ok [OF num(1,2) h(2) this]
    obtain m' q t2 where f: "compress_fragment frag num m p t ?hs = Inr (m', q, t2)" "emits m p bs m' q"
        "q - p \<le> block_bound num" "length t2 = length t" unfolding bs_def by blast
    have q: "q - p = length bs" using emitsD(1) [OF f(2)] by simp
    have "length bs \<le> min (snappy_max_compressed_length num) (room w)" using f(3) q num(3) bb by linarith
    from put_in_place [OF w mp f(2) this]
    obtain w' where w': "put w (In_place m') (length bs) = Inr w'" "sink_ok w'" "written w' = written w @ bs"
        "room w' = room w - length bs" by blast
    have "emit_block reserve put env w frag num = Inr (env\<lparr>hash_table := Some t2\<rparr>, w')"
      using h(1) mp f(1) w'(1) q by (simp add: emit_block_def)
    moreover have "ready (env\<lparr>hash_table := Some t2\<rparr>)" "same_blocks env (env\<lparr>hash_table := Some t2\<rparr>)"
      using env f(4) h(3) by (auto simp: ready_def env_ok_def same_blocks_def)
    ultimately show ?thesis using w'(2-4) by auto
  next
    case None
    have le: "snappy_max_compressed_length num \<le> snappy_max_compressed_length kblock_size"
      using num(2) by (simp add: snappy_max_compressed_length_def add_mono div_le_mono)
    then have "\<not> direct" using None w unfolding direct_def by blast
    then obtain out where out: "scratch_output env = Some out" "snappy_max_compressed_length kblock_size \<le> length out"
      using env by (auto simp: ready_def)
    have "0 + block_bound num \<le> length out" using out(2) le bb by linarith
    from compress_fragment_ok [OF num(1,2) h(2) this]
    obtain out' q t2 where f: "compress_fragment frag num out 0 t ?hs = Inr (out', q, t2)" "emits out 0 bs out' q"
        "q - 0 \<le> block_bound num" "length t2 = length t" unfolding bs_def by blast
    note e = emitsD [OF f(2)]
    have q: "q = length bs" "q \<le> length out'" "q \<le> room w" using e f(3) num(3) by simp_all
    from put_from [OF w q(2,3)]
    obtain w' where w': "put w (From out') q = Inr w'" "sink_ok w'" "written w' = written w @ bs" "room w' = room w - q"
      using e(4) by auto
    have "emit_block reserve put env w frag num = Inr (env\<lparr>hash_table := Some t2, scratch_output := Some out'\<rparr>, w')"
      using h(1) None out(1) f(1) w'(1) by (simp add: emit_block_def)
    moreover have "ready (env\<lparr>hash_table := Some t2, scratch_output := Some out'\<rparr>)"
        "same_blocks env (env\<lparr>hash_table := Some t2, scratch_output := Some out'\<rparr>)"
      using env f(4) h(3) out e(2) by (auto simp: ready_def env_ok_def same_blocks_def)
    ultimately show ?thesis using w'(2-4) q(1) by auto
  qed
qed

lemma compress_blocks_ok:
  assumes "ready env" "invar r" "sink_ok w" "rest r \<noteq> [] \<Longrightarrow> total_bound (length (rest r)) \<le> room w"
  shows "\<exists>env' r' w'. compress_blocks peek skip reserve put env r w (int (length (rest r))) = Inr (0, env', r', w')
           \<and> ready env' \<and> same_blocks env env' \<and> sink_ok w' \<and> written w' = written w @ encode_all (stream_elements (rest r))"
  using assms
proof (induction "length (rest r)" arbitrary: env r w rule: less_induct)
  case less
  show ?case
  proof (cases "rest r = []")
    case True
    then show ?thesis
      using less.prems same_blocks_refl
      by (intro exI [of _ env] exI [of _ r] exI [of _ w]) (simp add: compress_blocks.simps stream_elements.simps)
  next
    case False
    define len where "len = length (rest r)"
    define num where "num = min len kblock_size"
    have len: "0 < len" using False by (simp add: len_def)
    have num: "0 < num" "num \<le> length (rest r)" "num \<le> kblock_size" "num = min len 65536" "take num (rest r) = take kblock_size (rest r)"
        "drop num (rest r) = drop kblock_size (rest r)"
      using len by (auto simp: num_def len_def kblock_size_def min_def)
    obtain m n where pk: "peek r = (m, n)" by fastforce
    have n: "n \<noteq> 0" using peek_zero_iff [OF less.prems(2) pk] False by simp
    have "env_ok env" using less.prems(1) by (simp add: ready_def)
    then obtain frag env1 r1 adv r2 where b: "next_block peek skip env r m n num = Inr (frag, env1, r1, adv)" "env_ok env1"
        "num \<le> length frag" "take num frag = take num (rest r)" "skip r1 adv = Inr r2" "invar r2" "rest r2 = drop num (rest r)"
        "same_blocks env env1"
      using next_block_ok [OF _ less.prems(2) pk num(2,3)] by blast
    define bs where "bs = encode_all (fragment_elements (take num frag))"
    have "ready env1" using less.prems(1) b(2,8) by (auto simp: ready_def same_blocks_def)
    moreover have bound: "block_bound num + (if len \<le> 65536 then 0 else total_bound (len - 65536)) \<le> total_bound len"
      using total_bound_step [OF len] num(4) by simp
    then have "block_bound num \<le> room w" using less.prems(4) [OF False] by (simp flip: len_def)
    ultimately obtain env2 w2 where f: "emit_block reserve put env1 w frag num = Inr (env2, w2)" "ready env2" "sink_ok w2"
        "written w2 = written w @ bs" "room w2 = room w - length bs" "same_blocks env1 env2"
      using emit_block_ok [OF _ less.prems(3) b(3) num(3)] unfolding bs_def by blast
    have nn: "nat (min (int len) (int kblock_size)) = num" "int len - int num = int (length (rest r2))"
      using num by (auto simp: num_def b(7) len_def)
    have eq: "compress_blocks peek skip reserve put env r w (int len) =
        compress_blocks peek skip reserve put env2 r2 w2 (int (length (rest r2)))"
      using len pk n b(1,5) f(1) nn by (subst compress_blocks.simps) (simp add: Let_def)
    have "length bs \<le> block_bound num" using fragment_elements_ok(3) [of "take num frag"] b(3) num(3) by (simp add: bs_def)
    then have "total_bound (length (rest r2)) \<le> room w2" if "rest r2 \<noteq> []"
      using that bound less.prems(4) [OF False] f(5) b(7) num(4) by (auto simp: len_def)
    moreover have "length (rest r2) < length (rest r)" using num(1,2) b(7) by simp
    ultimately obtain env3 r3 w3 where ih:
        "compress_blocks peek skip reserve put env2 r2 w2 (int (length (rest r2))) = Inr (0, env3, r3, w3)" "ready env3" "sink_ok w3"
        "written w3 = written w2 @ encode_all (stream_elements (rest r2))" "same_blocks env2 env3"
      using less.hyps [OF _ f(2) b(6) f(3)] by blast
    have "stream_elements (rest r) = fragment_elements (take num frag) @ stream_elements (rest r2)"
      using False unfolding b(4,7) num(5,6) by (subst stream_elements.simps) simp
    then have "written w3 = written w @ encode_all (stream_elements (rest r))" using f(4) ih(4) by (simp add: bs_def)
    moreover have "same_blocks env env3" using same_blocks_trans [OF same_blocks_trans [OF b(8) f(6)] ih(5)] .
    ultimately show ?thesis using ih(1-3) eq unfolding len_def by metis
  qed
qed

lemma compress_ok:
  assumes env: "ready env" and r: "invar r" and w: "sink_ok w" and av: "av r = int (length (rest r))"
    and room: "snappy_max_compressed_length (length (rest r)) \<le> room w"
  shows "\<exists>env' r' w'. compress av peek skip reserve put env r w = Inr (0, env', r', w') \<and> ready env' \<and> same_blocks env env' \<and> sink_ok w'
           \<and> written w' = written w @ snappy_stream (rest r)"
proof -
  define n where "n = length (rest r)"
  let ?v = "word_of_nat n :: u32"
  let ?h = "varint_bytes ?v"
  have h5: "length ?h \<le> 5" using length_varint_bytes [of ?v] by (simp add: kmax32_def)
  have enc: "varint_encode32 (replicate kmax32 0) 0 ?v = Inr (?h @ replicate (5 - length ?h) 0, length ?h)"
    using h5 by (simp add: varint_encode32_def mem_simps kmax32_def)
  note tb = total_bound_max [of n]
  have "length ?h \<le> room w" using room h5 tb by (simp flip: n_def)
  then obtain w1 where w1: "put w (From (?h @ replicate (5 - length ?h) 0)) (length ?h) = Inr w1" "sink_ok w1"
      "written w1 = written w @ ?h" "room w1 = room w - length ?h"
    using put_from [OF w, of "length ?h" "?h @ replicate (5 - length ?h) 0"] by auto
  have "total_bound (length (rest r)) \<le> room w1" using room tb h5 w1(4) by (simp flip: n_def)
  from compress_blocks_ok [OF env r w1(2) this]
  obtain env' r' w' where b: "compress_blocks peek skip reserve put env r w1 (int n) = Inr (0, env', r', w')" "ready env'"
      "sink_ok w'" "written w' = written w1 @ encode_all (stream_elements (rest r))" "same_blocks env env'"
    by (auto simp: n_def)
  have "compress av peek skip reserve put env r w = Inr (0, env', r', w')"
    using av enc w1(1) b(1) by (simp add: compress_def Let_def flip: n_def)
  moreover have "written w' = written w @ snappy_stream (rest r)" using b(4) w1(3) by (simp add: snappy_stream_def n_def)
  ultimately show ?thesis using b(2,3,5) by blast
qed

end

end
