(* ===== verification/Snappy_Writer.thy ===== *)
theory Snappy_Writer
  imports Snappy_Format
begin

text \<open>
  The decompressor's output: \<^verbatim>\<open>struct writer\<close> and its operations in \<^verbatim>\<open>snappy.c\<close>, with the
  overlapping copies that expand back references. They are shown to implement the expansion of the
  format (\<open>apply_element\<close>) without touching memory outside the announced output.
\<close>

section \<open>State and operations\<close>

record writer =
  wmem :: buffer  \<comment> \<open>the object the three pointers point into\<close>
  w_base :: nat
  w_op :: nat
  w_op_limit :: nat

definition writer_set_expected_length :: "writer \<Rightarrow> nat \<Rightarrow> writer" where
  "writer_set_expected_length w len = w\<lparr>w_op_limit := w_op w + len\<rparr>"

definition writer_check_length :: "writer \<Rightarrow> bool" where
  "writer_check_length w \<longleftrightarrow> w_op w = w_op_limit w"

text \<open>The \<^verbatim>\<open>do ... while (--len > 0)\<close> loop of \<^verbatim>\<open>incremental_copy\<close>.\<close>

function incremental_copy_loop :: "buffer \<Rightarrow> nat \<Rightarrow> nat \<Rightarrow> int \<Rightarrow> buffer c_result" where
  "incremental_copy_loop mem src op len =
     cbind (load8 mem src) (\<lambda>v.
     cbind (store8 mem op v) (\<lambda>mem.
       if len - 1 > 0 then incremental_copy_loop mem (src + 1) (op + 1) (len - 1) else Inr mem))"
  by pat_completeness auto
termination
  by (relation "measure (\<lambda>(mem, src, op, len). nat len)") auto

declare incremental_copy_loop.simps [simp del]

definition incremental_copy :: "buffer \<Rightarrow> nat \<Rightarrow> nat \<Rightarrow> int \<Rightarrow> buffer c_result" where
  "incremental_copy mem src op len =
     cbind (cassert (len > 0)) (\<lambda>_. incremental_copy_loop mem src op len)"

definition kmax_increment_copy_overflow :: u32 where
  "kmax_increment_copy_overflow = 10"

text \<open>
  The first loop of \<^verbatim>\<open>incremental_copy_fast_path\<close>, with an iteration budget: it would not end for
  \<open>op = src\<close>. Each round doubles \<open>op - src\<close>, so four rounds are enough. The copy of eight bytes from \<open>src\<close> to \<open>op\<close>, which
  depends on the width of a pointer, is the argument \<open>cp\<close>.
\<close>

fun expand_pattern ::
    "(buffer \<Rightarrow> nat \<Rightarrow> nat \<Rightarrow> buffer c_result) \<Rightarrow> nat \<Rightarrow> buffer \<Rightarrow> nat \<Rightarrow> nat \<Rightarrow> int \<Rightarrow> (buffer \<times> nat \<times> int) c_result" where
  "expand_pattern cp 0 mem src op len = Inl Nontermination"
| "expand_pattern cp (Suc fuel) mem src op len =
     (if int op - int src < 8 then
        cbind (cp mem src op) (\<lambda>mem.
          expand_pattern cp fuel mem src (nat (int op + (int op - int src))) (len - (int op - int src)))
      else Inr (mem, op, len))"

function copy_blocks :: "(buffer \<Rightarrow> nat \<Rightarrow> nat \<Rightarrow> buffer c_result) \<Rightarrow> buffer \<Rightarrow> nat \<Rightarrow> nat \<Rightarrow> int \<Rightarrow> buffer c_result" where
  "copy_blocks cp mem src op len =
     (if len > 0 then
        cbind (cp mem src op) (\<lambda>mem.
          copy_blocks cp mem (src + 8) (op + 8) (len - 8))
      else Inr mem)"
  by pat_completeness auto
termination
  by (relation "measure (\<lambda>(cp, mem, src, op, len). nat len)") auto

declare copy_blocks.simps [simp del]

definition fast_path_with :: "(buffer \<Rightarrow> nat \<Rightarrow> nat \<Rightarrow> buffer c_result) \<Rightarrow> buffer \<Rightarrow> nat \<Rightarrow> nat \<Rightarrow> int \<Rightarrow> buffer c_result" where
  "fast_path_with cp mem src op len =
     cbind (expand_pattern cp 4 mem src op len) (\<lambda>(mem, op, len). copy_blocks cp mem src op len)"

definition incremental_copy_fast_path :: "buffer \<Rightarrow> nat \<Rightarrow> nat \<Rightarrow> int \<Rightarrow> buffer c_result" where
  "incremental_copy_fast_path = fast_path_with (\<lambda>mem src op. unaligned_copy64 mem src mem op)"

definition writer_append_from_self :: "writer \<Rightarrow> u32 \<Rightarrow> u32 \<Rightarrow> (bool \<times> writer) c_result" where
  "writer_append_from_self w offset len =
    (let op = w_op w; from = op - unat offset;
         done = (\<lambda>mem. Inr (True, w\<lparr>wmem := mem, w_op := op + unat len\<rparr>)) in
     cbind (cassert (op \<le> w_op_limit w)) (\<lambda>_.
     let space_left = (word_of_nat (w_op_limit w - op) :: u32) in
     if int op - int (w_base w) \<le> uint (offset - 1) then Inr (False, w)
     else if len \<le> 16 \<and> offset \<ge> 8 \<and> space_left \<ge> 16 then
       cbind (unaligned_copy64 (wmem w) from (wmem w) op) (\<lambda>mem.
       cbind (unaligned_copy64 mem (from + 8) mem (op + 8)) done)
     else if space_left \<ge> len + kmax_increment_copy_overflow then
       cbind (incremental_copy_fast_path (wmem w) from op (uint len)) done
     else if space_left < len then Inr (False, w)
     else cbind (incremental_copy (wmem w) from op (uint len)) done))"

definition writer_append :: "writer \<Rightarrow> buffer \<Rightarrow> nat \<Rightarrow> u32 \<Rightarrow> (bool \<times> writer) c_result" where
  "writer_append w src ip len =
    (let op = w_op w in
     cbind (cassert (op \<le> w_op_limit w)) (\<lambda>_.
     let space_left = (word_of_nat (w_op_limit w - op) :: u32) in
     if space_left < len then Inr (False, w)
     else
       cbind (load_bytes src ip (unat len)) (\<lambda>bs.
       cbind (store_bytes (wmem w) op bs) (\<lambda>mem.
         Inr (True, w\<lparr>wmem := mem, w_op := op + unat len\<rparr>)))))"

definition writer_try_fast_append ::
    "writer \<Rightarrow> buffer \<Rightarrow> nat \<Rightarrow> u32 \<Rightarrow> u32 \<Rightarrow> (bool \<times> writer) c_result" where
  "writer_try_fast_append w src ip available_bytes len =
    (let op = w_op w;
         space_left = sint (word_of_int (int (w_op_limit w) - int op) :: 32 word) in
     if len \<le> 16 \<and> available_bytes \<ge> 16 \<and> space_left \<ge> 16 then
       cbind (unaligned_copy64 src ip (wmem w) op) (\<lambda>mem.
       cbind (unaligned_copy64 src (ip + 8) mem (op + 8)) (\<lambda>mem.
         Inr (True, w\<lparr>wmem := mem, w_op := op + unat len\<rparr>)))
     else Inr (False, w))"

section \<open>Periodic memory\<close>

text \<open>
  \<open>periodic b src d mem n\<close>: up to position \<open>n\<close>, \<open>mem\<close> is \<open>b\<close> up to \<open>src + d\<close> continued with
  period \<open>d\<close>. Every block copy from \<open>s\<close> to \<open>n\<close>, a multiple of the period apart, extends it.
\<close>

definition pattern_at :: "buffer \<Rightarrow> nat \<Rightarrow> nat \<Rightarrow> nat \<Rightarrow> u8" where
  "pattern_at b src d j = (if j < src then b ! j else b ! (src + (j - src) mod d))"

definition periodic :: "buffer \<Rightarrow> nat \<Rightarrow> nat \<Rightarrow> buffer \<Rightarrow> nat \<Rightarrow> bool" where
  "periodic b src d mem n \<longleftrightarrow> length mem = length b \<and> (\<forall>j<n. mem ! j = pattern_at b src d j)"

lemma periodic_init: "periodic b src d b (src + d)"
  by (auto simp: periodic_def pattern_at_def)

lemma periodic_weaken: "periodic b src d mem n \<Longrightarrow> m \<le> n \<Longrightarrow> periodic b src d mem m"
  by (auto simp: periodic_def)

lemma pattern_at_shift:
  assumes "d dvd k" "src \<le> j"
  shows "pattern_at b src d (j + k) = pattern_at b src d j"
proof -
  obtain c where c: "k = d * c" using assms(1) by blast
  have "j + k - src = (j - src) + d * c" using assms(2) by (simp add: c)
  then have "(j + k - src) mod d = (j - src) mod d" by simp
  then show ?thesis using assms(2) by (simp add: pattern_at_def)
qed

lemma periodic_extend:
  assumes p: "periodic b src d mem n" and s: "src \<le> s" "s < n" "d dvd (n - s)"
    and k: "k \<le> m" "k \<le> n - s" "n + m \<le> length mem"
  shows "periodic b src d (take n mem @ take m (drop s mem) @ drop (n + m) mem) (n + k)"
proof -
  let ?mem = "take n mem @ take m (drop s mem) @ drop (n + m) mem"
  have len: "length (take m (drop s mem)) = m" using s k by simp
  have "?mem ! j = pattern_at b src d j" if j: "j < n + k" for j
  proof (cases "j < n")
    case True
    then show ?thesis using p k by (simp add: periodic_def nth_append)
  next
    case False
    let ?i = "s + (j - n)"
    have i: "?i < n" "j - n < m" using False j k by auto
    have "?mem ! j = mem ! ?i"
      using False i k s j len by (simp add: nth_append)
    also have "\<dots> = pattern_at b src d ?i" using p i by (simp add: periodic_def)
    also have "\<dots> = pattern_at b src d (?i + (n - s))"
      using s by (intro pattern_at_shift [symmetric]) auto
    also have "?i + (n - s) = j" using False s by simp
    finally show ?thesis .
  qed
  moreover have "length ?mem = length b" using p k s by (simp add: periodic_def)
  ultimately show ?thesis by (simp add: periodic_def)
qed

lemma periodic_copy64:
  assumes "periodic b src d mem n" "src \<le> s" "s < n" "d dvd (n - s)" "n + 8 \<le> length mem"
  shows "\<exists>mem'. unaligned_copy64 mem s mem n = Inr mem' \<and> periodic b src d mem' (n + min 8 (n - s))"
  using assms periodic_extend [OF assms(1-4), of "min 8 (n - s)" 8]
  by (simp add: mem_simps)

lemma periodic_self_copy:
  assumes p: "periodic b (length out - d) d mem (length out + len)"
    and d: "0 < d" "d \<le> length out" and b: "take (length out) b = out" "length out + len \<le> length b"
  shows "take (length out + len) mem = self_copy d len out"
proof (rule nth_equalityI)
  show l: "length (take (length out + len) mem) = length (self_copy d len out)"
    using p b(2) by (simp add: periodic_def)
  fix j assume "j < length (take (length out + len) mem)"
  then have j: "j < length out + len" by simp
  have out: "out ! i = b ! i" if "i < length out" for i
    using that b(1) by (metis nth_take)
  have "mem ! j = pattern_at b (length out - d) d j" using p j by (simp add: periodic_def)
  also have "\<dots> = self_copy d len out ! j"
  proof (cases "j < length out")
    case True
    then have "pattern_at b (length out - d) d j = b ! j"
      using d by (auto simp: pattern_at_def)
    then show ?thesis using True d j out by (simp add: nth_self_copy)
  next
    case False
    let ?k = "j - length out"
    have "j - (length out - d) = ?k + d" using False d by linarith
    then have "(j - (length out - d)) mod d = ?k mod d" by simp
    moreover have "length out - d + ?k mod d < length out"
      using d mod_less_divisor [OF d(1), of ?k] by linarith
    moreover have "\<not> j < length out - d" using False by linarith
    ultimately show ?thesis using False d j out by (simp add: nth_self_copy pattern_at_def)
  qed
  finally show "take (length out + len) mem ! j = self_copy d len out ! j" using j by simp
qed

section \<open>The copies produce periodic memory\<close>

lemma incremental_copy_loop_periodic:
  assumes "periodic b src d mem (s + d)" "src \<le> s" "0 < d" "0 < n" "s + d + n \<le> length mem"
  shows "\<exists>mem'. incremental_copy_loop mem s (s + d) (int n) = Inr mem' \<and> periodic b src d mem' (s + d + n)"
  using assms
proof (induction n arbitrary: mem s)
  case 0
  then show ?case by simp
next
  case (Suc n)
  let ?m = "take (s + d) mem @ [mem ! s] @ drop (s + d + 1) mem"
  have "take 1 (drop s mem) = [mem ! s]"
    using Suc.prems by (simp add: take_Suc_conv_app_nth)
  then have p: "periodic b src d ?m (s + d + 1)"
    using periodic_extend [OF Suc.prems(1), of s 1 1] Suc.prems by simp
  have ok: "load8 mem s = Inr (mem ! s)" "store8 mem (s + d) (mem ! s) = Inr ?m"
    using Suc.prems by (simp_all add: mem_simps store8_def)
  show ?case
  proof (cases "n = 0")
    case True
    then show ?thesis using ok p by (subst incremental_copy_loop.simps) simp
  next
    case False
    have "length ?m = length mem" using Suc.prems by simp
    then obtain mem' where m: "incremental_copy_loop ?m (Suc s) (Suc s + d) (int n) = Inr mem'"
        "periodic b src d mem' (Suc s + d + n)"
      using Suc.IH [of ?m "Suc s"] Suc.prems False p by auto
    then show ?thesis using ok False by (subst incremental_copy_loop.simps) simp
  qed
qed

lemma doubled_offset_bound:
  fixes d :: nat
  assumes "2 ^ k * d < 8" "0 < d"
  shows "2 ^ k * d \<le> d + 3"
proof (cases "k \<le> 2")
  case True
  then consider "k = 0" | "k = 1" | "k = 2" by linarith
  then show ?thesis using assms by cases auto
next
  case False
  then have "(2::nat) ^ 3 \<le> 2 ^ k" by (intro power_increasing) auto
  then have "8 * 1 \<le> 2 ^ k * d" using assms(2) by (intro mult_le_mono) auto
  then show ?thesis using assms by simp
qed

text \<open>What the fast path needs of the copy of eight bytes: it continues a pattern as far as its source had been written.\<close>

locale block_copy =
  fixes cp :: "buffer \<Rightarrow> nat \<Rightarrow> nat \<Rightarrow> buffer c_result"
  assumes extends: "periodic b src d mem n \<Longrightarrow> src \<le> s \<Longrightarrow> s < n \<Longrightarrow> d dvd (n - s) \<Longrightarrow> n + 8 \<le> length mem \<Longrightarrow>
    \<exists>mem'. cp mem s n = Inr mem' \<and> periodic b src d mem' (n + min 8 (n - s))"
begin

lemma expand_pattern_periodic:
  assumes "periodic b src d mem (src + 2 ^ k * d)" "0 < d"
    and "src + d + 11 \<le> length mem" "(8::nat) \<le> 2 ^ (k + fuel)"
  shows "\<exists>mem' j. expand_pattern cp (Suc fuel) mem src (src + 2 ^ k * d) len =
             Inr (mem', src + 2 ^ j * d, len - int (2 ^ j * d) + int (2 ^ k * d))
           \<and> 8 \<le> 2 ^ j * d \<and> periodic b src d mem' (src + 2 ^ j * d)"
  using assms
proof (induction fuel arbitrary: k mem len)
  case 0
  have "8 * 1 \<le> 2 ^ k * d" using 0 by (intro mult_le_mono) auto
  then have "8 \<le> 2 ^ k * d" by simp
  then have "expand_pattern cp (Suc 0) mem src (src + D) len = Inr (mem, src + D, len)" if "D = 2 ^ k * d" for D
    using that [symmetric] by simp
  then show ?case using 0 \<open>8 \<le> 2 ^ k * d\<close> by (intro exI [of _ mem] exI [of _ k]) simp
next
  case (Suc fuel)
  define D where "D = 2 ^ k * d"
  show ?case
  proof (cases "D < 8")
    case True
    have "D \<le> d + 3" "0 < D" using True Suc.prems(2) doubled_offset_bound [of k d] by (simp_all add: D_def)
    moreover have "d dvd D" by (simp add: D_def)
    ultimately obtain mem' where m: "cp mem src (src + D) = Inr mem'"
        "periodic b src d mem' (src + D + min 8 D)"
      using extends [OF Suc.prems(1), of src] Suc.prems(3) by (auto simp flip: D_def)
    have D2: "2 ^ Suc k * d = D + D" by (simp add: D_def)
    have p: "periodic b src d mem' (src + 2 ^ Suc k * d)"
      unfolding D2 using m(2) True by (simp add: add.assoc)
    have "length mem' = length mem" using m(2) Suc.prems(1) by (simp add: periodic_def)
    then obtain mem2 j where j: "expand_pattern cp (Suc fuel) mem' src (src + (D + D)) (len - int D) =
          Inr (mem2, src + 2 ^ j * d, len - int D - int (2 ^ j * d) + int (D + D))"
        "8 \<le> 2 ^ j * d" "periodic b src d mem2 (src + 2 ^ j * d)"
      using Suc.IH [OF p, of "len - int D"] Suc.prems unfolding D2 by auto
    have "expand_pattern cp (Suc (Suc fuel)) mem src (src + D) len =
            expand_pattern cp (Suc fuel) mem' src (src + (D + D)) (len - int D)"
    proof -
      have "nat (int (src + D) + (int (src + D) - int src)) = src + (D + D)"
        and "int (src + D) - int src = int D" by simp_all
      then show ?thesis using True m(1) by (subst expand_pattern.simps) (simp only: if_True cbind_Inr of_nat_less_numeral_iff)
    qed
    then show ?thesis using j unfolding D_def [symmetric] by auto
  next
    case False
    then have "expand_pattern cp (Suc (Suc fuel)) mem src (src + D) len = Inr (mem, src + D, len)"
      by simp
    then show ?thesis
      using False Suc.prems(1) unfolding D_def [symmetric] by (intro exI [of _ mem] exI [of _ k]) (simp add: D_def)
  qed
qed

lemma copy_blocks_periodic:
  assumes "periodic b src d mem n" "src \<le> s" "s + 8 \<le> n" "d dvd (n - s)"
    and "len > 0 \<longrightarrow> int n + len + 7 \<le> int (length mem)"
  shows "\<exists>mem'. copy_blocks cp mem s n len = Inr mem' \<and> periodic b src d mem' (nat (int n + max 0 len))"
  using assms
proof (induction "nat len" arbitrary: mem s n len rule: less_induct)
  case (less len mem s n)
  show ?case
  proof (cases "len > 0")
    case False
    then show ?thesis using less.prems(1) by (subst copy_blocks.simps) simp
  next
    case True
    obtain mem' where m: "cp mem s n = Inr mem'" "periodic b src d mem' (n + 8)"
    proof -
      have "min 8 (n - s) = 8" "s < n" "n + 8 \<le> length mem" using less.prems(3,5) True by auto
      then show ?thesis using extends [of b src d mem n s] less.prems(1,2,4) that by auto
    qed
    have l: "length mem' = length mem" using m(2) less.prems(1) by (simp add: periodic_def)
    obtain mem2 where m2: "copy_blocks cp mem' (s + 8) (n + 8) (len - 8) = Inr mem2"
        "periodic b src d mem2 (nat (int (n + 8) + max 0 (len - 8)))"
      using less.hyps [OF _ m(2), of "len - 8" "s + 8"] True less.prems l by auto
    have "periodic b src d mem2 (nat (int n + max 0 len))"
      using m2(2) by (rule periodic_weaken) auto
    then show ?thesis using True m(1) m2(1) by (subst copy_blocks.simps) simp
  qed
qed

lemma fast_path_periodic:
  assumes "0 < d" "0 < n" "src + d + n + 10 \<le> length b"
  shows "\<exists>mem'. fast_path_with cp b src (src + d) (int n) = Inr mem'
           \<and> periodic b src d mem' (src + d + n)"
proof -
  obtain mem1 j where m: "expand_pattern cp 4 b src (src + d) (int n) =
        Inr (mem1, src + 2 ^ j * d, int n - int (2 ^ j * d) + int d)"
      "8 \<le> 2 ^ j * d" "periodic b src d mem1 (src + 2 ^ j * d)"
    using expand_pattern_periodic [of b src d b 0 3 "int n"] periodic_init [of b src d] assms
    by (auto simp del: expand_pattern.simps)
  let ?l = "int n - int (2 ^ j * d) + int d"
  have "length mem1 = length b" using m(3) by (simp add: periodic_def)
  then obtain mem2 where m2: "copy_blocks cp mem1 src (src + 2 ^ j * d) ?l = Inr mem2"
      "periodic b src d mem2 (nat (int (src + 2 ^ j * d) + max 0 ?l))"
    using copy_blocks_periodic [of b src d mem1 "src + 2 ^ j * d" src ?l] m(2,3) assms by auto
  have "periodic b src d mem2 (src + d + n)"
    using m2(2) by (rule periodic_weaken) (auto simp: max_def)
  then show ?thesis using m(1) m2(1) by (simp add: fast_path_with_def)
qed

end

interpretation copy64: block_copy "\<lambda>mem src op. unaligned_copy64 mem src mem op"
  by unfold_locales (rule periodic_copy64)

section \<open>The writer implements expansion\<close>

text \<open>\<open>holds w out\<close>: the writer has produced \<open>out\<close> and may produce \<open>w_op_limit w\<close> bytes in all.\<close>

definition holds :: "writer \<Rightarrow> buffer \<Rightarrow> bool" where
  "holds w out \<longleftrightarrow> w_base w = 0 \<and> w_op w = length out \<and> length out \<le> w_op_limit w \<and>
     w_op_limit w \<le> length (wmem w) \<and> w_op_limit w < 2 ^ 32 \<and> take (length out) (wmem w) = out"

text \<open>A later state of a writer: its extent is the same, and what had been produced is still there.\<close>

definition grows :: "writer \<Rightarrow> writer \<Rightarrow> bool" where
  "grows w w' \<longleftrightarrow> w_op_limit w' = w_op_limit w \<and> length (wmem w') = length (wmem w)
     \<and> w_op w \<le> w_op w' \<and> take (w_op w) (wmem w') = take (w_op w) (wmem w)"

lemma grows_refl [simp]: "grows w w"
  by (simp add: grows_def)

lemma grows_trans [trans]: "grows a b \<Longrightarrow> grows b c \<Longrightarrow> grows a c"
proof -
  assume g: "grows a b" "grows b c"
  then have "w_op a \<le> w_op b" by (simp add: grows_def)
  then have "take (w_op a) (wmem c) = take (w_op a) (take (w_op b) (wmem c))" by (simp add: min_absorb1)
  also have "\<dots> = take (w_op a) (wmem b)" using g(2) \<open>w_op a \<le> w_op b\<close> by (simp add: grows_def min_absorb1)
  finally show "grows a c" using g by (simp add: grows_def)
qed

lemma grows_holds: "grows w w' \<Longrightarrow> holds w out \<Longrightarrow> take (length out) (wmem w') = out"
  by (simp add: grows_def holds_def)

lemma unat_space_left: "holds w out \<Longrightarrow>
    unat (word_of_nat (w_op_limit w - length out) :: u32) = w_op_limit w - length out"
  by (rule unat_u32) (auto simp: holds_def)

lemma writer_append_ok:
  assumes h: "holds w out" and bs: "ip + unat len \<le> length src" "bs = take (unat len) (drop ip src)"
  shows "writer_append w src ip len =
           (if length out + unat len \<le> w_op_limit w
            then Inr (True, w\<lparr>wmem := take (length out) (wmem w) @ bs @ drop (length out + unat len) (wmem w),
                              w_op := length out + unat len\<rparr>)
            else Inr (False, w))"
proof -
  note u = unat_space_left [OF h]
  have "(word_of_nat (w_op_limit w - length out) :: u32) < len \<longleftrightarrow> w_op_limit w < length out + unat len"
    using h u by (auto simp: word_less_nat_alt holds_def)
  moreover have "length bs = unat len" using bs by simp
  ultimately show ?thesis
    using h bs by (auto simp: writer_append_def Let_def holds_def mem_simps)
qed

lemma writer_append_holds:
  assumes h: "holds w out" and bs: "ip + unat len \<le> length src"
    and room: "length out + unat len \<le> w_op_limit w"
  shows "\<exists>w'. writer_append w src ip len = Inr (True, w')
           \<and> holds w' (out @ take (unat len) (drop ip src)) \<and> grows w w'"
  using writer_append_ok [OF h bs refl] room h bs
  by (auto simp: holds_def grows_def)

lemma writer_append_full:
  assumes "holds w out" "ip + unat len \<le> length src" "\<not> length out + unat len \<le> w_op_limit w"
  shows "writer_append w src ip len = Inr (False, w)"
  using writer_append_ok [OF assms(1,2) refl] assms(3) by simp

text \<open>The sixteen-byte append either does not apply or appends the literal.\<close>

lemma writer_try_fast_append_holds:
  assumes h: "holds w out" and ip: "ip + unat avail \<le> length src"
  shows "writer_try_fast_append w src ip avail len = Inr (False, w) \<or>
         (\<exists>w'. writer_try_fast_append w src ip avail len = Inr (True, w') \<and> unat len \<le> unat avail
            \<and> unat len \<le> 16 \<and> length out + unat len \<le> w_op_limit w
            \<and> holds w' (out @ take (unat len) (drop ip src)) \<and> grows w w')"
proof -
  let ?d = "int (w_op_limit w) - int (w_op w)"
  let ?space = "sint (word_of_int ?d :: 32 word)"
  show ?thesis
  proof (cases "len \<le> 16 \<and> avail \<ge> 16 \<and> ?space \<ge> 16")
    case False
    then show ?thesis by (auto simp: writer_try_fast_append_def Let_def)
  next
    case True
    have d: "0 \<le> ?d" "?d < 2 ^ 32" using h by (auto simp: holds_def)
    have "?space \<le> ?d" using d by (rule sint_u32_le)
    then have room: "length out + 16 \<le> w_op_limit w" using True h by (auto simp: holds_def)
    have n: "unat len \<le> 16" "16 \<le> unat avail"
      using True by (simp_all add: word_le_nat_alt)
    let ?o = "length out" and ?m = "wmem w" and ?x = "take 16 (drop ip src)"
    have x: "length ?x = 16" "?x = take 8 (drop ip src) @ take 8 (drop (ip + 8) src)"
      using ip n take_add [of 8 8 "drop ip src"] by (auto simp: add.commute)
    let ?m1 = "take ?o ?m @ take 8 (drop ip src) @ drop (?o + 8) ?m"
    let ?m2 = "take (?o + 8) ?m1 @ take 8 (drop (ip + 8) src) @ drop (?o + 8 + 8) ?m1"
    have lim: "w_op_limit w \<le> length ?m" "w_op w = ?o" using h by (simp_all add: holds_def)
    have c: "unaligned_copy64 src ip ?m ?o = Inr ?m1" "unaligned_copy64 src (ip + 8) ?m1 (?o + 8) = Inr ?m2"
      using ip n room lim by (auto simp: mem_simps)
    have m2: "?m2 = take ?o ?m @ ?x @ drop (?o + 16) ?m"
      unfolding x(2) using ip n room lim by (simp add: add.commute)
    let ?w = "w\<lparr>wmem := ?m2, w_op := ?o + unat len\<rparr>"
    have "writer_try_fast_append w src ip avail len = Inr (True, ?w)"
      using True c lim by (simp add: writer_try_fast_append_def Let_def)
    moreover have "take (unat len) ?x = take (unat len) (drop ip src)" using n by (simp add: min_def)
    then have "holds ?w (out @ take (unat len) (drop ip src))"
      unfolding m2 using h room n x(1) by (auto simp: holds_def)
    moreover have "grows w ?w"
      unfolding m2 using room x(1) lim by (simp add: grows_def)
    ultimately show ?thesis using n room by auto
  qed
qed

text \<open>The test with \<^verbatim>\<open>offset - 1u\<close> rejects a zero offset and one that reaches before the output.\<close>

lemma offset_check:
  fixes offset :: u32
  assumes "holds w out"
  shows "int (w_op w) - int (w_base w) \<le> uint (offset - 1) \<longleftrightarrow> \<not> (0 < unat offset \<and> unat offset \<le> length out)"
proof (cases "offset = 0")
  case True
  have "uint (-1 :: u32) = 2 ^ 32 - 1" by (simp add: unsigned_minus_1_eq_mask mask_eq_exp_minus_1)
  then show ?thesis using True assms by (auto simp: holds_def)
next
  case False
  then have "1 \<le> offset" by (simp add: word_le_nat_alt Suc_le_eq unat_gt_0)
  then have "uint (offset - 1) = uint offset - 1"
    using uint_minus_simple_alt [of 1 offset] by simp
  moreover have "0 < unat offset" using False by (simp add: unat_gt_0)
  moreover have "uint offset = int (unat offset)" by simp
  ultimately show ?thesis using assms by (auto simp: holds_def simp del: of_nat_unat)
qed

lemma holds_self_copy:
  assumes h: "holds w out" and off: "0 < d" "d \<le> length out" and room: "length out + n \<le> w_op_limit w"
    and p: "periodic (wmem w) (length out - d) d mem (length out + n)"
  shows "holds (w\<lparr>wmem := mem, w_op := length out + n\<rparr>) (self_copy d n out) \<and>
         grows w (w\<lparr>wmem := mem, w_op := length out + n\<rparr>)"
proof -
  have "take (length out + n) mem = self_copy d n out"
    using h room by (intro periodic_self_copy [OF p off]) (auto simp: holds_def)
  moreover from this have "take (length out) mem = take (length out) (self_copy d n out)"
    by (metis le_add1 min_absorb1 take_take)
  then have "take (length out) mem = out" by (simp only: take_self_copy)
  ultimately show ?thesis
    using h room p by (simp add: holds_def grows_def periodic_def)
qed

lemma writer_append_from_self_ok:
  assumes h: "holds w out" and len: "0 < unat len" "unat len \<le> 64"
  shows "if 0 < unat offset \<and> unat offset \<le> length out \<and> length out + unat len \<le> w_op_limit w
         then \<exists>w'. writer_append_from_self w offset len = Inr (True, w')
                \<and> holds w' (self_copy (unat offset) (unat len) out) \<and> grows w w'
         else writer_append_from_self w offset len = Inr (False, w)"
proof -
  let ?o = "length out" and ?d = "unat offset" and ?n = "unat len" and ?L = "w_op_limit w"
  let ?sp = "word_of_nat (?L - ?o) :: u32"
  have st: "w_op w = ?o" "?o \<le> ?L" "?L \<le> length (wmem w)" "w_base w = 0"
    using h by (simp_all add: holds_def)
  have sp: "unat ?sp = ?L - ?o" by (rule unat_space_left [OF h])
  have n10: "unat (len + kmax_increment_copy_overflow) = ?n + 10"
    using len by (simp add: kmax_increment_copy_overflow_def unat_word_ariths)
  note cmp = word_le_nat_alt word_less_nat_alt sp n10
  show ?thesis
  proof (cases "0 < ?d \<and> ?d \<le> ?o")
    case False
    then have "writer_append_from_self w offset len = Inr (False, w)"
      using offset_check [OF h, of offset] st by (simp add: writer_append_from_self_def Let_def)
    then show ?thesis using False by auto
  next
    case off: True
    then have chk: "\<not> int ?o \<le> uint (offset - 1)" using offset_check [OF h, of offset] st by simp
    define s where "s = ?o - ?d"
    have s: "s + ?d = ?o" "?o - s = ?d" "s < ?o" using off by (auto simp: s_def)
    have fin: "holds (w\<lparr>wmem := mem, w_op := ?o + ?n\<rparr>) (self_copy ?d ?n out) \<and>
        grows w (w\<lparr>wmem := mem, w_op := ?o + ?n\<rparr>)"
      if "periodic (wmem w) s ?d mem (?o + ?n)" "?o + ?n \<le> ?L" for mem
      using holds_self_copy [OF h _ _ that(2)] off that(1) unfolding s_def by blast
    consider (fast) "?n \<le> 16" "8 \<le> ?d" "16 \<le> ?L - ?o"
      | (pattern) "\<not> (?n \<le> 16 \<and> 8 \<le> ?d \<and> 16 \<le> ?L - ?o)" "?n + 10 \<le> ?L - ?o"
      | (full) "\<not> (?n \<le> 16 \<and> 8 \<le> ?d \<and> 16 \<le> ?L - ?o)" "\<not> ?n + 10 \<le> ?L - ?o" "?L - ?o < ?n"
      | (slow) "\<not> (?n \<le> 16 \<and> 8 \<le> ?d \<and> 16 \<le> ?L - ?o)" "\<not> ?n + 10 \<le> ?L - ?o" "?n \<le> ?L - ?o"
      by linarith
    then show ?thesis
    proof cases
      case fast
      then have cap: "?o + 16 \<le> length (wmem w)" using st by linarith
      obtain m1 where m1: "unaligned_copy64 (wmem w) s (wmem w) ?o = Inr m1"
          "periodic (wmem w) s ?d m1 (?o + 8)"
        using periodic_copy64 [OF periodic_init [of "wmem w" s ?d], of s] s fast cap off
        unfolding s(1) by auto
      have "length m1 = length (wmem w)" using m1(2) by (simp add: periodic_def)
      then obtain m2 where m2: "unaligned_copy64 m1 (s + 8) m1 (?o + 8) = Inr m2"
          "periodic (wmem w) s ?d m2 (?o + 16)"
        using periodic_copy64 [OF m1(2), of "s + 8"] s fast cap off by (auto simp: add.commute)
      have "writer_append_from_self w offset len = Inr (True, w\<lparr>wmem := m2, w_op := ?o + ?n\<rparr>)"
        using chk st fast m1(1) m2(1)
        by (simp add: writer_append_from_self_def Let_def cmp del: of_nat_diff flip: s_def)
      then show ?thesis
        using fin [of m2] periodic_weaken [OF m2(2), of "?o + ?n"] fast st off by auto
    next
      case pattern
      then have cap: "?o + ?n + 10 \<le> length (wmem w)" using st by linarith
      obtain m where m: "incremental_copy_fast_path (wmem w) s ?o (int ?n) = Inr m"
          "periodic (wmem w) s ?d m (?o + ?n)"
        using copy64.fast_path_periodic [of ?d ?n s "wmem w"] off len(1) cap s(1) unfolding incremental_copy_fast_path_def by auto
      have "writer_append_from_self w offset len = Inr (True, w\<lparr>wmem := m, w_op := ?o + ?n\<rparr>)"
        using chk st pattern m(1)
        by (auto simp: writer_append_from_self_def Let_def cmp simp del: of_nat_diff simp flip: s_def)
      then show ?thesis using fin [OF m(2)] pattern st off by auto
    next
      case full
      then have "writer_append_from_self w offset len = Inr (False, w)"
        using chk st by (auto simp: writer_append_from_self_def Let_def cmp simp del: of_nat_diff)
      then show ?thesis using full st by auto
    next
      case slow
      then have cap: "?o + ?n \<le> length (wmem w)" using st by linarith
      obtain m where m: "incremental_copy_loop (wmem w) s ?o (int ?n) = Inr m"
          "periodic (wmem w) s ?d m (?o + ?n)"
        using incremental_copy_loop_periodic [OF periodic_init [of "wmem w" s ?d], of ?n] off len(1) cap s(1)
        by auto
      have "0 < int (unat len)" using len(1) by linarith
      then have "0 < uint len" by simp
      then have "writer_append_from_self w offset len = Inr (True, w\<lparr>wmem := m, w_op := ?o + ?n\<rparr>)"
        using chk st slow m(1)
        by (auto simp: writer_append_from_self_def incremental_copy_def Let_def cmp simp del: of_nat_diff simp flip: s_def)
      then show ?thesis using fin [OF m(2)] slow st off by auto
    qed
  qed
qed

end
