(* ===== verification/Snappy_Decompress.thy ===== *)
theory Snappy_Decompress
  imports Snappy_Source Snappy_Writer Snappy_Emit
begin

text \<open>
  The decompressor of \<^verbatim>\<open>snappy.c\<close>: \<^verbatim>\<open>struct snappy_decompressor\<close>, \<^verbatim>\<open>read_uncompressed_length\<close>,
  \<^verbatim>\<open>refill_tag\<close>, \<^verbatim>\<open>decompress_all_tags\<close>, \<^verbatim>\<open>internal_uncompress\<close> and \<^verbatim>\<open>snappy_uncompress\<close>. The
  definitions take the operations of the byte source as parameters; inside the
  locale of sources they are proved to implement the reference decoder of the format on every input,
  without a failed assertion and without an access outside the source or the output.
\<close>

section \<open>Tables\<close>

definition wordmask :: "u32 list" where
  "wordmask = [0, 0xff, 0xffff, 0xffffff, 0xffffffff]"

definition char_table :: "u16 list" where
  "char_table = [
    0x0001, 0x0804, 0x1001, 0x2001, 0x0002, 0x0805, 0x1002, 0x2002,
    0x0003, 0x0806, 0x1003, 0x2003, 0x0004, 0x0807, 0x1004, 0x2004,
    0x0005, 0x0808, 0x1005, 0x2005, 0x0006, 0x0809, 0x1006, 0x2006,
    0x0007, 0x080a, 0x1007, 0x2007, 0x0008, 0x080b, 0x1008, 0x2008,
    0x0009, 0x0904, 0x1009, 0x2009, 0x000a, 0x0905, 0x100a, 0x200a,
    0x000b, 0x0906, 0x100b, 0x200b, 0x000c, 0x0907, 0x100c, 0x200c,
    0x000d, 0x0908, 0x100d, 0x200d, 0x000e, 0x0909, 0x100e, 0x200e,
    0x000f, 0x090a, 0x100f, 0x200f, 0x0010, 0x090b, 0x1010, 0x2010,
    0x0011, 0x0a04, 0x1011, 0x2011, 0x0012, 0x0a05, 0x1012, 0x2012,
    0x0013, 0x0a06, 0x1013, 0x2013, 0x0014, 0x0a07, 0x1014, 0x2014,
    0x0015, 0x0a08, 0x1015, 0x2015, 0x0016, 0x0a09, 0x1016, 0x2016,
    0x0017, 0x0a0a, 0x1017, 0x2017, 0x0018, 0x0a0b, 0x1018, 0x2018,
    0x0019, 0x0b04, 0x1019, 0x2019, 0x001a, 0x0b05, 0x101a, 0x201a,
    0x001b, 0x0b06, 0x101b, 0x201b, 0x001c, 0x0b07, 0x101c, 0x201c,
    0x001d, 0x0b08, 0x101d, 0x201d, 0x001e, 0x0b09, 0x101e, 0x201e,
    0x001f, 0x0b0a, 0x101f, 0x201f, 0x0020, 0x0b0b, 0x1020, 0x2020,
    0x0021, 0x0c04, 0x1021, 0x2021, 0x0022, 0x0c05, 0x1022, 0x2022,
    0x0023, 0x0c06, 0x1023, 0x2023, 0x0024, 0x0c07, 0x1024, 0x2024,
    0x0025, 0x0c08, 0x1025, 0x2025, 0x0026, 0x0c09, 0x1026, 0x2026,
    0x0027, 0x0c0a, 0x1027, 0x2027, 0x0028, 0x0c0b, 0x1028, 0x2028,
    0x0029, 0x0d04, 0x1029, 0x2029, 0x002a, 0x0d05, 0x102a, 0x202a,
    0x002b, 0x0d06, 0x102b, 0x202b, 0x002c, 0x0d07, 0x102c, 0x202c,
    0x002d, 0x0d08, 0x102d, 0x202d, 0x002e, 0x0d09, 0x102e, 0x202e,
    0x002f, 0x0d0a, 0x102f, 0x202f, 0x0030, 0x0d0b, 0x1030, 0x2030,
    0x0031, 0x0e04, 0x1031, 0x2031, 0x0032, 0x0e05, 0x1032, 0x2032,
    0x0033, 0x0e06, 0x1033, 0x2033, 0x0034, 0x0e07, 0x1034, 0x2034,
    0x0035, 0x0e08, 0x1035, 0x2035, 0x0036, 0x0e09, 0x1036, 0x2036,
    0x0037, 0x0e0a, 0x1037, 0x2037, 0x0038, 0x0e0b, 0x1038, 0x2038,
    0x0039, 0x0f04, 0x1039, 0x2039, 0x003a, 0x0f05, 0x103a, 0x203a,
    0x003b, 0x0f06, 0x103b, 0x203b, 0x003c, 0x0f07, 0x103c, 0x203c,
    0x0801, 0x0f08, 0x103d, 0x203d, 0x1001, 0x0f09, 0x103e, 0x203e,
    0x1801, 0x0f0a, 0x103f, 0x203f, 0x2001, 0x0f0b, 0x1040, 0x2040]"

definition array_get :: "'a list \<Rightarrow> nat \<Rightarrow> 'a c_result" where
  "array_get xs i = (if i < length xs then Inr (xs ! i) else Inl Invalid_access)"

section \<open>State\<close>

text \<open>
  \<^verbatim>\<open>ip\<close> and \<^verbatim>\<open>ip_limit\<close> are positions in the object \<open>cur\<close>: the fragment last peeked from the
  reader, or \<^verbatim>\<open>scratch\<close>; \<^verbatim>\<open>None\<close> is the \<^verbatim>\<open>NULL\<close> of both pointers before the first refill.
\<close>

record 's decompressor =
  reader :: 's
  cur :: "buffer option"
  d_ip :: nat
  ip_limit :: nat
  peeked :: u32
  eof :: bool
  scratch :: buffer

definition obj :: "'s decompressor \<Rightarrow> buffer" where
  "obj d = (case cur d of None \<Rightarrow> [] | Some b \<Rightarrow> b)"

text \<open>\<^verbatim>\<open>scratch\<close> is not initialised: its first contents are a parameter.\<close>

definition init_snappy_decompressor :: "'s \<Rightarrow> buffer \<Rightarrow> 's decompressor" where
  "init_snappy_decompressor r scratch0 =
     \<lparr>reader = r, cur = None, d_ip = 0, ip_limit = 0, peeked = 0, eof = False, scratch = scratch0\<rparr>"

definition exit_snappy_decompressor ::
    "('s \<Rightarrow> nat \<Rightarrow> 's c_result) \<Rightarrow> 's decompressor \<Rightarrow> 's decompressor c_result" where
  "exit_snappy_decompressor sk d =
     cbind (sk (reader d) (unat (peeked d))) (\<lambda>r. Inr (d\<lparr>reader := r\<rparr>))"

section \<open>Reading the length header\<close>

function read_length_loop ::
    "('s \<Rightarrow> buffer \<times> nat) \<Rightarrow> ('s \<Rightarrow> nat \<Rightarrow> 's c_result) \<Rightarrow> 's \<Rightarrow> nat \<Rightarrow> u32 \<Rightarrow> (u32 option \<times> 's) c_result" where
  "read_length_loop pk sk r shift result =
     (if shift \<ge> 32 then Inr (None, r)
      else (case pk r of (ip, n) \<Rightarrow>
        if n = 0 then Inr (None, r)
        else
          cbind (load8 ip 0) (\<lambda>c.
          cbind (sk r 1) (\<lambda>r.
            let result = result OR push_bit shift (ucast (c AND 0x7f)) in
            if c < 128 then Inr (Some result, r)
            else read_length_loop pk sk r (shift + 7) result))))"
  by pat_completeness auto
termination
  by (relation "measure (\<lambda>(pk, sk, r, shift, result). 32 - shift)") auto

declare read_length_loop.simps [simp del]

text \<open>\<^verbatim>\<open>Some v\<close> is the return value true with \<open>v\<close> in \<^verbatim>\<open>*result\<close>.\<close>

definition read_uncompressed_length ::
    "('s \<Rightarrow> buffer \<times> nat) \<Rightarrow> ('s \<Rightarrow> nat \<Rightarrow> 's c_result) \<Rightarrow> 's decompressor \<Rightarrow>
     (u32 option \<times> 's decompressor) c_result" where
  "read_uncompressed_length pk sk d =
     cbind (cassert (cur d = None)) (\<lambda>_.
     cbind (read_length_loop pk sk (reader d) 0 0) (\<lambda>(v, r). Inr (v, d\<lparr>reader := r\<rparr>)))"

section \<open>Refilling\<close>

text \<open>
  The loop of \<^verbatim>\<open>refill_tag\<close> that stitches the bytes of a tag together in \<^verbatim>\<open>scratch\<close>.
  \<^verbatim>\<open>min_t(u32, ...)\<close> truncates the fragment length to 32 bits: with a multiple of \<^verbatim>\<open>2^32\<close> the iteration would
  repeat itself for ever.
\<close>

function stitch ::
    "('s \<Rightarrow> buffer \<times> nat) \<Rightarrow> ('s \<Rightarrow> nat \<Rightarrow> 's c_result) \<Rightarrow> 's \<Rightarrow> buffer \<Rightarrow> nat \<Rightarrow> nat \<Rightarrow>
     (bool \<times> 's \<times> buffer \<times> nat) c_result" where
  "stitch pk sk r scr nbuf needed =
     (if nbuf < needed then
        (case pk r of (src, len) \<Rightarrow>
          if len = 0 then Inr (False, r, scr, nbuf)
          else
            let to_add = min (needed - nbuf) (unat (word_of_nat len :: u32)) in
            if to_add = 0 then Inl Nontermination
            else
              cbind (load_bytes src 0 to_add) (\<lambda>bs.
              cbind (store_bytes scr nbuf bs) (\<lambda>scr.
              cbind (sk r to_add) (\<lambda>r.
                stitch pk sk r scr (nbuf + to_add) needed))))
      else Inr (True, r, scr, nbuf))"
  by pat_completeness auto
termination
  by (relation "measure (\<lambda>(pk, sk, r, scr, nbuf, needed). needed - nbuf)") auto

declare stitch.simps [simp del]

text \<open>
  \<^verbatim>\<open>refill_tag\<close> in two parts: the next fragment of the reader when the current one is used up, and
  the bytes of the next tag brought together when they straddle fragments.
\<close>

definition fetch_fragment ::
    "('s \<Rightarrow> buffer \<times> nat) \<Rightarrow> ('s \<Rightarrow> nat \<Rightarrow> 's c_result) \<Rightarrow> 's decompressor \<Rightarrow>
     (bool \<times> 's decompressor) c_result" where
  "fetch_fragment pk sk d =
     (if d_ip d = ip_limit d then
        cbind (sk (reader d) (unat (peeked d))) (\<lambda>r.
          case pk r of (m, n) \<Rightarrow>
            let d = d\<lparr>reader := r, peeked := word_of_nat n\<rparr> in
            if n = 0 then Inr (False, d\<lparr>eof := True\<rparr>)
            else Inr (True, d\<lparr>cur := Some m, d_ip := 0, ip_limit := n\<rparr>))
      else Inr (True, d))"

definition complete_tag ::
    "('s \<Rightarrow> buffer \<times> nat) \<Rightarrow> ('s \<Rightarrow> nat \<Rightarrow> 's c_result) \<Rightarrow> 's decompressor \<Rightarrow>
     (bool \<times> 's decompressor) c_result" where
  "complete_tag pk sk d =
    (let ip = d_ip d in
     cbind (cassert (ip < ip_limit d)) (\<lambda>_.
     cbind (load8 (obj d) ip) (\<lambda>c.
     cbind (array_get char_table (unat c)) (\<lambda>entry.
     let needed = unat (drop_bit 11 (ucast entry :: u32) + 1) in
     cbind (cassert (needed \<le> 5)) (\<lambda>_.
     let nbuf = unat (word_of_nat (ip_limit d - ip) :: u32) in
     if nbuf < needed then
       cbind (load_bytes (obj d) ip nbuf) (\<lambda>bs.
       cbind (store_bytes (scratch d) 0 bs) (\<lambda>scr.
       cbind (sk (reader d) (unat (peeked d))) (\<lambda>r.
       let d = d\<lparr>peeked := 0\<rparr> in
       cbind (stitch pk sk r scr nbuf needed) (\<lambda>(ok, r, scr, nbuf).
       if \<not> ok then Inr (False, d\<lparr>reader := r, scratch := scr\<rparr>)
       else
         cbind (cassert (nbuf = needed)) (\<lambda>_.
           Inr (True, d\<lparr>reader := r, scratch := scr, cur := Some scr, d_ip := 0, ip_limit := needed\<rparr>))))))
     else if nbuf < 5 then
       cbind (load_bytes (obj d) ip nbuf) (\<lambda>bs.
       cbind (store_bytes (scratch d) 0 bs) (\<lambda>scr.
       cbind (sk (reader d) (unat (peeked d))) (\<lambda>r.
         Inr (True, d\<lparr>reader := r, peeked := 0, scratch := scr, cur := Some scr, d_ip := 0,
                     ip_limit := nbuf\<rparr>))))
     else Inr (True, d\<lparr>d_ip := ip\<rparr>))))))"

definition refill_tag ::
    "('s \<Rightarrow> buffer \<times> nat) \<Rightarrow> ('s \<Rightarrow> nat \<Rightarrow> 's c_result) \<Rightarrow> 's decompressor \<Rightarrow>
     (bool \<times> 's decompressor) c_result" where
  "refill_tag pk sk d =
     cbind (fetch_fragment pk sk d) (\<lambda>(ok, d).
       if ok then complete_tag pk sk d else Inr (False, d))"

text \<open>The macro \<^verbatim>\<open>MAYBE_REFILL\<close>; \<^verbatim>\<open>None\<close> is its \<^verbatim>\<open>return\<close>.\<close>

definition maybe_refill ::
    "('s \<Rightarrow> buffer \<times> nat) \<Rightarrow> ('s \<Rightarrow> nat \<Rightarrow> 's c_result) \<Rightarrow> 's decompressor \<Rightarrow> nat \<Rightarrow>
     (nat option \<times> 's decompressor) c_result" where
  "maybe_refill pk sk d ip =
     (if int (ip_limit d) - int ip < 5 then
        cbind (refill_tag pk sk (d\<lparr>d_ip := ip\<rparr>)) (\<lambda>(ok, d).
          Inr (if ok then Some (d_ip d) else None, d))
      else Inr (Some ip, d))"

section \<open>The tag loop\<close>

text \<open>
  The loop \<^verbatim>\<open>while (avail < literal_length)\<close>, with an iteration budget. \<^verbatim>\<open>None\<close> is a \<^verbatim>\<open>return\<close> from
  \<^verbatim>\<open>decompress_all_tags\<close>.
\<close>

fun literal_loop ::
    "nat \<Rightarrow> ('s \<Rightarrow> buffer \<times> nat) \<Rightarrow> ('s \<Rightarrow> nat \<Rightarrow> 's c_result) \<Rightarrow> 's decompressor \<Rightarrow> writer \<Rightarrow>
     nat \<Rightarrow> u32 \<Rightarrow> u32 \<Rightarrow> ((nat \<times> u32) option \<times> 's decompressor \<times> writer) c_result" where
  "literal_loop 0 pk sk d w ip avail literal_length = Inl Nontermination"
| "literal_loop (Suc fuel) pk sk d w ip avail literal_length =
     (if avail < literal_length then
        cbind (writer_append w (obj d) ip avail) (\<lambda>(ok, w).
        if \<not> ok then Inr (None, d, w)
        else
          let literal_length = literal_length - avail in
          cbind (sk (reader d) (unat (peeked d))) (\<lambda>r.
          case pk r of (m, n) \<Rightarrow>
            let avail = word_of_nat n; d = d\<lparr>reader := r, peeked := avail\<rparr> in
            if avail = 0 then Inr (None, d, w)
            else literal_loop fuel pk sk (d\<lparr>cur := Some m, ip_limit := unat avail\<rparr>) w 0 avail literal_length))
      else Inr (Some (ip, literal_length), d, w))"

definition long_literal_length :: "buffer \<Rightarrow> nat \<Rightarrow> u32 \<Rightarrow> (u32 \<times> nat) c_result" where
  "long_literal_length b ip literal_length =
     (if literal_length \<ge> 61 then
        let literal_ll = literal_length - 60 in
        cbind (get_unaligned_le32 b ip) (\<lambda>v.
        cbind (array_get wordmask (unat literal_ll)) (\<lambda>m.
          Inr ((v AND m) + 1, ip + unat literal_ll)))
      else Inr (literal_length, ip))"

text \<open>
  One pass of the \<^verbatim>\<open>for (;;)\<close> body after the tag byte \<open>c\<close> has been read: a literal, or a back
  reference. \<^verbatim>\<open>None\<close> is a \<^verbatim>\<open>return\<close>.
\<close>

definition literal_tag ::
    "nat \<Rightarrow> ('s \<Rightarrow> buffer \<times> nat) \<Rightarrow> ('s \<Rightarrow> nat \<Rightarrow> 's c_result) \<Rightarrow> 's decompressor \<Rightarrow> writer \<Rightarrow>
     nat \<Rightarrow> u8 \<Rightarrow> (nat option \<times> 's decompressor \<times> writer) c_result" where
  "literal_tag fuel pk sk d w ip c =
    (let literal_length = ucast (drop_bit 2 c) + 1 in
     cbind (writer_try_fast_append w (obj d) ip (word_of_nat (ip_limit d - ip)) literal_length) (\<lambda>(ok, w).
     if ok then
       cbind (cassert (literal_length < 61)) (\<lambda>_. Inr (Some (ip + unat literal_length), d, w))
     else
       cbind (long_literal_length (obj d) ip literal_length) (\<lambda>(literal_length, ip).
       cbind (literal_loop fuel pk sk d w ip (word_of_nat (ip_limit d - ip)) literal_length) (\<lambda>(r, d, w).
       case r of
         None \<Rightarrow> Inr (None, d, w)
       | Some (ip, literal_length) \<Rightarrow>
           cbind (writer_append w (obj d) ip literal_length) (\<lambda>(ok, w).
             Inr (if ok then Some (ip + unat literal_length) else None, d, w))))))"

definition copy_tag ::
    "'s decompressor \<Rightarrow> writer \<Rightarrow> nat \<Rightarrow> u8 \<Rightarrow> (nat option \<times> 's decompressor \<times> writer) c_result" where
  "copy_tag d w ip c =
     cbind (array_get char_table (unat c)) (\<lambda>e.
     let entry = (ucast e :: u32) in
     cbind (get_unaligned_le32 (obj d) ip) (\<lambda>v.
     cbind (array_get wordmask (unat (drop_bit 11 entry))) (\<lambda>m.
     let trailer = v AND m; length = entry AND 0xff; copy_offset = entry AND 0x700 in
     cbind (writer_append_from_self w (copy_offset + trailer) length) (\<lambda>(ok, w).
       Inr (if ok then Some (ip + unat (drop_bit 11 entry)) else None, d, w)))))"

fun decompress_loop ::
    "nat \<Rightarrow> ('s \<Rightarrow> buffer \<times> nat) \<Rightarrow> ('s \<Rightarrow> nat \<Rightarrow> 's c_result) \<Rightarrow> 's decompressor \<Rightarrow> writer \<Rightarrow>
     nat \<Rightarrow> ('s decompressor \<times> writer) c_result" where
  "decompress_loop 0 pk sk d w ip = Inl Nontermination"
| "decompress_loop (Suc fuel) pk sk d w ip =
     cbind (maybe_refill pk sk d ip) (\<lambda>(r, d).
     case r of
       None \<Rightarrow> Inr (d, w)
     | Some ip \<Rightarrow>
         cbind (load8 (obj d) ip) (\<lambda>c.
         cbind (if c AND 3 = 0 then literal_tag (Suc fuel) pk sk d w (ip + 1) c
                else copy_tag d w (ip + 1) c) (\<lambda>(r, d, w).
         case r of
           None \<Rightarrow> Inr (d, w)
         | Some ip \<Rightarrow>
             cbind (maybe_refill pk sk d ip) (\<lambda>(r, d).
             case r of
               None \<Rightarrow> Inr (d, w)
             | Some ip \<Rightarrow> decompress_loop fuel pk sk d w ip))))"

definition decompress_all_tags ::
    "nat \<Rightarrow> ('s \<Rightarrow> buffer \<times> nat) \<Rightarrow> ('s \<Rightarrow> nat \<Rightarrow> 's c_result) \<Rightarrow> 's decompressor \<Rightarrow> writer \<Rightarrow>
     ('s decompressor \<times> writer) c_result" where
  "decompress_all_tags fuel pk sk d w =
     cbind (maybe_refill pk sk d (d_ip d)) (\<lambda>(r, d).
     case r of None \<Rightarrow> Inr (d, w) | Some ip \<Rightarrow> decompress_loop fuel pk sk d w ip)"

section \<open>Entry points\<close>

text \<open>
  \<open>fuel\<close> bounds the iterations of the tag loop; the entry points below pass one more than the number
  of input bytes, and every iteration consumes a byte.
\<close>

definition internal_uncompress ::
    "nat \<Rightarrow> ('s \<Rightarrow> buffer \<times> nat) \<Rightarrow> ('s \<Rightarrow> nat \<Rightarrow> 's c_result) \<Rightarrow> buffer \<Rightarrow> 's \<Rightarrow> writer \<Rightarrow> u32 \<Rightarrow>
     (int \<times> writer) c_result" where
  "internal_uncompress fuel pk sk scratch0 r w max_len =
    (let d = init_snappy_decompressor r scratch0 in
     cbind (read_uncompressed_length pk sk d) (\<lambda>(v, d).
     case v of
       None \<Rightarrow> Inr (- EIO, w)
     | Some uncompressed_len \<Rightarrow>
         if uncompressed_len > max_len then Inr (- EIO, w)
         else
           let w = writer_set_expected_length w (unat uncompressed_len) in
           cbind (decompress_all_tags fuel pk sk d w) (\<lambda>(d, w).
           cbind (exit_snappy_decompressor sk d) (\<lambda>d.
             if eof d \<and> writer_check_length w then Inr (0, w) else Inr (- EIO, w)))))"

text \<open>
  \<^verbatim>\<open>snappy_uncompress\<close> of the build without \<^verbatim>\<open>SG\<close>: the return value and the output buffer.
\<close>

definition snappy_uncompress :: "buffer \<Rightarrow> buffer \<Rightarrow> nat \<Rightarrow> buffer \<Rightarrow> (int \<times> buffer) c_result" where
  "snappy_uncompress scratch0 compressed n uncompressed =
    (let r = \<lparr>smem = compressed, ptr = 0, left = n\<rparr>;
         w = \<lparr>wmem = uncompressed, w_base = 0, w_op = 0, w_op_limit = 0\<rparr> in
     cbind (internal_uncompress (Suc n) Snappy_Source.peek Snappy_Source.skip scratch0 r w 0xffffffff) (\<lambda>(err, w).
       Inr (err, wmem w)))"

text \<open>\<open>dbg\<close> is the flag of \<open>skip_sg\<close>: the check of the offset is compiled in.\<close>

definition snappy_uncompress_iov ::
    "bool \<Rightarrow> buffer \<Rightarrow> iovec list \<Rightarrow> nat \<Rightarrow> nat \<Rightarrow> buffer \<Rightarrow> (int \<times> buffer) c_result" where
  "snappy_uncompress_iov dbg scratch0 iov_in iov_in_len input_len uncompressed =
    (let r = \<lparr>iov = iov_in, iovlen = iov_in_len, curvec = 0, curoff = 0, total = input_len\<rparr>;
         w = \<lparr>wmem = uncompressed, w_base = 0, w_op = 0, w_op_limit = 0\<rparr> in
     cbind (internal_uncompress (Suc (length (concat (map iov_bytes iov_in)))) peek_sg (skip_sg dbg) scratch0 r w 0xffffffff)
       (\<lambda>(err, w). Inr (err, wmem w)))"

end
