(* ===== verification/Snappy_Decompress_Correct.thy ===== *)
theory Snappy_Decompress_Correct
  imports Snappy_Decompress Snappy_Varint
begin

text \<open>
  Correctness of the decompressor against the reference decoder, once for every byte source, and
  for the flat and the scatter-gather entry points by interpretation: the result, the error code on
  malformed input, and that no input makes it fault or loop.
\<close>

section \<open>The decoding table\<close>

text \<open>The 256 entries of \<^verbatim>\<open>char_table\<close> agree with the format of a tag byte.\<close>

definition entry_ok :: "nat \<Rightarrow> bool" where
  "entry_ok i =
     (let e = (ucast (char_table ! i) :: u32); c = (word_of_nat i :: u8) in
      unat (drop_bit 11 e) = tag_extra c \<and>
      (i mod 4 = 1 \<longrightarrow> unat (e AND 0xff) = i div 4 mod 8 + 4 \<and> unat (e AND 0x700) = 256 * (i div 32)) \<and>
      (i mod 4 \<ge> 2 \<longrightarrow> unat (e AND 0xff) = i div 4 + 1 \<and> e AND 0x700 = 0))"

lemma char_table_entries_ok: "list_all entry_ok [0..<256]"
  by code_simp

lemma length_char_table [simp]: "length char_table = 256"
  by (simp add: char_table_def)

text \<open>
  C34. The table that drives the decompressor is well-formed: it has an entry for every tag byte; every entry has a length of 1 to 64 in its low
  eight bits, the upper part of an offset (0 to 7) in the next three and a number of extra bytes (0 to 4) in the next three, and nothing
  above; and these are the fields that the format gives to the four kinds of tags (a literal of up to 60 bytes, or longer with its length in 1 to 4
  bytes; copies with offsets of one, two and four bytes).
\<close>

theorem char_table_well_formed:
  "length char_table = 256 \<and> list_all (\<lambda>i.
     let e = char_table ! i; len = unat (e AND 0xff); off = unat (drop_bit 8 e AND 7); extra = unat (drop_bit 11 e) in
     1 \<le> len \<and> len \<le> 64 \<and> extra \<le> 4 \<and>
     (len, off, extra) =
       (if i mod 4 = 0 then if i div 4 < 60 then (i div 4 + 1, 0, 0) else (1, 0, i div 4 - 59)
        else if i mod 4 = 1 then (i div 4 mod 8 + 4, i div 32, 1)
        else if i mod 4 = 2 then (i div 4 + 1, 0, 2) else (i div 4 + 1, 0, 4))) [0..<256]"
proof
  show "length char_table = 256" by simp
qed code_simp

lemma char_table_ok: "entry_ok (unat (c :: u8))"
proof -
  have "unat c < 256" using unsigned_less [of c] by simp
  then show ?thesis using char_table_entries_ok by (simp add: list_all_iff del: upt_rec_numeral)
qed

lemma char_table_get: "array_get char_table (unat (c :: u8)) = Inr (char_table ! unat c)"
  using unsigned_less [of c] by (simp add: array_get_def)

lemma entry_extra: "unat (drop_bit 11 (ucast (char_table ! unat (c :: u8)) :: u32)) = tag_extra c"
  using char_table_ok [of c] by (simp add: entry_ok_def Let_def del: drop_bit_numeral_bit0)

lemma tag_extra_le: "tag_extra c \<le> 4"
proof -
  have "unat c < 256" using unsigned_less [of c] by simp
  then show ?thesis
    by (auto simp: tag_extra_def split: nat.splits)
qed

section \<open>Masked little-endian loads\<close>

lemma le_nat_append: "le_nat (xs @ ys) = le_nat xs + 256 ^ length xs * le_nat ys"
  by (induction xs) (simp_all add: algebra_simps)

lemma le_nat_less: "le_nat xs < 256 ^ length xs"
proof (induction xs)
  case (Cons x xs)
  have "unat x < 256" using unsigned_less [of x] by simp
  then show ?case using Cons by simp
qed simp

lemma unat_le_word:
  "length xs \<le> 4 \<Longrightarrow> unat (le_word xs :: u32) = le_nat xs"
proof (induction xs)
  case (Cons x xs)
  then have IH: "unat (le_word xs :: u32) = le_nat xs" by simp
  have "256 ^ length xs \<le> (256 :: nat) ^ 3" using Cons.prems by (intro power_increasing) auto
  then have less: "le_nat xs < 2 ^ 24" using le_nat_less [of xs] by simp
  have "unat (push_bit 8 (le_word xs :: u32)) = 256 * le_nat xs"
    using less IH by (simp add: push_bit_eq_mult unat_word_ariths)
  moreover have disj: "bit (ucast x :: u32) n \<Longrightarrow> \<not> bit (push_bit 8 (le_word xs :: u32)) n" for n
    by (auto simp: bit_simps dest: bit_imp_le_length)
  have "(ucast x :: u32) OR push_bit 8 (le_word xs) = ucast x + push_bit 8 (le_word xs)"
    using disj by (intro disjunctive_add [symmetric]) auto
  moreover have x: "unat x < 256" using unsigned_less [of x] by simp
  moreover have "unat (ucast x :: u32) = unat x"
    using x by (simp add: unsigned_ucast_eq take_bit_nat_eq_self_iff)
  ultimately show ?case
    using less by (simp add: unat_word_ariths)
qed simp

lemma wordmask_nth: "k \<le> 4 \<Longrightarrow> array_get wordmask k = Inr (mask (8 * k))"
proof -
  assume "k \<le> 4"
  then consider "k = 0" | "k = 1" | "k = 2" | "k = 3" | "k = 4" by linarith
  then show ?thesis by cases (simp_all add: array_get_def wordmask_def mask_eq_exp_minus_1)
qed

lemma unat_masked:
  assumes "length xs = 4" "k \<le> 4"
  shows "unat ((le_word xs :: u32) AND mask (8 * k)) = le_nat (take k xs)"
proof -
  have "unat ((le_word xs :: u32) AND mask (8 * k)) = take_bit (8 * k) (unat (le_word xs :: u32))"
    by (simp add: unsigned_take_bit_eq flip: take_bit_eq_mask)
  also have "\<dots> = le_nat xs mod 256 ^ k"
    unfolding unat_le_word [OF eq_refl, OF assms(1)] by (simp add: take_bit_eq_mod power_mult)
  also have "le_nat xs = le_nat (take k xs) + 256 ^ k * le_nat (drop k xs)"
    using le_nat_append [of "take k xs" "drop k xs"] assms by simp
  also have "\<dots> mod 256 ^ k = le_nat (take k xs)"
    using le_nat_less [of "take k xs"] assms by simp
  finally show ?thesis .
qed

section \<open>Reference decoder of a whole stream\<close>

text \<open>
  The length header: seven bits a byte, least significant first, at most five bytes; bits shifted out
  of the 32-bit result are lost.
\<close>

fun header :: "nat \<Rightarrow> u32 \<Rightarrow> buffer \<Rightarrow> (u32 \<times> buffer) option" where
  "header shift v [] = None"
| "header shift v (c # cs) =
     (if shift \<ge> 32 then None
      else let v = v OR push_bit shift (ucast (c AND 0x7f)) in
           if c < 128 then Some (v, cs) else header (shift + 7) v cs)"

lemma header_shorter: "header shift v xs = Some (v', cs) \<Longrightarrow> length cs < length xs"
  by (induction shift v xs rule: header.induct) (auto simp: Let_def split: if_splits)

definition snappy_decode :: "buffer \<Rightarrow> buffer option" where
  "snappy_decode cs =
     (case header 0 0 cs of
        None \<Rightarrow> None
      | Some (v, cs) \<Rightarrow>
          (case decode (unat v) [] cs of
             None \<Rightarrow> None
           | Some out \<Rightarrow> if length out = unat v then Some out else None))"

text \<open>The part of a stream that is decoded before the first error.\<close>

definition decoded_part :: "buffer \<Rightarrow> buffer" where
  "decoded_part cs = (case header 0 0 cs of None \<Rightarrow> [] | Some (v, cs) \<Rightarrow> decoded (unat v) [] cs)"

lemma decoded_part_decode: "snappy_decode cs = Some out \<Longrightarrow> decoded_part cs = out"
  by (auto simp: snappy_decode_def decoded_part_def decode_decoded split: option.splits if_splits)

definition announced :: "buffer \<Rightarrow> nat" where
  "announced cs = (case header 0 0 cs of None \<Rightarrow> 0 | Some (v, cs) \<Rightarrow> unat v)"

lemma copy_entry:
  assumes c: "unat (c :: u8) mod 4 \<noteq> 0" and k: "length extra = tag_extra c"
    and t: "unat (trailer :: u32) = le_nat extra"
  defines "e \<equiv> ucast (char_table ! unat c) :: u32"
  shows "copy_of c extra = Copy (unat ((e AND 0x700) + trailer)) (unat (e AND 0xff))"
    "0 < unat (e AND 0xff)" "unat (e AND 0xff) \<le> 64"
proof -
  have c256: "unat c < 256" using unsigned_less [of c] by simp
  have ok: "unat c mod 4 = 1 \<longrightarrow> unat (e AND 0xff) = unat c div 4 mod 8 + 4 \<and> unat (e AND 0x700) = 256 * (unat c div 32)"
    "unat c mod 4 \<ge> 2 \<longrightarrow> unat (e AND 0xff) = unat c div 4 + 1 \<and> e AND 0x700 = 0"
    using char_table_ok [of c] unfolding entry_ok_def Let_def e_def by blast+
  consider "unat c mod 4 = 1" | "unat c mod 4 \<ge> 2" using c by linarith
  then have "copy_of c extra = Copy (unat ((e AND 0x700) + trailer)) (unat (e AND 0xff)) \<and>
    0 < unat (e AND 0xff) \<and> unat (e AND 0xff) \<le> 64"
  proof cases
    case 1
    have "le_nat extra < 256" using le_nat_less [of extra] k 1 by (simp add: tag_extra_def)
    moreover have "unat c div 32 < 8" using c256 by (simp add: less_mult_imp_div_less)
    ultimately have "unat ((e AND 0x700) + trailer) = 256 * (unat c div 32) + le_nat extra"
      using 1 ok(1) t by (simp add: unat_word_ariths)
    then show ?thesis using 1 ok(1) by (simp add: copy_of_def)
  next
    case 2
    then show ?thesis using ok(2) t c256 by (auto simp: copy_of_def)
  qed
  then show "copy_of c extra = Copy (unat ((e AND 0x700) + trailer)) (unat (e AND 0xff))"
    "0 < unat (e AND 0xff)" "unat (e AND 0xff) \<le> 64" by auto
qed

section \<open>The state of the decompressor\<close>

context byte_reader
begin

text \<open>
  \<open>dinv d ip rem\<close>: with the current position at \<open>ip\<close>, the decompressor still has the bytes \<open>rem\<close> to
  read: the rest of the current fragment and what the reader has after the peeked bytes. The reader skips all peeked bytes at
  once or none; the bytes of a tag are only taken from it one by one (\<^verbatim>\<open>stitch\<close>) where its position has room for it.
\<close>

definition exit_ok :: "'s decompressor \<Rightarrow> bool" where
  "exit_ok d \<longleftrightarrow> invar (reader d) \<and> (peeked d = 0 \<or> unat (peeked d) = snd (peek (reader d)))"

definition free :: "'s \<Rightarrow> bool" where
  "free r \<longleftrightarrow> rest r = [] \<or> roomy r"

definition dinv :: "'s decompressor \<Rightarrow> nat \<Rightarrow> buffer \<Rightarrow> bool" where
  "dinv d ip rem \<longleftrightarrow> exit_ok d \<and> length (scratch d) = 5 \<and> ip \<le> ip_limit d \<and>
     ip_limit d \<le> length (obj d) \<and> length rem < 2 ^ 32 \<and> \<not> eof d \<and>
     (peeked d = 0 \<longrightarrow> ip = ip_limit d \<or> free (reader d)) \<and>
     rem = take (ip_limit d - ip) (drop ip (obj d)) @ drop (unat (peeked d)) (rest (reader d))"

text \<open>All bytes of the next element header are at hand, and a four-byte load behind the tag stays inside.\<close>

definition ready :: "'s decompressor \<Rightarrow> nat \<Rightarrow> buffer \<Rightarrow> bool" where
  "ready d ip rem \<longleftrightarrow> dinv d ip rem \<and> rem \<noteq> [] \<and> ip + 5 \<le> length (obj d) \<and>
     tag_extra (hd rem) < ip_limit d - ip"

lemma skip_peeked:
  assumes "exit_ok d"
  obtains r where "skip (reader d) (unat (peeked d)) = Inr r" "invar r"
    "rest r = drop (unat (peeked d)) (rest (reader d))" "peeked d \<noteq> 0 \<or> free (reader d) \<Longrightarrow> free r"
proof -
  let ?k = "unat (peeked d)"
  obtain m n where pk: "peek (reader d) = (m, n)" by fastforce
  have e: "invar (reader d)" "?k = 0 \<or> ?k = n" using assms pk by (auto simp: exit_ok_def)
  then have "?k \<le> n" "?k = n \<or> ?k \<le> room (reader d)" by auto
  then obtain r where r: "skip (reader d) ?k = Inr r" "invar r" "rest r = drop ?k (rest (reader d))"
    using skip_reader [OF e(1) pk] by blast
  moreover have "free r" if "peeked d \<noteq> 0 \<or> free (reader d)"
  proof (cases "peeked d = 0")
    case True
    then show ?thesis using that r skip_roomy [OF e(1) _ r(1)] by (auto simp: free_def)
  next
    case False
    then have "?k \<noteq> 0" by (simp add: unat_eq_zero)
    then have "?k = n" "0 < n" using e(2) by auto
    then show ?thesis using skip_all [OF e(1) pk] r(1) by (simp add: free_def)
  qed
  ultimately show thesis using that by blast
qed

lemma exit_ok_exit: "exit_ok d \<Longrightarrow> \<exists>d'. exit_snappy_decompressor skip d = Inr d' \<and> eof d' = eof d"
  by (rule skip_peeked) (auto simp: exit_snappy_decompressor_def)

lemma dinv_nth:
  assumes "dinv d ip rem" "k < ip_limit d - ip"
  shows "rem ! k = obj d ! (ip + k)" "k < length rem"
  using assms by (auto simp: dinv_def nth_append)

lemma dinv_prefix:
  assumes "dinv d ip rem" "k \<le> ip_limit d - ip"
  shows "take k (drop ip (obj d)) = take k rem"
  using assms by (auto simp: dinv_def)

lemma dinv_advance:
  assumes "dinv d ip rem" "k \<le> ip_limit d - ip"
  shows "dinv d (ip + k) (drop k rem)"
proof -
  have "drop k (take (ip_limit d - ip) (drop ip (obj d))) = take (ip_limit d - (ip + k)) (drop (ip + k) (obj d))"
    by (simp add: drop_take add.commute)
  moreover have "k \<le> length (take (ip_limit d - ip) (drop ip (obj d)))"
    using assms by (auto simp: dinv_def)
  ultimately show ?thesis using assms by (auto simp: dinv_def)
qed

lemma dinv_limit: "dinv d ip rem \<Longrightarrow> unat (word_of_nat (ip_limit d - ip) :: u32) = ip_limit d - ip"
  by (rule unat_u32) (auto simp: dinv_def)

lemma dinv_d_ip [simp]: "dinv (d\<lparr>d_ip := i\<rparr>) ip rem = dinv d ip rem"
  by (simp add: dinv_def exit_ok_def obj_def)

text \<open>A fresh fragment.\<close>

lemma dinv_fragment:
  assumes "invar r" "peek r = (m, n)" "length (scratch d) = 5" "\<not> eof d" "rem = rest r"
  shows "dinv (d\<lparr>reader := r, peeked := word_of_nat n, cur := Some m, ip_limit := n\<rparr>) 0 rem"
proof -
  have "n = 0" if "(word_of_nat n :: u32) = 0" using unat_avail [OF assms(1,2)] that by simp
  then show ?thesis
    using assms peek_avail [OF assms(1,2)] peek_bytes [OF assms(1,2)] rest_small [OF assms(1)] unat_avail [OF assms(1,2)]
    by (auto simp: dinv_def exit_ok_def obj_def)
qed

lemma fetch_fragment_ok:
  assumes "dinv d (d_ip d) rem"
  shows "if rem = [] then \<exists>d'. fetch_fragment peek skip d = Inr (False, d') \<and> eof d' \<and> exit_ok d'
         else \<exists>d'. fetch_fragment peek skip d = Inr (True, d') \<and> dinv d' (d_ip d') rem \<and> d_ip d' < ip_limit d'"
proof (cases "d_ip d = ip_limit d")
  case False
  then have "rem \<noteq> []" using assms by (auto simp: dinv_def)
  then show ?thesis using False assms by (auto simp: fetch_fragment_def dinv_def)
next
  case True
  obtain r where r: "skip (reader d) (unat (peeked d)) = Inr r" "invar r"
      "rest r = drop (unat (peeked d)) (rest (reader d))"
    using assms by (auto simp: dinv_def elim: skip_peeked)
  obtain m n where pk: "peek r = (m, n)" by fastforce
  have rem: "rem = rest r" using assms True r by (simp add: dinv_def)
  note z = peek_zero_iff [OF r(2) pk] and u = unat_avail [OF r(2) pk]
  show ?thesis
  proof (cases "n = 0")
    case True
    then show ?thesis
      using \<open>d_ip d = ip_limit d\<close> r pk z rem by (simp add: fetch_fragment_def Let_def exit_ok_def)
  next
    case False
    let ?d = "d\<lparr>d_ip := 0\<rparr>\<lparr>reader := r, peeked := word_of_nat n, cur := Some m, ip_limit := n\<rparr>"
    have "dinv ?d 0 rem"
      using assms by (intro dinv_fragment [OF r(2) pk]) (simp_all add: dinv_def rem)
    moreover have "fetch_fragment peek skip d = Inr (True, ?d)"
      using True False r pk by (simp add: fetch_fragment_def Let_def)
    ultimately show ?thesis using False z rem by simp
  qed
qed

lemma stitch_ok:
  assumes "invar r" "nbuf \<le> needed" "needed \<le> length scr" "free r"
  shows "if needed - nbuf \<le> length (rest r)
         then \<exists>r'. stitch peek skip r scr nbuf needed =
                 Inr (True, r', take nbuf scr @ take (needed - nbuf) (rest r) @ drop needed scr, needed)
               \<and> invar r' \<and> rest r' = drop (needed - nbuf) (rest r) \<and> free r'
         else \<exists>r' scr' n'. stitch peek skip r scr nbuf needed = Inr (False, r', scr', n') \<and> invar r'"
  using assms
proof (induction "needed - nbuf" arbitrary: r scr nbuf rule: less_induct)
  case less
  show ?case
  proof (cases "nbuf < needed")
    case False
    then show ?thesis using less.prems by (simp add: stitch.simps)
  next
    case True
    obtain m n where pk: "peek r = (m, n)" by fastforce
    note z = peek_zero_iff [OF less.prems(1) pk] and u = unat_avail [OF less.prems(1) pk]
      and av = peek_avail [OF less.prems(1) pk]
    show ?thesis
    proof (cases "n = 0")
      case n0: True
      then show ?thesis using True pk z less.prems by (simp add: stitch.simps)
    next
      case False
      define k where "k = min (needed - nbuf) n"
      have k: "0 < k" "k \<le> n" "k \<le> needed - nbuf" using False True by (auto simp: k_def)
      obtain r' where r': "skip r k = Inr r'" "invar r'" "rest r' = drop k (rest r)"
        using skip_reader [OF less.prems(1) pk k(2)] less.prems(4) z False by (auto simp: free_def)
      have free: "free r'"
        using skip_roomy [OF less.prems(1) _ r'(1)] less.prems(4) z False by (auto simp: free_def)
      define scr' where "scr' = take nbuf scr @ take k (rest r) @ drop (nbuf + k) scr"
      have ld: "load_bytes m 0 k = Inr (take k (rest r))"
        using k av peek_take [OF less.prems(1) pk k(2)] by (simp add: mem_simps)
      have st: "store_bytes scr nbuf (take k (rest r)) = Inr scr'"
        using k av less.prems by (simp add: mem_simps scr'_def)
      have eq: "stitch peek skip r scr nbuf needed = stitch peek skip r' scr' (nbuf + k) needed"
        using True False pk ld st r'(1) k(1)
        by (subst stitch.simps) (simp add: Let_def u flip: k_def)
      have len: "length scr' = length scr" using k av less.prems by (simp add: scr'_def)
      have "take (nbuf + k) scr' = take nbuf scr @ take k (rest r)"
        using k av less.prems by (simp add: scr'_def)
      moreover have "drop needed scr' = drop needed scr"
        using k av less.prems by (simp add: scr'_def)
      moreover have "needed - (nbuf + k) < needed - nbuf" "nbuf + k \<le> needed" "needed \<le> length scr'"
        using k True less.prems len by auto
      note less.hyps [OF this(1) r'(2) this(2,3) free]
      moreover have "take k (rest r) @ take (needed - (nbuf + k)) (drop k (rest r)) = take (needed - nbuf) (rest r)"
        using k by (simp add: take_add [symmetric])
      ultimately show ?thesis
        unfolding eq using k av r'(3) by (auto simp: le_diff_conv)
    qed
  qed
qed

text \<open>The header of the next element has been brought together in \<^verbatim>\<open>scratch\<close>.\<close>

lemma ready_scratch:
  assumes "invar r" "length scr = 5" "k \<le> 5" "rem = take k scr @ rest r" "length rem < 2 ^ 32"
    "\<not> eof d" "tag_extra (hd rem) < k" "free r"
  shows "ready (d\<lparr>peeked := 0, reader := r, scratch := scr, cur := Some scr, d_ip := 0, ip_limit := k\<rparr>) 0 rem"
  using assms by (auto simp: ready_def dinv_def exit_ok_def obj_def)

lemma needed_eq: "unat (drop_bit 11 (ucast (char_table ! unat (c :: u8)) :: u32) + 1) = Suc (tag_extra c)"
  using entry_extra [of c] tag_extra_le [of c]
  by (simp add: unat_word_ariths del: drop_bit_numeral_bit0)

lemma complete_tag_ok:
  assumes inv: "dinv d (d_ip d) rem" and ip: "d_ip d < ip_limit d"
  shows "if tag_extra (hd rem) < length rem
         then \<exists>d'. complete_tag peek skip d = Inr (True, d') \<and> ready d' (d_ip d') rem
         else \<exists>d'. complete_tag peek skip d = Inr (False, d') \<and> \<not> eof d' \<and> exit_ok d'"
proof -
  define nbuf where "nbuf = ip_limit d - d_ip d"
  define c where "c = hd rem"
  define needed where "needed = Suc (tag_extra c)"
  define bs where "bs = take nbuf (drop (d_ip d) (obj d))"
  define scr where "scr = bs @ drop nbuf (scratch d)"
  have n0: "0 < nbuf" using ip by (simp add: nbuf_def)
  have n5: "needed \<le> 5" using tag_extra_le [of c] by (simp add: needed_def)
  obtain r where r: "skip (reader d) (unat (peeked d)) = Inr r" "invar r"
      "rest r = drop (unat (peeked d)) (rest (reader d))" "free r"
    using inv ip by (auto simp: dinv_def elim: skip_peeked)
  have rem: "rem = bs @ rest r" and lbs: "length bs = nbuf" and lr: "length rem < 2 ^ 32"
    and sl: "length (scratch d) = 5" and ne: "\<not> eof d" and lim: "d_ip d + nbuf \<le> length (obj d)"
    using inv ip r by (auto simp: dinv_def bs_def nbuf_def)
  have c: "load8 (obj d) (d_ip d) = Inr c"
    using dinv_nth [OF inv, of 0] ip inv by (auto simp: c_def hd_conv_nth mem_simps dinv_def)
  note nb = dinv_limit [OF inv, folded nbuf_def]
  have st: "store_bytes (scratch d) 0 bs = Inr scr" if "nbuf < 5"
    using that lbs sl by (simp add: mem_simps scr_def)
  have lscr: "length scr = 5" if "nbuf < 5" using that lbs sl by (simp add: scr_def)
  have pre: "complete_tag peek skip d =
      (if nbuf < needed then
         cbind (store_bytes (scratch d) 0 bs) (\<lambda>scr.
         let d = d\<lparr>peeked := 0\<rparr> in
         cbind (stitch peek skip r scr nbuf needed) (\<lambda>(ok, r, scr, nbuf).
         if \<not> ok then Inr (False, d\<lparr>reader := r, scratch := scr\<rparr>)
         else
           cbind (cassert (nbuf = needed)) (\<lambda>_.
             Inr (True, d\<lparr>reader := r, scratch := scr, cur := Some scr, d_ip := 0, ip_limit := needed\<rparr>))))
       else if nbuf < 5 then
         cbind (store_bytes (scratch d) 0 bs) (\<lambda>scr.
           Inr (True, d\<lparr>reader := r, peeked := 0, scratch := scr, cur := Some scr, d_ip := 0, ip_limit := nbuf\<rparr>))
       else Inr (True, d\<lparr>d_ip := d_ip d\<rparr>))"
    using c ip n5 r(1) lim
    by (simp add: complete_tag_def char_table_get needed_eq [of c, folded needed_def] nb bs_def mem_simps
        flip: nbuf_def del: of_nat_diff drop_bit_numeral_bit0)
  consider (stitch) "nbuf < needed" | (move) "needed \<le> nbuf" "nbuf < 5" | (keep) "needed \<le> nbuf" "5 \<le> nbuf"
    by linarith
  then show ?thesis
  proof cases
    case stitch
    then have "nbuf < 5" using n5 by simp
    have enough: "needed - nbuf \<le> length (rest r) \<longleftrightarrow> tag_extra (hd rem) < length rem"
      using stitch lbs by (auto simp: rem needed_def c_def)
    show ?thesis
    proof (cases "tag_extra (hd rem) < length rem")
      case True
      define scr' where "scr' = take nbuf scr @ take (needed - nbuf) (rest r) @ drop needed scr"
      obtain r' where r': "stitch peek skip r scr nbuf needed = Inr (True, r', scr', needed)"
          "invar r'" "rest r' = drop (needed - nbuf) (rest r)" "free r'"
        using stitch_ok [OF r(2) _ _ r(4), of nbuf needed scr] stitch n5 lscr [OF \<open>nbuf < 5\<close>] True enough
        unfolding scr'_def by auto
      have le: "needed - nbuf \<le> length (rest r)" using True enough by simp
      then have tk: "take needed scr' = bs @ take (needed - nbuf) (rest r)"
        using stitch lbs by (simp add: scr'_def scr_def)
      have "length scr' = 5" using le stitch n5 lscr [OF \<open>nbuf < 5\<close>] by (simp add: scr'_def)
      moreover have "rem = take needed scr' @ rest r'" by (simp add: tk r'(3) rem)
      ultimately have "ready (d\<lparr>peeked := 0, reader := r', scratch := scr', cur := Some scr', d_ip := 0,
          ip_limit := needed\<rparr>) 0 rem"
        using n5 lr ne r'(2,4) by (intro ready_scratch) (auto simp: needed_def c_def)
      then show ?thesis
        using True stitch st [OF \<open>nbuf < 5\<close>] r'(1) by (simp add: pre)
    next
      case False
      then obtain r' scr' n' where r': "stitch peek skip r scr nbuf needed = Inr (False, r', scr', n')" "invar r'"
        using stitch_ok [OF r(2) _ _ r(4), of nbuf needed scr] stitch n5 lscr [OF \<open>nbuf < 5\<close>] enough by auto
      then show ?thesis
        using False stitch st [OF \<open>nbuf < 5\<close>] ne by (simp add: pre exit_ok_def)
    qed
  next
    case move
    have "ready (d\<lparr>peeked := 0, reader := r, scratch := scr, cur := Some scr, d_ip := 0, ip_limit := nbuf\<rparr>) 0 rem"
      using move lr ne r(2,4) lscr lbs
      by (intro ready_scratch) (auto simp: needed_def c_def rem scr_def)
    moreover have "d\<lparr>peeked := 0, reader := r\<rparr> = d\<lparr>reader := r, peeked := 0\<rparr>" by simp
    ultimately have "ready (d\<lparr>reader := r, peeked := 0, scratch := scr, cur := Some scr, d_ip := 0, ip_limit := nbuf\<rparr>) 0 rem"
      by (simp only:)
    moreover have "tag_extra (hd rem) < length rem"
      using move lbs by (auto simp: rem needed_def c_def)
    ultimately show ?thesis using move st by (simp add: pre)
  next
    case keep
    have "tag_extra (hd rem) < length rem"
      using keep lbs by (auto simp: rem needed_def c_def)
    moreover have "ready d (d_ip d) rem"
      using keep inv lim lbs by (auto simp: ready_def needed_def c_def nbuf_def rem)
    ultimately show ?thesis using keep by (simp add: pre)
  qed
qed

text \<open>The three outcomes of \<^verbatim>\<open>MAYBE_REFILL\<close>.\<close>

lemma maybe_refill_ok:
  assumes "dinv d ip rem"
  obtains (finished) d' where "rem = []" "maybe_refill peek skip d ip = Inr (None, d')" "eof d'" "exit_ok d'"
  | (cut) d' where "rem \<noteq> []" "length rem \<le> tag_extra (hd rem)"
      "maybe_refill peek skip d ip = Inr (None, d')" "\<not> eof d'" "exit_ok d'"
  | (tag) d' ip' where "rem \<noteq> []" "tag_extra (hd rem) < length rem"
      "maybe_refill peek skip d ip = Inr (Some ip', d')" "ready d' ip' rem"
proof -
  let ?d = "d\<lparr>d_ip := ip\<rparr>"
  have inv: "dinv ?d (d_ip ?d) rem" using assms by simp
  show thesis
  proof (cases "int (ip_limit d) - int ip < 5")
    case False
    then have "rem \<noteq> []" "tag_extra (hd rem) < ip_limit d - ip"
      using assms tag_extra_le [of "hd rem"] by (auto simp: dinv_def)
    moreover have "ip_limit d - ip \<le> length rem" using assms by (auto simp: dinv_def)
    ultimately have "ready d ip rem" "tag_extra (hd rem) < length rem"
      using assms False by (auto simp: ready_def dinv_def)
    then show thesis
      using False \<open>rem \<noteq> []\<close> by (intro tag) (auto simp: maybe_refill_def)
  next
    case True
    show thesis
    proof (cases "rem = []")
      case nil: True
      then obtain d' where "fetch_fragment peek skip ?d = Inr (False, d')" "eof d'" "exit_ok d'"
        using fetch_fragment_ok [OF inv] by auto
      then show thesis
        using nil True by (intro finished) (auto simp: maybe_refill_def refill_tag_def)
    next
      case False
      then obtain d1 where d1: "fetch_fragment peek skip ?d = Inr (True, d1)" "dinv d1 (d_ip d1) rem" "d_ip d1 < ip_limit d1"
        using fetch_fragment_ok [OF inv] by auto
      note c = complete_tag_ok [OF d1(2,3)]
      show thesis
      proof (cases "tag_extra (hd rem) < length rem")
        case True
        then show thesis
          using c d1 False \<open>int (ip_limit d) - int ip < 5\<close>
          by (auto simp: maybe_refill_def refill_tag_def intro!: tag)
      next
        case False
        then show thesis
          using c d1 \<open>rem \<noteq> []\<close> \<open>int (ip_limit d) - int ip < 5\<close>
          by (auto simp: maybe_refill_def refill_tag_def intro!: cut)
      qed
    qed
  qed
qed

section \<open>One element\<close>

text \<open>\<open>stops w x\<close>: a \<^verbatim>\<open>return\<close> before the end of the input; \<open>continues w x rem out\<close>: on to the next tag.\<close>

definition stops :: "writer \<Rightarrow> ('b option \<times> 's decompressor \<times> writer) c_result \<Rightarrow> bool" where
  "stops w x \<longleftrightarrow> (\<exists>d' w'. x = Inr (None, d', w') \<and> \<not> eof d' \<and> exit_ok d' \<and> grows w w')"

definition continues ::
    "writer \<Rightarrow> (nat option \<times> 's decompressor \<times> writer) c_result \<Rightarrow> buffer \<Rightarrow> buffer \<Rightarrow> bool" where
  "continues w x rem out \<longleftrightarrow>
     (\<exists>ip' d' w'. x = Inr (Some ip', d', w') \<and> dinv d' ip' rem \<and> holds w' out \<and> grows w w')"

definition literal_pending ::
    "writer \<Rightarrow> ((nat \<times> u32) option \<times> 's decompressor \<times> writer) c_result \<Rightarrow> nat \<Rightarrow> buffer \<Rightarrow> buffer \<Rightarrow> bool" where
  "literal_pending w x ll rem out \<longleftrightarrow>
     (\<exists>ip' len' d' w' k. x = Inr (Some (ip', len'), d', w') \<and> k + unat len' = ll \<and> dinv d' ip' (drop k rem)
        \<and> k \<le> length rem \<and> holds w' (out @ take k rem) \<and> unat len' \<le> ip_limit d' - ip' \<and> grows w w')"

lemma literal_pendingI:
  assumes "x = Inr (Some (ip', len'), d', w')" "k + unat len' = ll" "dinv d' ip' (drop k rem)"
    "k \<le> length rem" "holds w' (out @ take k rem)" "unat len' \<le> ip_limit d' - ip'" "grows w w'"
  shows "literal_pending w x ll rem out"
  unfolding literal_pending_def using assms by blast

lemma dinv_exit_ok: "dinv d ip rem \<Longrightarrow> exit_ok d \<and> \<not> eof d"
  by (simp add: dinv_def)

lemma literal_loop_ok:
  assumes "dinv d ip rem" "holds w out" "avail = word_of_nat (ip_limit d - ip)"
    "length rem + (if avail = 0 then 1 else 0) < fuel"
  shows "stops w (literal_loop fuel peek skip d w ip avail len)
           \<and> \<not> (unat len \<le> length rem \<and> length out + unat len \<le> w_op_limit w)
       \<or> literal_pending w (literal_loop fuel peek skip d w ip avail len) (unat len) rem out"
  using assms
proof (induction fuel arbitrary: d w ip avail len rem out)
  case (Suc fuel)
  have av: "unat avail = ip_limit d - ip" unfolding Suc.prems(3) by (rule dinv_limit [OF Suc.prems(1)])
  have ipl: "ip + unat avail \<le> length (obj d)" "unat avail \<le> length rem"
    using Suc.prems(1) by (auto simp: av dinv_def)
  have bytes: "take (unat avail) (drop ip (obj d)) = take (unat avail) rem"
    by (rule dinv_prefix [OF Suc.prems(1)]) (simp add: av)
  show ?case
  proof (cases "avail < len")
    case False
    then have "literal_pending w (literal_loop (Suc fuel) peek skip d w ip avail len) (unat len) rem out"
      using Suc.prems(1,2) av
      by (intro literal_pendingI [where k = 0]) (auto simp: word_less_nat_alt)
    then show ?thesis ..
  next
    case True
    then have lt: "unat avail < unat len" by (simp add: word_less_nat_alt)
    show ?thesis
    proof (cases "length out + unat avail \<le> w_op_limit w")
      case False
      then show ?thesis
        using True lt writer_append_full [OF Suc.prems(2) ipl(1) False] dinv_exit_ok [OF Suc.prems(1)]
        by (auto simp: stops_def)
    next
      case room: True
      obtain w1 where w1: "writer_append w (obj d) ip avail = Inr (True, w1)"
          "holds w1 (out @ take (unat avail) rem)" "grows w w1"
        using writer_append_holds [OF Suc.prems(2) ipl(1) room] bytes by auto
      obtain r where r: "skip (reader d) (unat (peeked d)) = Inr r" "invar r"
          "rest r = drop (unat (peeked d)) (rest (reader d))"
        using Suc.prems(1) by (auto simp: dinv_def elim: skip_peeked)
      obtain m n where pk: "peek r = (m, n)" by fastforce
      have rest: "rest r = drop (unat avail) rem" using Suc.prems(1) r(3) by (auto simp: dinv_def av)
      note z = peek_zero_iff [OF r(2) pk] and u = unat_avail [OF r(2) pk]
      have z32: "(word_of_nat n :: u32) = 0 \<longleftrightarrow> n = 0" using u by (metis unat_0 unat_eq_zero)
      show ?thesis
      proof (cases "n = 0")
        case n0: True
        then have "length rem \<le> unat avail" using z rest by simp
        then show ?thesis
          using True lt w1 r n0 pk z32 Suc.prems(1)
          by (auto simp: stops_def Let_def exit_ok_def dinv_def)
      next
        case False
        let ?d = "d\<lparr>reader := r, peeked := word_of_nat n, cur := Some m, ip_limit := n\<rparr>"
        let ?X = "literal_loop fuel peek skip ?d w1 0 (word_of_nat n) (len - avail)"
        have eq: "literal_loop (Suc fuel) peek skip d w ip avail len = ?X"
          using True w1(1) r(1) pk False z32 u by (simp add: Let_def)
        have inv: "dinv ?d 0 (drop (unat avail) rem)"
          using Suc.prems(1) rest by (intro dinv_fragment [OF r(2) pk]) (auto simp: dinv_def)
        have "length (drop (unat avail) rem) + (if (word_of_nat n :: u32) = 0 then 1 else 0) < fuel"
          using Suc.prems(4) False z32 ipl(2) unat_eq_zero [of avail] by (auto split: if_splits)
        from Suc.IH [OF inv w1(2) _ this, of "len - avail"]
        have IH: "stops w1 ?X \<and> \<not> (unat (len - avail) \<le> length rem - unat avail \<and>
              length out + unat avail + unat (len - avail) \<le> w_op_limit w)
            \<or> literal_pending w1 ?X (unat (len - avail)) (drop (unat avail) rem) (out @ take (unat avail) rem)"
          using ipl(2) w1(3) by (simp add: grows_def)
        have sub: "unat (len - avail) = unat len - unat avail"
          using True by (intro unat_sub) simp
        have st: "stops w ?X" if "stops w1 ?X"
          using that w1(3) by (auto simp: stops_def intro: grows_trans)
        have "literal_pending w ?X (unat len) rem out"
          if "literal_pending w1 ?X (unat len - unat avail) (drop (unat avail) rem) (out @ take (unat avail) rem)"
        proof -
          from that obtain ip' len' d' w' k where *: "?X = Inr (Some (ip', len'), d', w')"
            "k + unat len' = unat len - unat avail" "dinv d' ip' (drop k (drop (unat avail) rem))"
            "k \<le> length (drop (unat avail) rem)"
            "holds w' ((out @ take (unat avail) rem) @ take k (drop (unat avail) rem))"
            "unat len' \<le> ip_limit d' - ip'" "grows w1 w'"
            unfolding literal_pending_def by blast
          have "take (unat avail) rem @ take k (drop (unat avail) rem) = take (unat avail + k) rem"
            by (simp add: take_add)
          then show ?thesis
            using * lt ipl(2) grows_trans [OF w1(3) *(7)]
            by (intro literal_pendingI [OF *(1), where k = "unat avail + k"]) (auto simp: add.commute)
        qed
        then show ?thesis
          unfolding eq using IH st lt by (auto simp: sub)
      qed
    qed
  qed
qed simp

lemma readyD:
  assumes "ready d ip rem"
  obtains c cs where "rem = c # cs" "load8 (obj d) ip = Inr c" "dinv d (ip + 1) cs" "tag_extra c \<le> length cs"
    "tag_extra c \<le> ip_limit d - (ip + 1)" "ip + 1 + 4 \<le> length (obj d)"
    "dinv d (ip + 1 + tag_extra c) (drop (tag_extra c) cs)"
proof -
  obtain c cs where rem: "rem = c # cs" using assms by (cases rem) (auto simp: ready_def)
  have inv: "dinv d ip rem" and lim: "tag_extra c < ip_limit d - ip"
    using assms by (auto simp: ready_def rem)
  have inv1: "dinv d (ip + 1) cs" using dinv_advance [OF inv, of 1] lim by (simp add: rem)
  have "load8 (obj d) ip = Inr c"
    using dinv_nth [OF inv, of 0] lim assms by (simp add: rem mem_simps ready_def)
  moreover have "tag_extra c \<le> length cs" using dinv_nth(2) [OF inv lim] by (simp add: rem)
  moreover have "tag_extra c \<le> ip_limit d - (ip + 1)" using lim by linarith
  moreover have "dinv d (ip + 1 + tag_extra c) (drop (tag_extra c) cs)"
    using dinv_advance [OF inv1 calculation(3)] .
  ultimately show thesis using that rem inv1 assms by (simp add: ready_def)
qed

text \<open>The trailing bytes of a header, loaded four at a time and masked.\<close>

lemma trailer_ok:
  assumes "dinv d ip cs" "k \<le> ip_limit d - ip" "ip + 4 \<le> length (obj d)" "k \<le> 4"
  shows "\<exists>v. get_unaligned_le32 (obj d) ip = Inr v \<and> unat (v AND mask (8 * k)) = le_nat (take k cs)"
proof -
  let ?xs = "take 4 (drop ip (obj d))"
  have "take k ?xs = take k cs"
    using dinv_prefix [OF assms(1,2)] assms(4) by (simp add: min_def)
  moreover have "unat (le_word ?xs AND mask (8 * k) :: u32) = le_nat (take k ?xs)"
    using assms by (intro unat_masked) auto
  ultimately show ?thesis using assms(3) by (simp add: get_unaligned_le32_def mem_simps)
qed

lemma unat_literal_tag: "unat (ucast (drop_bit 2 c) + 1 :: u32) = unat (c :: u8) div 4 + 1"
proof -
  have "unat c < 256" using unsigned_less [of c] by simp
  then have "unat (ucast (drop_bit 2 c) :: u32) = unat c div 4"
    by (simp add: unsigned_ucast_eq drop_bit_eq_div unat_div take_bit_nat_eq_self_iff)
  then show ?thesis using \<open>unat c < 256\<close> by (simp add: unat_word_ariths)
qed

lemma tag_and_3: "c AND 3 = 0 \<longleftrightarrow> unat (c :: u8) mod 4 = 0"
proof -
  have "c AND 3 = take_bit 2 c" by (simp add: take_bit_eq_mask mask_eq_exp_minus_1)
  moreover have "unat (take_bit 2 c) = unat c mod 4" by (simp add: take_bit_eq_mod unat_mod)
  ultimately show ?thesis by (metis unat_0 unat_eq_zero)
qed

lemma long_literal_length_ok:
  assumes inv: "dinv d ip cs" and k: "tag_extra c \<le> ip_limit d - ip" and ip: "ip + 4 \<le> length (obj d)"
    and c: "unat c mod 4 = 0"
  shows "\<exists>len. long_literal_length (obj d) ip (ucast (drop_bit 2 c) + 1) = Inr (len, ip + tag_extra c)
           \<and> unat len = literal_len c (take (tag_extra c) cs)"
proof (cases "unat c div 4 < 60")
  case True
  then show ?thesis
    using c unat_literal_tag [of c]
    by (simp add: long_literal_length_def word_le_nat_alt tag_extra_def literal_len_def)
next
  case False
  define L where "L = (ucast (drop_bit 2 c) + 1 :: u32)"
  have L: "unat L = unat c div 4 + 1" unfolding L_def by (rule unat_literal_tag)
  have e: "tag_extra c = unat c div 4 - 59" using False c by (simp add: tag_extra_def)
  have L61: "61 \<le> L" using False L by (simp add: word_le_nat_alt)
  then have "unat (L - 60) = unat L - unat (60 :: u32)"
    by (intro unat_sub order_trans [OF _ L61]) simp
  then have ll: "unat (L - 60) = tag_extra c" by (simp add: L e)
  obtain v where v: "get_unaligned_le32 (obj d) ip = Inr v"
      "unat (v AND mask (8 * tag_extra c)) = le_nat (take (tag_extra c) cs)"
    using trailer_ok [OF inv k ip tag_extra_le] by auto
  have "unat ((v AND mask (8 * tag_extra c)) + 1) = (le_nat (take (tag_extra c) cs) + 1) mod 2 ^ 32"
    by (simp add: unat_word_ariths v(2))
  then show ?thesis
    using L61 v(1) False wordmask_nth [OF tag_extra_le [of c]]
    by (simp add: long_literal_length_def Let_def ll literal_len_def flip: L_def)
qed

text \<open>What the pass over one element has to do, in terms of the reference decoder.\<close>

definition element_done ::
    "writer \<Rightarrow> (nat option \<times> 's decompressor \<times> writer) c_result \<Rightarrow> buffer \<Rightarrow> buffer \<Rightarrow> bool" where
  "element_done w x rem out =
     (case decode_element rem of
        None \<Rightarrow> stops w x
      | Some (e, rem') \<Rightarrow>
          (case apply_element (w_op_limit w) out e of
             None \<Rightarrow> stops w x
           | Some out' \<Rightarrow> continues w x rem' out'))"

lemma literal_append_ok:
  assumes pend: "literal_pending w x (unat len) rem out"
    and step: "y = cbind x (\<lambda>(r, d, w).
       case r of
         None \<Rightarrow> Inr (None, d, w)
       | Some (ip, literal_length) \<Rightarrow>
           cbind (writer_append w (obj d) ip literal_length) (\<lambda>(ok, w).
             Inr (if ok then Some (ip + unat literal_length) else None, d, w)))"
  shows "unat len \<le> length rem \<and>
    (if length out + unat len \<le> w_op_limit w
     then continues w y (drop (unat len) rem) (out @ take (unat len) rem) else stops w y)"
proof -
  from pend obtain ip' len' d' w' k where *: "x = Inr (Some (ip', len'), d', w')"
    "k + unat len' = unat len" "dinv d' ip' (drop k rem)" "k \<le> length rem" "holds w' (out @ take k rem)"
    "unat len' \<le> ip_limit d' - ip'" "grows w w'"
    unfolding literal_pending_def by blast
  have ip: "ip' + unat len' \<le> length (obj d')" and le: "unat len' \<le> length (drop k rem)"
    using *(3,6) by (auto simp: dinv_def)
  have bytes: "take (unat len') (drop ip' (obj d')) = take (unat len') (drop k rem)"
    by (rule dinv_prefix [OF *(3,6)])
  have tk: "take k rem @ take (unat len') (drop k rem) = take (unat len) rem"
    by (simp add: take_add flip: *(2))
  have dr: "drop (unat len') (drop k rem) = drop (unat len) rem"
    using *(2) by (simp add: add.commute)
  have room: "length (out @ take k rem) + unat len' \<le> w_op_limit w' \<longleftrightarrow> length out + unat len \<le> w_op_limit w"
    using *(2,4,7) by (auto simp: grows_def)
  show ?thesis
  proof (cases "length out + unat len \<le> w_op_limit w")
    case True
    then obtain w2 where w2: "writer_append w' (obj d') ip' len' = Inr (True, w2)"
        "holds w2 (out @ take (unat len) rem)" "grows w' w2"
      using writer_append_holds [OF *(5) ip] room bytes tk by auto
    then have "continues w y (drop (unat len) rem) (out @ take (unat len) rem)"
      using dinv_advance [OF *(3,6), unfolded dr] grows_trans [OF *(7) w2(3)]
      by (simp add: step *(1) continues_def)
    then show ?thesis using True le *(2,4) by auto
  next
    case False
    then have "stops w y"
      using writer_append_full [OF *(5) ip] room *(1,7) dinv_exit_ok [OF *(3)] by (simp add: step stops_def)
    then show ?thesis using False le *(2,4) by auto
  qed
qed

lemma literal_tag_ok:
  assumes r: "ready d ip rem" and h: "holds w out" and c: "unat (hd rem) mod 4 = 0"
    and fuel: "length rem < fuel"
  shows "element_done w (literal_tag fuel peek skip d w (ip + 1) (hd rem)) rem out"
proof -
  obtain c cs where rem: "rem = c # cs" "dinv d (ip + 1) cs" "tag_extra c \<le> length cs"
      "tag_extra c \<le> ip_limit d - (ip + 1)" "ip + 1 + 4 \<le> length (obj d)"
      "dinv d (ip + 1 + tag_extra c) (drop (tag_extra c) cs)"
    using readyD [OF r] by metis
  have hd: "hd rem = c" by (simp add: rem(1))
  have c0: "unat c mod 4 = 0" using c by (simp add: hd)
  define k where "k = tag_extra c"
  define L where "L = (ucast (drop_bit 2 c) + 1 :: u32)"
  define av where "av = (word_of_nat (ip_limit d - (ip + 1)) :: u32)"
  define ll where "ll = literal_len c (take k cs)"
  let ?x = "literal_tag fuel peek skip d w (ip + 1) c"
  have dec: "decode_element rem =
      (if length (drop k cs) < ll then None else Some (Literal (take ll (drop k cs)), drop ll (drop k cs)))"
    using c0 rem(3) by (simp add: rem(1) Let_def k_def ll_def)
  have av: "unat av = ip_limit d - (ip + 1)" unfolding av_def by (rule dinv_limit [OF rem(2)])
  have L: "unat L = unat c div 4 + 1" unfolding L_def by (rule unat_literal_tag)
  have ip: "ip + 1 + unat av \<le> length (obj d)" using rem(2) by (simp add: av dinv_def)
  from writer_try_fast_append_holds [OF h ip, of L]
  show ?thesis
  proof (elim disjE exE conjE)
    fix w'
    assume f: "writer_try_fast_append w (obj d) (ip + 1) av L = Inr (True, w')" "unat L \<le> unat av"
      "unat L \<le> 16" "length out + unat L \<le> w_op_limit w"
      "holds w' (out @ take (unat L) (drop (ip + 1) (obj d)))" "grows w w'"
    have k0: "k = 0" "ll = unat L"
      using f(3) L c0 by (simp_all add: k_def ll_def tag_extra_def literal_len_def)
    have "L < 61" using f(3) by (simp add: word_less_nat_alt)
    then have x: "?x = Inr (Some (ip + 1 + unat L), d, w')"
      using f(1) by (simp add: literal_tag_def Let_def L_def av_def del: of_nat_diff)
    have "unat L \<le> length cs" using f(2) rem(2) av by (auto simp: dinv_def)
    moreover have "continues w ?x (drop (unat L) cs) (out @ take (unat L) cs)"
      using f dinv_advance [OF rem(2), of "unat L"] dinv_prefix [OF rem(2), of "unat L"] av
      unfolding continues_def x by auto
    ultimately show ?thesis
      using f(4) by (simp add: element_done_def dec k0 hd)
  next
    assume f: "writer_try_fast_append w (obj d) (ip + 1) av L = Inr (False, w)"
    obtain len where len: "long_literal_length (obj d) (ip + 1) L = Inr (len, ip + 1 + k)" "unat len = ll"
      using long_literal_length_ok [OF rem(2,4,5) c0] by (auto simp: L_def ll_def k_def)
    define lim where "lim = (word_of_nat (ip_limit d - (ip + 1 + k)) :: u32)"
    let ?y = "literal_loop fuel peek skip d w (ip + 1 + k) lim len"
    have x: "?x = cbind ?y (\<lambda>(r, d, w).
       case r of
         None \<Rightarrow> Inr (None, d, w)
       | Some (ip, literal_length) \<Rightarrow>
           cbind (writer_append w (obj d) ip literal_length) (\<lambda>(ok, w).
             Inr (if ok then Some (ip + unat literal_length) else None, d, w)))"
      using f len(1) by (simp add: literal_tag_def Let_def L_def av_def lim_def del: of_nat_diff)
    have "length (drop k cs) + (if lim = 0 then 1 else 0) < fuel" using fuel by (auto simp: rem(1))
    from literal_loop_ok [OF rem(6) [folded k_def] h _ this, of len]
    consider "stops w ?y" "\<not> (ll \<le> length (drop k cs) \<and> length out + ll \<le> w_op_limit w)"
      | "literal_pending w ?y (unat len) (drop k cs) out"
      using lim_def len(2) by auto
    then show ?thesis
    proof cases
      case 1
      then have "stops w ?x" unfolding x by (auto simp: stops_def)
      then show ?thesis using 1(2) by (auto simp: element_done_def dec hd)
    next
      case 2
      show ?thesis
        using literal_append_ok [OF 2 x] by (auto simp: element_done_def dec hd len(2))
    qed
  qed
qed

lemma copy_tag_ok:
  assumes r: "ready d ip rem" and h: "holds w out" and c: "unat (hd rem) mod 4 \<noteq> 0"
  shows "element_done w (copy_tag d w (ip + 1) (hd rem)) rem out"
proof -
  obtain c cs where rem: "rem = c # cs" "dinv d (ip + 1) cs" "tag_extra c \<le> length cs"
      "tag_extra c \<le> ip_limit d - (ip + 1)" "ip + 1 + 4 \<le> length (obj d)"
      "dinv d (ip + 1 + tag_extra c) (drop (tag_extra c) cs)"
    using readyD [OF r] by metis
  have hd: "hd rem = c" by (simp add: rem(1))
  define k where "k = tag_extra c"
  define e where "e = (ucast (char_table ! unat c) :: u32)"
  obtain v where v: "get_unaligned_le32 (obj d) (ip + 1) = Inr v" "unat (v AND mask (8 * k)) = le_nat (take k cs)"
    using trailer_ok [OF rem(2,4,5) tag_extra_le] by (auto simp: k_def)
  define off where "off = (e AND 0x700) + (v AND mask (8 * k))"
  define len where "len = e AND 0xff"
  have cp: "copy_of c (take k cs) = Copy (unat off) (unat len)" "0 < unat len" "unat len \<le> 64"
    using copy_entry [of c "take k cs", OF _ _ v(2)] c rem(3) by (auto simp: hd k_def off_def len_def e_def)
  have x: "copy_tag d w (ip + 1) c =
      cbind (writer_append_from_self w off len) (\<lambda>(ok, w). Inr (if ok then Some (ip + 1 + k) else None, d, w))"
    using v(1) wordmask_nth [OF tag_extra_le [of c]]
    by (simp add: copy_tag_def char_table_get Let_def entry_extra off_def len_def e_def flip: k_def
        cong: if_cong del: drop_bit_numeral_bit0)
  have dec: "decode_element rem = Some (Copy (unat off) (unat len), drop k cs)"
    using c rem(3) cp(1) by (simp add: rem(1) Let_def k_def)
  note app = writer_append_from_self_ok [OF h cp(2,3), of off]
  show ?thesis
  proof (cases "0 < unat off \<and> unat off \<le> length out \<and> length out + unat len \<le> w_op_limit w")
    case True
    then obtain w' where "writer_append_from_self w off len = Inr (True, w')"
        "holds w' (self_copy (unat off) (unat len) out)" "grows w w'"
      using app by auto
    then show ?thesis
      using True rem(6) unfolding element_done_def dec hd x by (simp add: continues_def k_def)
  next
    case False
    then have "stops w (copy_tag d w (ip + 1) c)"
      using app dinv_exit_ok [OF rem(2)] unfolding x by (auto simp: stops_def)
    then show ?thesis using False unfolding element_done_def dec hd by auto
  qed
qed

section \<open>The tag loop\<close>

definition finishes :: "writer \<Rightarrow> ('s decompressor \<times> writer) c_result \<Rightarrow> buffer \<Rightarrow> buffer \<Rightarrow> bool" where
  "finishes w x rem out \<longleftrightarrow>
     (\<exists>d' w'. x = Inr (d', w') \<and> exit_ok d' \<and> grows w w' \<and>
        take (length (decoded (w_op_limit w) out rem)) (wmem w') = decoded (w_op_limit w) out rem \<and>
        (case decode (w_op_limit w) out rem of None \<Rightarrow> \<not> eof d' | Some out' \<Rightarrow> eof d' \<and> holds w' out'))"

lemma decoded_stop: "decode_element rem = None \<or> apply_element limit out (fst (the (decode_element rem))) = None \<Longrightarrow> decoded limit out rem = out"
  by (auto simp: decoded.simps [of _ _ rem] split: option.splits)

lemma holds_take: "holds w out \<Longrightarrow> take (length out) (wmem w) = out"
  by (simp add: holds_def)

lemma decompress_loop_ok:
  assumes "dinv d ip rem" "holds w out" "length rem < fuel"
  shows "finishes w (decompress_loop fuel peek skip d w ip) rem out"
  using assms
proof (induction fuel arbitrary: d w ip rem out)
  case (Suc fuel)
  from Suc.prems(1) show ?case
  proof (cases rule: maybe_refill_ok)
    case (finished d')
    then show ?thesis using Suc.prems(2) by (simp add: finishes_def decode.simps decoded.simps holds_take)
  next
    case (cut d')
    then have "decode_element rem = None" by (cases rem) (simp_all add: Let_def)
    then show ?thesis using cut Suc.prems(2) by (simp add: finishes_def decode.simps decoded_stop holds_take)
  next
    case (tag d' ip')
    obtain c cs where rem: "rem = c # cs" "load8 (obj d') ip' = Inr c" using readyD [OF tag(4)] by metis
    define x where "x = (if c AND 3 = 0 then literal_tag (Suc fuel) peek skip d' w (ip' + 1) c
                         else copy_tag d' w (ip' + 1) c)"
    have el: "element_done w x rem out"
      using literal_tag_ok [OF tag(4) Suc.prems(2) _ Suc.prems(3)] copy_tag_ok [OF tag(4) Suc.prems(2)]
      by (auto simp: x_def tag_and_3 rem(1))
    have loop: "decompress_loop (Suc fuel) peek skip d w ip = cbind x (\<lambda>(r, d, w).
         case r of
           None \<Rightarrow> Inr (d, w)
         | Some ip \<Rightarrow>
             cbind (maybe_refill peek skip d ip) (\<lambda>(r, d).
             case r of
               None \<Rightarrow> Inr (d, w)
             | Some ip \<Rightarrow> decompress_loop fuel peek skip d w ip))"
      using tag(3) rem(2) by (simp add: x_def)
    show ?thesis
    proof (cases "stops w x")
      case True
      moreover have "decode (w_op_limit w) out rem = None \<and> decoded (w_op_limit w) out rem = out \<or> continues w x rem' out'" for rem' out'
        using el True
        by (auto simp: element_done_def decode.simps [of _ _ rem] decoded.simps [of _ _ rem] continues_def stops_def tag(1)
            split: option.splits)
      ultimately have "decode (w_op_limit w) out rem = None" "decoded (w_op_limit w) out rem = out"
        by (auto simp: stops_def continues_def)
      then show ?thesis using True grows_holds [OF _ Suc.prems(2)] unfolding loop finishes_def by (auto simp: stops_def)
    next
      case False
      then obtain e rem' out' where dec: "decode_element rem = Some (e, rem')"
          "apply_element (w_op_limit w) out e = Some out'" "continues w x rem' out'"
        using el by (auto simp: element_done_def split: option.splits prod.splits)
      then obtain ip1 d1 w1 where c1: "x = Inr (Some ip1, d1, w1)" "dinv d1 ip1 rem'" "holds w1 out'" "grows w w1"
        by (auto simp: continues_def)
      have deq: "decode (w_op_limit w) out rem = decode (w_op_limit w1) out' rem'"
          "decoded (w_op_limit w) out rem = decoded (w_op_limit w1) out' rem'"
        using dec c1(4) tag(1) by (simp_all add: decode.simps [of _ _ rem] decoded.simps [of _ _ rem] grows_def)
      have short: "length rem' < fuel" using decode_element_shorter [OF dec(1)] Suc.prems(3) by simp
      have "finishes w1 (decompress_loop (Suc fuel) peek skip d w ip) rem' out'"
        using c1(2)
      proof (cases rule: maybe_refill_ok)
        case (finished d')
        then show ?thesis using c1 unfolding loop finishes_def by (simp add: decode.simps decoded.simps holds_take)
      next
        case (cut d')
        then have "decode_element rem' = None" by (cases rem') (simp_all add: Let_def)
        then show ?thesis using cut c1 unfolding loop finishes_def by (simp add: decode.simps decoded_stop holds_take)
      next
        case (tag d2 ip2)
        then have "dinv d2 ip2 rem'" by (simp add: ready_def)
        from Suc.IH [OF this c1(3) short] show ?thesis using tag(3) c1(1) unfolding loop by simp
      qed
      then show ?thesis using grows_trans [OF c1(4)] unfolding finishes_def deq by blast
    qed
  qed
qed simp

lemma decompress_all_tags_ok:
  assumes "dinv d (d_ip d) rem" "holds w out" "length rem < fuel"
  shows "finishes w (decompress_all_tags fuel peek skip d w) rem out"
  using assms(1)
proof (cases rule: maybe_refill_ok)
  case (finished d')
  then show ?thesis using assms(2) by (simp add: decompress_all_tags_def finishes_def decode.simps decoded.simps holds_take)
next
  case (cut d')
  then have "decode_element rem = None" by (cases rem) (simp_all add: Let_def)
  then show ?thesis using cut assms(2) by (simp add: decompress_all_tags_def finishes_def decode.simps decoded_stop holds_take)
next
  case (tag d' ip')
  then have "dinv d' ip' rem" by (simp add: ready_def)
  from decompress_loop_ok [OF this assms(2,3)] show ?thesis using tag(3) by (simp add: decompress_all_tags_def)
qed

section \<open>Header and entry point\<close>

lemma read_length_loop_ok:
  assumes "invar r" "free r \<or> 35 \<le> shift + 7 * room r"
  shows "case header shift v (rest r) of
           None \<Rightarrow> \<exists>r'. read_length_loop peek skip r shift v = Inr (None, r')
         | Some (v', cs) \<Rightarrow> \<exists>r'. read_length_loop peek skip r shift v = Inr (Some v', r') \<and> invar r' \<and> rest r' = cs"
  using assms
proof (induction "rest r" arbitrary: r shift v)
  case Nil
  obtain m n where pk: "peek r = (m, n)" by fastforce
  then show ?case
    using peek_zero_iff [OF Nil(2) pk] Nil(1) by (simp add: read_length_loop.simps flip: Nil(1))
next
  case (Cons c cs)
  obtain m n where pk: "peek r = (m, n)" by fastforce
  have n: "0 < n" using peek_zero_iff [OF Cons.prems(1) pk] Cons.hyps(2) by (cases n) auto
  show ?case
  proof (cases "32 \<le> shift")
    case True
    then show ?thesis by (simp add: read_length_loop.simps flip: Cons.hyps(2))
  next
    case False
    then have "roomy r \<or> 1 \<le> room r" using Cons.prems(2) Cons.hyps(2) by (auto simp: free_def)
    then obtain r' where r': "skip r 1 = Inr r'" "invar r'" "rest r' = cs"
      using skip_reader [OF Cons.prems(1) pk, of 1] n Cons.hyps(2) [symmetric] by auto
    have "free r' \<or> 35 \<le> shift + 7 + 7 * room r'"
    proof (cases "roomy r \<or> n = 1")
      case True
      then show ?thesis
        using skip_roomy [OF Cons.prems(1) _ r'(1)] skip_all [OF Cons.prems(1) pk n] r'(1) by (auto simp: free_def)
    next
      case False
      then show ?thesis
        using skip_room [OF Cons.prems(1) pk _ _ r'(1)] n Cons.prems(2) Cons.hyps(2) \<open>roomy r \<or> 1 \<le> room r\<close>
        by (auto simp: free_def)
    qed
    note r' = r' this
    have ld: "load8 m 0 = Inr c" using load8_peek [OF Cons.prems(1) pk n] by (simp flip: Cons.hyps(2))
    define v1 where "v1 = v OR push_bit shift (ucast (c AND 0x7f))"
    have eq: "read_length_loop peek skip r shift v =
        (if c < 128 then Inr (Some v1, r') else read_length_loop peek skip r' (shift + 7) v1)"
      using pk n ld r'(1) False by (subst read_length_loop.simps) (simp add: v1_def)
    show ?thesis
      using Cons.hyps(1) [OF r'(3) [symmetric] r'(2,4), of v1] r'(2,3) False
      unfolding eq by (simp add: Let_def v1_def flip: Cons.hyps(2))
  qed
qed

lemma internal_uncompress_ok:
  assumes r: "invar r" and scr: "length scratch0 = 5" and fuel: "length (rest r) < fuel"
    and pos: "rest r = [] \<or> roomy r \<or> 5 \<le> room r"
    and w: "w_base w = 0" "w_op w = 0" and room: "announced (rest r) \<le> length (wmem w)"
  shows "case snappy_decode (rest r) of
           None \<Rightarrow> \<exists>w'. internal_uncompress fuel peek skip scratch0 r w 0xffffffff = Inr (- EIO, w')
                     \<and> length (wmem w') = length (wmem w) \<and> take (length (decoded_part (rest r))) (wmem w') = decoded_part (rest r)
         | Some out \<Rightarrow> \<exists>w'. internal_uncompress fuel peek skip scratch0 r w 0xffffffff = Inr (0, w')
                     \<and> length (wmem w') = length (wmem w) \<and> take (length out) (wmem w') = out"
proof (cases "header 0 0 (rest r)")
  case None
  then show ?thesis
    using read_length_loop_ok [OF r, of 0 0] pos
    by (auto simp: snappy_decode_def internal_uncompress_def read_uncompressed_length_def
        init_snappy_decompressor_def decoded_part_def free_def)
next
  case (Some p)
  then obtain v cs where p: "header 0 0 (rest r) = Some (v, cs)" by (cases p) auto
  then obtain r' where r': "read_length_loop peek skip r 0 0 = Inr (Some v, r')" "invar r'" "rest r' = cs"
    using read_length_loop_ok [OF r, of 0 0] pos by (auto simp: free_def)
  define d where "d = init_snappy_decompressor r' scratch0"
  define w0 where "w0 = w\<lparr>w_op_limit := unat v\<rparr>"
  have len: "length cs \<le> length (rest r)"
    using header_shorter [OF p] by simp
  have inv: "dinv d (d_ip d) cs"
    using r'(2,3) scr rest_small [OF r'(2)]
    by (simp add: d_def init_snappy_decompressor_def dinv_def exit_ok_def obj_def)
  have h: "holds w0 []"
    using w room unsigned_less [of v] by (simp add: w0_def holds_def announced_def p)
  have "finishes w0 (decompress_all_tags fuel peek skip d w0) cs []"
    using decompress_all_tags_ok [OF inv h] len fuel by simp
  then obtain d' w' where f: "decompress_all_tags fuel peek skip d w0 = Inr (d', w')" "exit_ok d'" "grows w0 w'"
      "case decode (unat v) [] cs of None \<Rightarrow> \<not> eof d' | Some out' \<Rightarrow> eof d' \<and> holds w' out'"
      "take (length (decoded (unat v) [] cs)) (wmem w') = decoded (unat v) [] cs"
    by (auto simp: finishes_def w0_def)
  obtain d2 where d2: "exit_snappy_decompressor skip d' = Inr d2" "eof d2 = eof d'"
    using exit_ok_exit [OF f(2)] by auto
  have v32: "\<not> (0xffffffff :: u32) < v" 
    by (simp add: not_less word_le_nat_alt) (use unsigned_less [of v, where 'a = nat] in simp)
  have w0': "writer_set_expected_length w (unat v) = w0"
    using w by (simp add: writer_set_expected_length_def w0_def)
  have x: "internal_uncompress fuel peek skip scratch0 r w 0xffffffff =
      (if eof d' \<and> writer_check_length w' then Inr (0, w') else Inr (- EIO, w'))"
    using r'(1) f(1) [unfolded d_def init_snappy_decompressor_def] d2 v32
    by (simp add: internal_uncompress_def read_uncompressed_length_def init_snappy_decompressor_def Let_def w0')
  have ext: "length (wmem w') = length (wmem w)" "w_op_limit w' = unat v"
    using f(3) by (simp_all add: grows_def w0_def)
  show ?thesis
    using f(4,5) ext unfolding x
    by (auto simp: snappy_decode_def decoded_part_def p writer_check_length_def holds_def split: option.splits)
qed

end

section \<open>The two builds\<close>

text \<open>
  C4. \<^verbatim>\<open>snappy_uncompress\<close> implements the reference decoder on every input of less than 4 GiB: given an
  output buffer of at least the length the input announces, it does not fault (no access outside the
  input, the output or a table, no failed assertion, no endless loop), returns \<open>0\<close> with the decoded
  bytes in the output exactly when the input is well formed, and \<^verbatim>\<open>-EIO\<close> otherwise, with the output up to the first error.
\<close>

theorem snappy_uncompress_correct:
  assumes "n \<le> length compressed" "n < 2 ^ 32" "length scratch0 = 5"
    "announced (take n compressed) \<le> length uncompressed"
  shows "case snappy_decode (take n compressed) of
           None \<Rightarrow> \<exists>buf. snappy_uncompress scratch0 compressed n uncompressed = Inr (- EIO, buf)
                     \<and> length buf = length uncompressed
                     \<and> take (length (decoded_part (take n compressed))) buf = decoded_part (take n compressed)
         | Some out \<Rightarrow> \<exists>buf. snappy_uncompress scratch0 compressed n uncompressed = Inr (0, buf)
                     \<and> length buf = length uncompressed \<and> take (length out) buf = out"
proof -
  let ?r = "\<lparr>smem = compressed, ptr = 0, left = n\<rparr>"
  let ?w = "\<lparr>wmem = uncompressed, w_base = 0, w_op = 0, w_op_limit = 0\<rparr>"
  have "source_invar ?r" "source_rest ?r = take n compressed"
    using assms by (simp_all add: source_invar_def source_rest_def)
  then show ?thesis
    using flat.internal_uncompress_ok [of ?r scratch0 "Suc n" ?w] assms
    by (auto simp: snappy_uncompress_def Let_def split: option.splits)
qed

theorem snappy_uncompress_correct_witness:
  "snappy_decode (take 8 [6, 8, 1, 2, 3, 10, 3, 0, 99]) = Some [1, 2, 3, 1, 2, 3]
   \<and> (\<exists>buf. snappy_uncompress (replicate 5 0) [6, 8, 1, 2, 3, 10, 3, 0, 99] 8 (replicate 6 0) = Inr (0, buf)
          \<and> take 6 buf = [1, 2, 3, 1, 2, 3])"
proof -
  define cs :: buffer where "cs = [6, 8, 1, 2, 3, 10, 3, 0, 99]"
  have "snappy_decode (take 8 cs) = Some [1, 2, 3, 1, 2, 3]" "announced (take 8 cs) = 6" "length cs = 9"
    unfolding cs_def by code_simp+
  then show ?thesis
    using snappy_uncompress_correct [of 8 cs "replicate 5 0" "replicate 6 0"] by (auto simp flip: cs_def)
qed

text \<open>The scatter-gather reader before the first byte is read.\<close>

lemma sg_begin:
  fixes n :: nat
  defines "r vs \<equiv> \<lparr>iov = vs, iovlen = length vs, curvec = 0, curoff = 0, total = n\<rparr>"
  assumes "vs \<noteq> []"
  shows "iov_rest (r vs) = concat (map iov_bytes vs)" "iov_off (r vs) = 0"
  using assms(2) by (cases vs; simp add: iov_rest_def iov_off_def r_def)+

lemma sg_begin_invar:
  assumes "vs \<noteq> []" "\<forall>v \<in> set vs. iov_len v \<le> length (iov_base v) \<and> iov_len v < 2 ^ 31" "empties_last vs"
    "length (concat (map iov_bytes vs)) < 2 ^ 32"
  shows "iov_invar \<lparr>iov = vs, iovlen = length vs, curvec = 0, curoff = 0, total = n\<rparr>"
proof -
  have "0 < iov_len (vs ! 0) \<or> iov_len (vs ! 0) = 0 \<and> empty_after 0 vs"
    using assms(3) by (auto simp: empties_last_def empty_after_def)
  then show ?thesis using assms sg_begin [OF assms(1), of n] by (simp add: iov_invar_def)
qed

text \<open>
  C14. The scatter-gather entry point \<^verbatim>\<open>snappy_uncompress_iov\<close> decodes the concatenation of the input vectors
  the same way, however the input is cut into vectors of less than 2 GiB each, with and without its checks compiled in (the flag \<open>dbg\<close>).
\<close>

theorem snappy_uncompress_iov_correct:
  assumes iov: "iov_in \<noteq> []" "\<forall>v \<in> set iov_in. iov_len v \<le> length (iov_base v) \<and> iov_len v < 2 ^ 31" "empties_last iov_in"
    "length (concat (map iov_bytes iov_in)) < 2 ^ 32"
    and scr: "length scratch0 = 5" and room: "announced (concat (map iov_bytes iov_in)) \<le> length uncompressed"
  shows "case snappy_decode (concat (map iov_bytes iov_in)) of
           None \<Rightarrow> \<exists>buf. snappy_uncompress_iov dbg scratch0 iov_in (length iov_in) input_len uncompressed = Inr (- EIO, buf)
                     \<and> length buf = length uncompressed
                     \<and> take (length (decoded_part (concat (map iov_bytes iov_in)))) buf = decoded_part (concat (map iov_bytes iov_in))
         | Some out \<Rightarrow> \<exists>buf. snappy_uncompress_iov dbg scratch0 iov_in (length iov_in) input_len uncompressed = Inr (0, buf)
                     \<and> length buf = length uncompressed \<and> take (length out) buf = out"
proof -
  let ?r = "\<lparr>iov = iov_in, iovlen = length iov_in, curvec = 0, curoff = 0, total = input_len\<rparr>"
  let ?w = "\<lparr>wmem = uncompressed, w_base = 0, w_op = 0, w_op_limit = 0\<rparr>"
  have "iov_invar ?r" using iov by (rule sg_begin_invar)
  then show ?thesis
    using sg.internal_uncompress_ok [of ?r scratch0 "Suc (length (concat (map iov_bytes iov_in)))" ?w dbg] scr room
    by (auto simp: snappy_uncompress_iov_def Let_def sg_begin [OF iov(1)] split: option.splits)
qed

theorem snappy_uncompress_iov_correct_witness:
  "\<exists>buf. snappy_uncompress_iov True (replicate 5 0)
       [\<lparr>iov_base = [6, 8, 1], iov_len = 3\<rparr>, \<lparr>iov_base = [2, 3, 10, 3, 0], iov_len = 5\<rparr>] 2 8 (replicate 6 0) = Inr (0, buf)
     \<and> take 6 buf = [1, 2, 3, 1, 2, 3]"
proof -
  define vs :: "iovec list" where
    "vs = [\<lparr>iov_base = [6, 8, 1], iov_len = 3\<rparr>, \<lparr>iov_base = [2, 3, 10, 3, 0], iov_len = 5\<rparr>]"
  have c: "concat (map iov_bytes vs) = [6, 8, 1, 2, 3, 10, 3, 0]" by (simp add: vs_def iov_bytes_def)
  have d: "snappy_decode [6, 8, 1, 2, 3, 10, 3, 0] = Some [1, 2, 3, 1, 2, 3]"
    and a: "announced [6, 8, 1, 2, 3, 10, 3, 0] = 6"
    by code_simp+
  have "empties_last vs" by (auto simp: empties_last_def vs_def less_Suc_eq nth_Cons split: nat.splits)
  moreover have "vs \<noteq> []" "\<forall>v \<in> set vs. iov_len v \<le> length (iov_base v) \<and> iov_len v < 2 ^ 31" "length vs = 2"
    by (simp_all add: vs_def)
  ultimately show ?thesis
    using snappy_uncompress_iov_correct [of vs "replicate 5 0" "replicate 6 0" True 8] unfolding c d a
    by (auto simp flip: vs_def)
qed

text \<open>
  Without the checks, a single vector may be as long as 4 GiB: its offset wraps when all of it has been read, and reads as the end.
\<close>

lemma snappy_uncompress_wide:
  assumes "n \<le> length m" "n < 2 ^ 32" "length scratch0 = 5" "announced (take n m) \<le> length uncompressed"
    "snappy_decode (take n m) = Some out"
  shows "\<exists>buf. snappy_uncompress_iov False scratch0 [\<lparr>iov_base = m, iov_len = n\<rparr>] 1 input_len uncompressed = Inr (0, buf)
           \<and> length buf = length uncompressed \<and> take (length out) buf = out"
proof -
  let ?v = "\<lparr>iov_base = m, iov_len = n\<rparr>"
  let ?r = "\<lparr>iov = [?v], iovlen = 1, curvec = 0, curoff = 0, total = input_len\<rparr>"
  let ?w = "\<lparr>wmem = uncompressed, w_base = 0, w_op = 0, w_op_limit = 0\<rparr>"
  have "iov_wide ?r" "int_room ?r = 2 ^ 31 - 1" using assms(1,2) by (simp_all add: iov_wide_def int_room_def)
  moreover have "iov_rest ?r = take n m" using sg_begin(1) [of "[?v]" input_len] by (simp add: iov_bytes_def)
  ultimately show ?thesis
    using wide.internal_uncompress_ok [of ?r scratch0 "Suc (length (concat (map iov_bytes [?v])))" ?w] assms
    by (auto simp: snappy_uncompress_iov_def Let_def iov_bytes_def)
qed

end
