(* ===== verification/Snappy_Roundtrip.thy ===== *)
theory Snappy_Roundtrip
  imports Snappy_Compress_Correct Snappy_Decompress_Correct
begin

text \<open>
  Compressor and decompressor together: what \<^verbatim>\<open>snappy_compress\<close> writes decodes to its input, the round trip through
  \<^verbatim>\<open>snappy_uncompress\<close>, the size of the buffers on both sides, and the inputs on which the entry points
  do not do what their comments promise.
\<close>

section \<open>The length header\<close>

lemma ucast_take_bit_7: "(ucast (take_bit 7 c) :: u32) = take_bit 7 (ucast (c :: u8))"
  by (rule bit_word_eqI) (auto simp: bit_simps)

lemma ucast_less_128: "(c :: u8) < 128 \<longleftrightarrow> (ucast c :: u32) < 128"
proof -
  have "unat (ucast c :: u32) = unat c"
    using unsigned_less [of c, where 'a = nat] by (simp add: unsigned_ucast_eq take_bit_nat_eq_self_iff)
  then show ?thesis by (simp add: word_less_nat_alt)
qed

lemmas header_simps = ucast_take_bit_7 ucast_less_128 Let_def

lemma header_varint_bytes: "header 0 0 (varint_bytes v @ cs) = Some (v, cs)"
proof -
  consider "v < 2 ^ 7" | "\<not> v < 2 ^ 7" "v < 2 ^ 14" | "\<not> v < 2 ^ 7" "\<not> v < 2 ^ 14" "v < 2 ^ 21"
    | "\<not> v < 2 ^ 7" "\<not> v < 2 ^ 14" "\<not> v < 2 ^ 21" "v < 2 ^ 28"
    | "\<not> v < 2 ^ 7" "\<not> v < 2 ^ 14" "\<not> v < 2 ^ 21" "\<not> v < 2 ^ 28" by blast
  then show ?thesis
  proof cases
    case 1
    with ucast_last_byte_less [of v 7 0 7] show ?thesis
      by (simp add: varint_bytes_def header_simps varint_byte_simps)
  next
    case 2
    with ucast_last_byte_less [of v 14 7 7] show ?thesis
      by (simp add: varint_bytes_def header_simps varint_byte_simps)
  next
    case 3
    with ucast_last_byte_less [of v 21 14 7] show ?thesis
      by (simp add: varint_bytes_def header_simps varint_byte_simps)
  next
    case 4
    with ucast_last_byte_less [of v 28 21 7] show ?thesis
      by (simp add: varint_bytes_def header_simps varint_byte_simps)
  next
    case 5
    have "drop_bit 28 v < (2 ^ 7 :: u32)"
      using ucast_last_byte_28 [of v] by (elim conjE less_trans) simp
    with ucast_last_byte_28 [of v] 5 show ?thesis
      by (simp add: varint_bytes_def header_simps varint_byte_simps)
  qed
qed

lemma snappy_decode_stream:
  assumes "well_formed 0 es" "expand_all es [] = bs" "length bs < 2 ^ 32"
  shows "snappy_decode (varint_bytes (word_of_nat (length bs)) @ encode_all es) = Some bs"
proof -
  have "expanded_len es = length bs" using length_expand_all [of es "[]"] assms(2) by simp
  then have "decode (length bs) [] (encode_all es @ []) = decode (length bs) bs []"
    using decode_encode_all [of "[]" es "length bs" "[]"] assms by simp
  then show ?thesis
    using assms(3) by (simp add: snappy_decode_def header_varint_bytes unat_u32 decode.simps [of _ _ "[]"])
qed

lemma announced_stream: "n < 2 ^ 32 \<Longrightarrow> announced (varint_bytes (word_of_nat n) @ cs) = n"
  by (simp add: announced_def header_varint_bytes unat_u32)

text \<open>The reference stream decodes to its input.\<close>

lemma snappy_decode_reference: "length xs < 2 ^ 32 \<Longrightarrow> snappy_decode (snappy_stream xs) = Some xs"
  using stream_elements_ok [of xs] snappy_decode_stream [of "stream_elements xs" xs] by (simp add: snappy_stream_def)

text \<open>What follows the stream does not change what is decoded.\<close>

lemma decoded_part_reference:
  assumes "length xs < 2 ^ 32"
  shows "decoded_part (snappy_stream xs @ cs) = xs"
proof -
  let ?es = "stream_elements xs"
  have es: "well_formed 0 ?es" "expand_all ?es [] = xs" using stream_elements_ok [of xs] by simp_all
  have "expanded_len ?es = length xs" using length_expand_all [of ?es "[]"] es(2) by simp
  then have "decoded (length xs) [] (encode_all ?es @ cs) = decoded (length xs) xs cs"
    using decode_encode_all [of "[]" ?es "length xs" cs] es by simp
  then show ?thesis using assms by (simp add: decoded_part_def snappy_stream_def header_varint_bytes unat_u32 decoded_full)
qed

lemma announced_reference: "length xs < 2 ^ 32 \<Longrightarrow> announced (snappy_stream xs @ cs) = length xs"
  by (simp add: snappy_stream_def announced_stream)

text \<open>What \<^verbatim>\<open>snappy_uncompress\<close> does with a stream that decodes.\<close>

lemma uncompress_stream:
  assumes "len \<le> length buf" "len < 2 ^ 32" "length scratch0 = 5" "snappy_decode (take len buf) = Some bs"
    "length bs \<le> length out"
  shows "\<exists>out'. snappy_uncompress scratch0 buf len out = Inr (0, out') \<and> take (length bs) out' = bs"
proof -
  let ?r = "\<lparr>smem = buf, ptr = 0, left = len\<rparr>"
  let ?w = "\<lparr>wmem = out, w_base = 0, w_op = 0, w_op_limit = 0\<rparr>"
  have "source_invar ?r" "source_rest ?r = take len buf"
    using assms by (simp_all add: source_invar_def source_rest_def)
  moreover have "announced (take len buf) = length bs"
    using assms(4) by (auto simp: announced_def snappy_decode_def split: option.splits if_splits)
  ultimately show ?thesis
    using flat.internal_uncompress_ok [of ?r scratch0 "Suc len" ?w] assms
    by (auto simp: snappy_uncompress_def Let_def)
qed

section \<open>Compression\<close>

definition table_ready :: "snappy_env \<Rightarrow> bool" where
  "table_ready env = (case hash_table env of None \<Rightarrow> False | Some t \<Rightarrow> length t = kmax_hash_table_size)"

interpretation flat_comp: compressor peek skip source_rest source_invar sink_peek append_sink
    "sink_written start" sink_room "sink_invar start cap" for start cap
  by (rule compressor.intro) unfold_locales

lemma flat_contiguous: "flat.contiguous"
  by (auto simp: flat.contiguous_def peek_def source_rest_def source_invar_def)

lemma flat_ready: "flat_comp.ready start cap env \<longleftrightarrow> table_ready env"
  by (auto simp: flat_comp.ready_def flat.env_ok_def table_ready_def flat_contiguous flat_comp.direct_def sink_peek_def
      split: option.splits)

lemma available_small: "left r < 2 ^ 31 \<Longrightarrow> available r = int (left r)"
  by (simp add: available_def signed_of_nat signed_take_bit_int_eq_self)

lemma snappy_compress_stream:
  assumes "table_ready env" "n \<le> length input" "n < 2 ^ 31" "snappy_max_compressed_length n \<le> length compressed"
  shows "\<exists>env' buf len. snappy_compress env input n compressed = Inr (0, env', buf, len) \<and> table_ready env'
           \<and> len \<le> snappy_max_compressed_length n \<and> length buf = length compressed \<and> len \<le> length buf
           \<and> take len buf = snappy_stream (take n input)"
proof -
  let ?r = "\<lparr>smem = input, ptr = 0, left = n\<rparr>" and ?w = "\<lparr>sink_mem = compressed, dest = 0\<rparr>"
  have r: "source_invar ?r" "source_rest ?r = take n input" "length (source_rest ?r) = n"
    using assms(2,3) by (simp_all add: source_invar_def source_rest_def)
  have "available ?r = int (length (source_rest ?r))" using assms(3) r(3) by (simp add: available_small)
  moreover have "sink_invar 0 (length compressed) ?w" by (simp add: sink_invar_def)
  moreover have "snappy_max_compressed_length (length (source_rest ?r)) \<le> sink_room ?w"
    using assms(4) unfolding r(3) by (simp add: sink_room_def)
  ultimately obtain env' r' w' where c: "compress available peek skip sink_peek append_sink env ?r ?w = Inr (0, env', r', w')"
      "table_ready env'" "sink_invar 0 (length compressed) w'" "sink_written 0 w' = sink_written 0 ?w @ snappy_stream (take n input)"
    using flat_comp.compress_ok [of 0 "length compressed" env ?r ?w available] assms(1) r(1,2) unfolding flat_ready by auto
  have w': "take (dest w') (sink_mem w') = snappy_stream (take n input)" "dest w' \<le> length (sink_mem w')"
    "length (sink_mem w') = length compressed"
    using c(3,4) by (simp_all add: sink_written_def sink_invar_def)
  have "dest w' = length (snappy_stream (take n input))"
    using arg_cong [OF w'(1), of length] w'(2) by simp
  then show ?thesis using c(1,2) w' length_snappy_stream [of "take n input"] assms(2) by (auto simp: snappy_compress_def)
qed

text \<open>
  C5. \<^verbatim>\<open>snappy_compress\<close> on every input below 2 GiB, with an output buffer of
  \<^verbatim>\<open>snappy_max_compressed_length\<close> bytes: it ends without a failed assertion and without an access outside the input, the
  output or the hash table, returns \<open>0\<close>, reports at most \<^verbatim>\<open>snappy_max_compressed_length\<close> bytes, leaves the environment ready
  for the next call whatever was in its table, and the bytes written are those of the reference compressor, which the reference decoder turns
  back into the input.
\<close>

theorem snappy_compress_correct:
  assumes "table_ready env" "n \<le> length input" "n < 2 ^ 31" "snappy_max_compressed_length n \<le> length compressed"
  shows "\<exists>env' buf len. snappy_compress env input n compressed = Inr (0, env', buf, len) \<and> table_ready env'
           \<and> len \<le> snappy_max_compressed_length n \<and> length buf = length compressed
           \<and> take len buf = snappy_stream (take n input) \<and> snappy_decode (take len buf) = Some (take n input)"
proof -
  obtain env' buf len where c: "snappy_compress env input n compressed = Inr (0, env', buf, len)" "table_ready env'"
      "len \<le> snappy_max_compressed_length n" "length buf = length compressed" "take len buf = snappy_stream (take n input)"
    using snappy_compress_stream [OF assms] by blast
  moreover have "snappy_decode (take len buf) = Some (take n input)"
    using snappy_decode_reference [of "take n input"] assms(3) c(5) by simp
  ultimately show ?thesis by blast
qed

theorem snappy_compress_correct_witness:
  "\<exists>env' buf len. snappy_compress \<lparr>hash_table = Some (replicate kmax_hash_table_size 9), env_scratch = None, scratch_output = None\<rparr>
      [7, 7, 7, 7] 4 (replicate 36 0) = Inr (0, env', buf, len) \<and> table_ready env'
      \<and> len \<le> snappy_max_compressed_length 4 \<and> length buf = length (replicate 36 (0 :: u8))
      \<and> take len buf = snappy_stream (take 4 [7, 7, 7, 7]) \<and> snappy_decode (take len buf) = Some (take 4 [7, 7, 7, 7])"
  by (rule snappy_compress_correct) (simp_all add: table_ready_def snappy_max_compressed_length_def)

text \<open>
  C1. Round trip: \<^verbatim>\<open>snappy_uncompress\<close> on what \<^verbatim>\<open>snappy_compress\<close> wrote returns \<open>0\<close> and restores the input, for every
  input below 2 GiB and any output buffer of at least its size.
\<close>

theorem snappy_roundtrip:
  assumes "table_ready env" "n \<le> length input" "n < 2 ^ 31" "snappy_max_compressed_length n \<le> length compressed"
    and "n \<le> length out" "length scratch0 = 5"
  shows "\<exists>env' buf len out'. snappy_compress env input n compressed = Inr (0, env', buf, len)
           \<and> snappy_uncompress scratch0 buf len out = Inr (0, out') \<and> take n out' = take n input"
proof -
  obtain env' buf len where c: "snappy_compress env input n compressed = Inr (0, env', buf, len)"
      "len \<le> snappy_max_compressed_length n" "len \<le> length buf" "take len buf = snappy_stream (take n input)"
    using snappy_compress_stream [OF assms(1-4)] by blast
  have dec: "snappy_decode (take len buf) = Some (take n input)"
    using snappy_decode_reference [of "take n input"] assms(3) c(4) by simp
  have "len < 2 ^ 32" using c(2) assms(3) by (simp add: snappy_max_compressed_length_def)
  then obtain out' where "snappy_uncompress scratch0 buf len out = Inr (0, out')" "take n out' = take n input"
    using uncompress_stream [OF c(3) _ assms(6) dec, of out] assms(2,5) by auto
  then show ?thesis using c(1) by blast
qed

theorem snappy_roundtrip_witness:
  "\<exists>env' buf len out'. snappy_compress \<lparr>hash_table = Some (replicate kmax_hash_table_size 9), env_scratch = None, scratch_output = None\<rparr>
      [7, 7, 7, 7] 4 (replicate 36 0) = Inr (0, env', buf, len)
      \<and> snappy_uncompress (replicate 5 1) buf len (replicate 4 0) = Inr (0, out') \<and> take 4 out' = take 4 [7, 7, 7, 7]"
  by (rule snappy_roundtrip) (simp_all add: table_ready_def snappy_max_compressed_length_def)

text \<open>
  \<^verbatim>\<open>int N = available(reader)\<close> is negative for an input of 2 GiB or more (and less than 4 GiB): the block loop does
  not run, so \<^verbatim>\<open>snappy_compress\<close> returns \<open>0\<close> with nothing but the five bytes of the header, which
  do not decode.
\<close>

theorem snappy_compress_large_input:
  assumes "2 ^ 31 \<le> n" "n < 2 ^ 32" "5 \<le> length compressed"
  shows "\<exists>buf. snappy_compress env input n compressed = Inr (0, env, buf, 5)
           \<and> snappy_decode (take 5 buf) = None"
proof -
  define v where "v = (word_of_nat n :: u32)"
  let ?r = "\<lparr>smem = input, ptr = 0, left = n\<rparr>"
  have v: "unat v = n" unfolding v_def using assms(2) by (rule unat_u32)
  have "n div 2 ^ 31 = 1" using assms by (intro div_nat_eqI) simp_all
  then have "bit n 31" by (simp add: bit_iff_odd)
  then have neg: "\<not> 0 < available ?r"
    by (simp add: available_def signed_of_nat not_less order.strict_implies_order bit_of_nat_iff_bit)
  have v31: "2 ^ 31 \<le> unat v" using assms(1) v by simp
  then have "\<not> v < 2 ^ 7" "\<not> v < 2 ^ 14" "\<not> v < 2 ^ 21" "\<not> v < 2 ^ 28"
    by (simp_all add: word_less_nat_alt)
  then have l5: "length (varint_bytes v) = 5" by (simp add: varint_bytes_def Let_def)
  have enc: "varint_encode32 (replicate kmax32 0) 0 v = Inr (varint_bytes v, 5)"
    using l5 by (simp add: varint_encode32_def mem_simps kmax32_def)
  have wv: "word_of_int (available ?r) = v" by (simp add: available_def v_def)
  have "snappy_compress env input n compressed = Inr (0, env, varint_bytes v @ drop 5 compressed, 5)"
    using neg assms(3) l5
    by (simp add: snappy_compress_def compress_def Let_def wv enc append_sink_def mem_simps compress_blocks.simps)
  moreover have "snappy_decode (varint_bytes v) = None"
    using header_varint_bytes [of v "[]"] v31 by (simp add: snappy_decode_def decode.simps)
  ultimately show ?thesis using l5 by simp
qed

theorem snappy_compress_large_input_witness:
  "\<exists>buf. snappy_compress \<lparr>hash_table = None, env_scratch = None, scratch_output = None\<rparr>
      (replicate 2147483648 0) 2147483648 (replicate 5 0) =
        Inr (0, \<lparr>hash_table = None, env_scratch = None, scratch_output = None\<rparr>, buf, 5)
      \<and> snappy_decode (take 5 buf) = None"
  by (rule snappy_compress_large_input) simp_all

section \<open>Sizing the output\<close>

text \<open>The two parsers of the header agree on what \<^verbatim>\<open>varint_parse32_with_limit\<close> accepts.\<close>

lemma header_step:
  "m < length xs \<Longrightarrow> header s v (drop m xs) =
     (if 32 \<le> s then None
      else if (ucast (xs ! m) :: u32) < 128 then Some (v OR push_bit s (take_bit 7 (ucast (xs ! m))), drop (m + 1) xs)
      else header (s + 7) (v OR push_bit s (take_bit 7 (ucast (xs ! m)))) (drop (m + 1) xs))"
  by (simp add: Cons_nth_drop_Suc [symmetric] header_simps and_127)

lemma varint_parse_header:
  assumes p: "varint_parse32_with_limit buf 0 n = Inr (Some (v, p))" and n: "n \<le> length buf"
  shows "\<exists>cs. header 0 0 (take n buf) = Some (v, cs)"
proof -
  define xs where "xs = take n buf"
  have l: "length xs = n" and nth: "\<And>i. i < n \<Longrightarrow> buf ! i = xs ! i" using n by (auto simp: xs_def)
  have ld: "i < n \<Longrightarrow> load8 buf i = Inr (xs ! i)" for i using n nth by (simp add: load8_def)
  note h = header_step [of 0 xs 0, unfolded drop_0 add_0] header_step [of 1 xs 7, unfolded one_add_one]
    header_step [of 2 xs 14] header_step [of 3 xs 21] header_step [of 4 xs 28]
  have w16: "w < 16 \<Longrightarrow> w < 128" for w :: u32 by (erule less_trans) simp
  have "\<exists>cs. header 0 0 xs = Some (v, cs)"
    using p unfolding varint_parse32_with_limit_def Let_def
    by (auto simp: ld h l and_127 not_le simp del: One_nat_def
        simp flip: numeral_2_eq_2 dest: w16 split: if_splits)
  then show ?thesis by (simp add: xs_def)
qed

text \<open>
  C29. A caller that sizes the output with \<^verbatim>\<open>snappy_uncompressed_length\<close> sizes it right: when it returns true, the length
  it reports is the one \<^verbatim>\<open>snappy_uncompress\<close> reads from the header, and with an output buffer of exactly
  that size \<^verbatim>\<open>snappy_uncompress\<close> runs without a fault and returns \<open>0\<close> or \<^verbatim>\<open>-EIO\<close>, whatever the input is.
\<close>

theorem uncompressed_length_sizes_output:
  assumes "n \<le> length compressed" "n < 2 ^ 32" "snappy_uncompressed_length compressed 0 n = Inr (Some len)"
    "length out = len" "length scratch0 = 5"
  shows "announced (take n compressed) = len
    \<and> (\<exists>err out'. snappy_uncompress scratch0 compressed n out = Inr (err, out') \<and> err \<in> {0, - EIO} \<and> length out' = len)"
proof -
  obtain v p where "varint_parse32_with_limit compressed 0 n = Inr (Some (v, p))" "unat v = len"
    using assms(3) by (auto simp: snappy_uncompressed_length_def cbind_eq_Inr_conv split: option.splits)
  then have a: "announced (take n compressed) = len"
    using varint_parse_header [OF _ assms(1)] by (fastforce simp: announced_def)
  let ?r = "\<lparr>smem = compressed, ptr = 0, left = n\<rparr>"
  let ?w = "\<lparr>wmem = out, w_base = 0, w_op = 0, w_op_limit = 0\<rparr>"
  have "source_invar ?r" "source_rest ?r = take n compressed"
    using assms by (simp_all add: source_invar_def source_rest_def)
  then show ?thesis
    using flat.internal_uncompress_ok [of ?r scratch0 "Suc n" ?w] assms a
    by (auto simp: snappy_uncompress_def Let_def split: option.splits)
qed

theorem uncompressed_length_sizes_output_witness:
  "announced (take 3 [2, 4, 7, 7]) = 2
    \<and> (\<exists>err out'. snappy_uncompress (replicate 5 0) [2, 4, 7, 7] 3 [0, 0] = Inr (err, out') \<and> err \<in> {0, - EIO} \<and> length out' = 2)"
proof (rule uncompressed_length_sizes_output)
  show "snappy_uncompressed_length [2, 4, 7, 7] 0 3 = Inr (Some 2)" by code_simp
qed simp_all

text \<open>
  The converse fails: \<^verbatim>\<open>read_uncompressed_length\<close> does not check the fifth byte of the header, so
  \<^verbatim>\<open>snappy_uncompress\<close> accepts streams whose length \<^verbatim>\<open>snappy_uncompressed_length\<close> rejects. The five-byte header below
  carries bits beyond the 32nd; it is rejected by the latter and decodes to the empty output.
\<close>

theorem header_parsers_differ:
  "snappy_uncompressed_length [0x80, 0x80, 0x80, 0x80, 0x10] 0 5 = Inr None
   \<and> snappy_uncompress [0, 0, 0, 0, 0] [0x80, 0x80, 0x80, 0x80, 0x10] 5 [] = Inr (0, [])"
  by code_simp

end
