(* ===== verification/Snappy_SG.thy ===== *)
theory Snappy_SG
  imports Snappy_Roundtrip
begin

text \<open>
  The scatter-gather entry points of \<^verbatim>\<open>snappy.c\<close> (the build with \<^verbatim>\<open>SG\<close>): compression from input vectors into
  output vectors, the flat entry points on top of it, the round trip, and the two traps of the
  interface: the empty vector in the middle and the untrimmed last vector.
\<close>

section \<open>Entry points\<close>

text \<open>
  Return value, environment, output vectors, \<^verbatim>\<open>*iov_out_len\<close> and \<^verbatim>\<open>*compressed_length\<close>. The input is
  \<^verbatim>\<open>int\<close> many bytes long, so its offsets do not wrap and the check of the reader (compiled in here) holds.
\<close>

definition snappy_compress_iov ::
    "snappy_env \<Rightarrow> iovec list \<Rightarrow> nat \<Rightarrow> nat \<Rightarrow> iovec list \<Rightarrow> nat \<Rightarrow> (int \<times> snappy_env \<times> iovec list \<times> nat \<times> nat) c_result" where
  "snappy_compress_iov env iov_in iov_in_len input_length iov_out iov_out_len =
    (let r = \<lparr>iov = iov_in, iovlen = iov_in_len, curvec = 0, curoff = 0, total = input_length\<rparr>;
         w = \<lparr>out_iov = iov_out, out_iovlen = iov_out_len, out_vec = 0, out_off = 0, out_written = 0\<rparr> in
     cbind (compress available_sg peek_sg (skip_sg True) sink_peek_sg append_sg env r w) (\<lambda>(err, env, r, w).
       Inr (err, env, out_iov w, out_vec w + 1, out_written w)))"

text \<open>\<^verbatim>\<open>snappy_compress\<close> and \<^verbatim>\<open>snappy_uncompress\<close> of this build: one vector each, the output vector with the length \<^verbatim>\<open>0xffffffff\<close>.\<close>

definition snappy_compress_sg ::
    "snappy_env \<Rightarrow> buffer \<Rightarrow> nat \<Rightarrow> buffer \<Rightarrow> (int \<times> snappy_env \<times> buffer \<times> nat) c_result" where
  "snappy_compress_sg env input input_length compressed =
     cbind (snappy_compress_iov env [\<lparr>iov_base = input, iov_len = input_length\<rparr>] 1 input_length
              [\<lparr>iov_base = compressed, iov_len = 0xffffffff\<rparr>] 1) (\<lambda>(err, env, vs, ov, len).
       Inr (err, env, iov_base (hd vs), len))"

definition snappy_uncompress_sg :: "bool \<Rightarrow> buffer \<Rightarrow> buffer \<Rightarrow> nat \<Rightarrow> buffer \<Rightarrow> (int \<times> buffer) c_result" where
  "snappy_uncompress_sg dbg scratch0 compressed n uncompressed =
     snappy_uncompress_iov dbg scratch0 [\<lparr>iov_base = compressed, iov_len = n\<rparr>] 1 n uncompressed"

section \<open>Compression\<close>

interpretation sg_comp: compressor peek_sg "skip_sg True" iov_rest iov_invar sink_peek_sg append_sg sg_written sg_room "sg_ok shape"
  for shape
  by (rule compressor.intro) unfold_locales

text \<open>An environment made by \<^verbatim>\<open>snappy_init_env_sg\<close> with \<^verbatim>\<open>sg\<close> set.\<close>

definition sg_env :: "snappy_env \<Rightarrow> bool" where
  "sg_env env \<longleftrightarrow> table_ready env
     \<and> (case env_scratch env of None \<Rightarrow> False | Some b \<Rightarrow> length b = kblock_size)
     \<and> (case scratch_output env of None \<Rightarrow> False | Some b \<Rightarrow> snappy_max_compressed_length kblock_size \<le> length b)"

definition vecs_in :: "iovec list \<Rightarrow> bool" where
  "vecs_in vs \<longleftrightarrow> vs \<noteq> [] \<and> (\<forall>v \<in> set vs. iov_len v \<le> length (iov_base v)) \<and> empties_last vs"

abbreviation bytes_of :: "iovec list \<Rightarrow> buffer" where
  "bytes_of vs \<equiv> concat (map iov_bytes vs)"

lemma init_env_sg_ready:
  assumes "length t = kmax_hash_table_size" "length b = kblock_size" "length c = snappy_max_compressed_length kblock_size"
  shows "\<exists>env'. snappy_init_env_sg (Some t) (Some b) (Some c) env True = (0, env') \<and> sg_env env'"
  using assms by (auto simp: snappy_init_env_sg_def snappy_init_env_def Let_def clear_env_def sg_env_def table_ready_def)

definition small_vecs :: "iovec list \<Rightarrow> bool" where
  "small_vecs vs \<longleftrightarrow> (\<forall>v \<in> set vs. iov_len v < 2 ^ 31)"

lemma sg_reader:
  assumes "vecs_in vs" "small_vecs vs" "length (bytes_of vs) < 2 ^ 32"
  shows "iov_invar \<lparr>iov = vs, iovlen = length vs, curvec = 0, curoff = 0, total = n\<rparr>"
    "iov_rest \<lparr>iov = vs, iovlen = length vs, curvec = 0, curoff = 0, total = n\<rparr> = bytes_of vs"
  using assms by (auto simp: vecs_in_def small_vecs_def intro!: sg_begin_invar sg_begin)

lemma length_bytes_of: "length (bytes_of vs) = sum_list (map vec_room vs)"
  by (induction vs) (simp_all add: iov_bytes_def vec_room_def min.commute)

lemma small_total:
  assumes "vecs_in vs" "length (bytes_of vs) < 2 ^ 31"
  shows "small_vecs vs"
proof (unfold small_vecs_def, rule ballI)
  fix v
  assume v: "v \<in> set vs"
  then have "vec_room v \<le> length (bytes_of vs)" unfolding length_bytes_of by (intro member_le_sum_list) auto
  moreover have "iov_len v = vec_room v" using v assms(1) by (auto simp: vecs_in_def vec_room_def)
  ultimately show "iov_len v < 2 ^ 31" using assms(2) by simp
qed

lemma sg_written_take:
  assumes "sg_ok shape s"
  shows "sg_written s = take (out_written s) (bytes_of (out_iov s))"
    "sg_written s = bytes_of (take (out_vec s) (out_iov s)) @ take (out_off s) (iov_bytes (out_iov s ! out_vec s))"
proof -
  let ?cur = "out_iov s ! out_vec s"
  have off: "out_off s \<le> iov_len ?cur" "out_off s \<le> length (iov_base ?cur)" "out_vec s < length (out_iov s)"
    "out_written s = length (sg_written s)"
    using assms by (auto simp: sg_ok_def vec_room_def)
  show w: "sg_written s = bytes_of (take (out_vec s) (out_iov s)) @ take (out_off s) (iov_bytes ?cur)"
    using off by (simp add: sg_written_def iov_bytes_def min_def)
  have "bytes_of (out_iov s) = bytes_of (take (out_vec s) (out_iov s) @ ?cur # drop (Suc (out_vec s)) (out_iov s))"
    using id_take_nth_drop [OF off(3)] by simp
  then show "sg_written s = take (out_written s) (bytes_of (out_iov s))"
    using off unfolding off(4) w by (simp add: iov_bytes_def)
qed

lemma sg_env_ready: "sg_env env \<Longrightarrow> sg_comp.ready shape env"
  by (auto simp: sg_env_def sg_comp.ready_def sg.env_ok_def table_ready_def split: option.splits)

lemma sg_env_kept: "sg_env env \<Longrightarrow> table_ready env' \<Longrightarrow> same_blocks env env' \<Longrightarrow> sg_env env'"
  by (auto simp: sg_env_def same_blocks_def split: option.splits)

lemma sg_ready_table: "sg_comp.ready shape env \<Longrightarrow> table_ready env"
  by (auto simp: sg_comp.ready_def sg.env_ok_def table_ready_def)

text \<open>The output vectors before the call.\<close>

lemma sg_start:
  assumes "vs \<noteq> []" "vecs_ok vs"
  defines "w \<equiv> \<lparr>out_iov = vs, out_iovlen = length vs, out_vec = 0, out_off = 0, out_written = 0\<rparr>"
  shows "sg_ok (map sizes vs) w" "sg_written w = []" "sg_room w = min (length (bytes_of vs)) (2 ^ 32 - 1)"
  using assms by (auto simp: sg_ok_def sg_written_def sg_room_def sg_free_def length_bytes_of drop_Suc neq_Nil_conv)

text \<open>What every call of the compressor over vectors does, whatever its environment has to offer.\<close>

lemma compress_iov_stream:
  assumes env: "sg_comp.ready (map sizes iov_out) env"
    and inp: "vecs_in iov_in" "length (bytes_of iov_in) < 2 ^ 31"
    and out: "iov_out \<noteq> []" "vecs_ok iov_out" "snappy_max_compressed_length (length (bytes_of iov_in)) \<le> length (bytes_of iov_out)"
  shows "\<exists>env' vs ov len. snappy_compress_iov env iov_in (length iov_in) (length (bytes_of iov_in)) iov_out (length iov_out) =
      Inr (0, env', vs, ov, len) \<and> table_ready env' \<and> same_blocks env env' \<and> map sizes vs = map sizes iov_out
    \<and> 0 < ov \<and> ov \<le> length vs \<and> len \<le> snappy_max_compressed_length (length (bytes_of iov_in))
    \<and> length (bytes_of (take (ov - 1) vs)) \<le> len \<and> len \<le> length (bytes_of (take ov vs))
    \<and> take len (bytes_of vs) = snappy_stream (bytes_of iov_in) \<and> len = length (snappy_stream (bytes_of iov_in))"
proof -
  define n where "n = length (bytes_of iov_in)"
  let ?r = "\<lparr>iov = iov_in, iovlen = length iov_in, curvec = 0, curoff = 0, total = n\<rparr>"
  let ?w = "\<lparr>out_iov = iov_out, out_iovlen = length iov_out, out_vec = 0, out_off = 0, out_written = 0\<rparr>"
  have n: "n < 2 ^ 31" using inp(2) by (simp add: n_def)
  have r: "iov_invar ?r" "iov_rest ?r = bytes_of iov_in" using sg_reader [OF inp(1) small_total [OF inp]] inp(2) by simp_all
  have rl: "length (iov_rest ?r) = n" using r(2) by (simp add: n_def)
  note w = sg_start [OF out(1,2)]
  have av: "available_sg ?r = int (length (iov_rest ?r))"
    using n r(2) by (simp add: available_sg_def signed_of_nat signed_take_bit_int_eq_self n_def)
  have room: "snappy_max_compressed_length (length (iov_rest ?r)) \<le> sg_room ?w"
    using out(3) n unfolding w(3) r(2) by (simp add: snappy_max_compressed_length_def flip: n_def)
  obtain env' r' w' where c: "compress available_sg peek_sg (skip_sg True) sink_peek_sg append_sg env ?r ?w = Inr (0, env', r', w')"
      "sg_comp.ready (map sizes iov_out) env'" "same_blocks env env'" "sg_ok (map sizes iov_out) w'"
      "sg_written w' = sg_written ?w @ snappy_stream (bytes_of iov_in)"
    using sg_comp.compress_ok [where av = available_sg, OF env r(1) w(1) av room] unfolding r(2) by blast
  note k = c(4) [unfolded sg_ok_def] and t = sg_written_take [OF c(4)]
  have len: "out_written w' = length (sg_written w')" using k by simp
  have "bytes_of (take (Suc (out_vec w')) (out_iov w')) =
      bytes_of (take (out_vec w') (out_iov w')) @ iov_bytes (out_iov w' ! out_vec w')"
    using k by (simp add: take_Suc_conv_app_nth)
  then have "out_written w' \<le> length (bytes_of (take (Suc (out_vec w')) (out_iov w')))"
    "length (bytes_of (take (out_vec w') (out_iov w'))) \<le> out_written w'"
    unfolding len t(2) by simp_all
  moreover have "take (out_written w') (bytes_of (out_iov w')) = snappy_stream (bytes_of iov_in)"
    using t(1) c(5) w(2) by simp
  moreover have "out_written w' = length (snappy_stream (bytes_of iov_in))" using c(5) w(2) len by simp
  ultimately show ?thesis
    using c(1,3) k sg_ready_table [OF c(2)] length_snappy_stream [of "bytes_of iov_in"]
    unfolding snappy_compress_iov_def n_def [symmetric]
    by (intro exI [of _ env'] exI [of _ "out_iov w'"] exI [of _ "Suc (out_vec w')"] exI [of _ "out_written w'"])
      (simp add: Let_def n_def)
qed

text \<open>
  \<^verbatim>\<open>snappy_compress_iov\<close> on input vectors with less than 2 GiB in all, of which only the last ones may be empty, with
  output vectors that offer \<^verbatim>\<open>snappy_max_compressed_length\<close> bytes in all: it ends without a fault and returns \<open>0\<close>, whatever
  the sizes of the vectors are; the stream, at most \<^verbatim>\<open>snappy_max_compressed_length\<close> bytes, fills
  the vectors before the last one it reports and ends in that one; it decodes to the concatenated input; the
  environment is ready for the next call.
\<close>

theorem snappy_compress_iov_correct:
  assumes "sg_env env" "vecs_in iov_in" "length (bytes_of iov_in) < 2 ^ 31"
    and "iov_out \<noteq> []" "vecs_ok iov_out" "snappy_max_compressed_length (length (bytes_of iov_in)) \<le> length (bytes_of iov_out)"
  shows "\<exists>env' vs ov len. snappy_compress_iov env iov_in (length iov_in) (length (bytes_of iov_in)) iov_out (length iov_out) =
      Inr (0, env', vs, ov, len) \<and> sg_env env' \<and> map sizes vs = map sizes iov_out
    \<and> len \<le> snappy_max_compressed_length (length (bytes_of iov_in))
    \<and> length (bytes_of (take (ov - 1) vs)) \<le> len \<and> len \<le> length (bytes_of (take ov vs))
    \<and> snappy_decode (take len (bytes_of vs)) = Some (bytes_of iov_in)"
proof -
  obtain env' vs ov len where
    c: "snappy_compress_iov env iov_in (length iov_in) (length (bytes_of iov_in)) iov_out (length iov_out) = Inr (0, env', vs, ov, len)"
      "table_ready env'" "same_blocks env env'" "map sizes vs = map sizes iov_out"
      "len \<le> snappy_max_compressed_length (length (bytes_of iov_in))"
      "length (bytes_of (take (ov - 1) vs)) \<le> len" "len \<le> length (bytes_of (take ov vs))"
      "take len (bytes_of vs) = snappy_stream (bytes_of iov_in)"
    using compress_iov_stream [OF sg_env_ready [OF assms(1)] assms(2-)] by blast
  have "snappy_decode (take len (bytes_of vs)) = Some (bytes_of iov_in)"
    using snappy_decode_reference [of "bytes_of iov_in"] assms(3) c(8) by simp
  then show ?thesis using c(1,4-7) sg_env_kept [OF assms(1) c(2,3)] by blast
qed

section \<open>Round trip\<close>

lemma uncompress_iov_cases:
  assumes "vecs_in vs" "small_vecs vs" "length (bytes_of vs) < 2 ^ 32" "length scratch0 = 5" "announced (bytes_of vs) \<le> length out"
  shows "snappy_decode (bytes_of vs) = None \<Longrightarrow>
       \<exists>out'. snappy_uncompress_iov dbg scratch0 vs (length vs) n out = Inr (- EIO, out') \<and> length out' = length out
         \<and> take (length (decoded_part (bytes_of vs))) out' = decoded_part (bytes_of vs)"
    "snappy_decode (bytes_of vs) = Some bs \<Longrightarrow>
       \<exists>out'. snappy_uncompress_iov dbg scratch0 vs (length vs) n out = Inr (0, out') \<and> length out' = length out \<and> take (length bs) out' = bs"
  using sg.internal_uncompress_ok [of "\<lparr>iov = vs, iovlen = length vs, curvec = 0, curoff = 0, total = n\<rparr>" scratch0
      "Suc (length (bytes_of vs))" "\<lparr>wmem = out, w_base = 0, w_op = 0, w_op_limit = 0\<rparr>" dbg] sg_reader [OF assms(1-3), of n] assms(4,5)
  by (auto simp: snappy_uncompress_iov_def Let_def)

lemma announced_decode: "snappy_decode cs = Some bs \<Longrightarrow> announced cs = length bs"
  by (auto simp: announced_def snappy_decode_def split: option.splits if_splits)

text \<open>The vectors that hold the stream, the last one cut where the stream ends.\<close>

definition trimmed :: "iovec list \<Rightarrow> nat \<Rightarrow> nat \<Rightarrow> iovec list" where
  "trimmed vs ov len =
     take (ov - 1) vs @ [(vs ! (ov - 1))\<lparr>iov_len := len - length (bytes_of (take (ov - 1) vs))\<rparr>]"

lemma butlast_take_subset: "k < length vs \<Longrightarrow> set (take k vs) \<subseteq> set (butlast vs)"
  by (simp add: butlast_conv_take set_take_subset_set_take)

lemma sizes_mono:
  assumes "map sizes vs = map sizes ws" "\<forall>v \<in> set (butlast ws). P (sizes v)"
  shows "\<forall>v \<in> set (butlast vs). P (sizes v)"
proof -
  have "\<forall>z \<in> set (butlast (map sizes ws)). P z" using assms(2) by (auto simp: map_butlast [symmetric])
  then show ?thesis unfolding assms(1) [symmetric] by (auto simp: map_butlast [symmetric])
qed

lemma trimmed_ok:
  assumes ov: "0 < ov" "ov \<le> length vs" and vs: "\<forall>v \<in> set (butlast vs). 0 < iov_len v \<and> iov_len v \<le> length (iov_base v)"
    and len: "length (bytes_of (take (ov - 1) vs)) \<le> len" "len \<le> length (bytes_of (take ov vs))"
  shows "vecs_in (trimmed vs ov len)" "length (trimmed vs ov len) = ov" "bytes_of (trimmed vs ov len) = take len (bytes_of vs)"
proof -
  define k where "k = ov - 1"
  have k: "ov = Suc k" "k < length vs" using ov by (auto simp: k_def)
  have tk: "take ov vs = take k vs @ [vs ! k]" using k by (simp add: take_Suc_conv_app_nth)
  have cut: "len - length (bytes_of (take k vs)) \<le> length (iov_bytes (vs ! k))" using len(2) tk by simp
  then have base: "len - length (bytes_of (take k vs)) \<le> length (iov_base (vs ! k))" "len - length (bytes_of (take k vs)) \<le> iov_len (vs ! k)"
    by (auto simp: iov_bytes_def)
  have pre: "0 < iov_len v" "iov_len v \<le> length (iov_base v)" if "v \<in> set (take k vs)" for v
    using that vs butlast_take_subset [OF k(2)] by auto
  have nz: "0 < iov_len (vs ! j)" if "j < k" for j
  proof (rule pre(1))
    have "take k vs ! j \<in> set (take k vs)" using that k(2) by (intro nth_mem) simp
    then show "vs ! j \<in> set (take k vs)" using that by simp
  qed
  have "empties_last (trimmed vs ov len)"
  proof (unfold empties_last_def, intro allI impI)
    fix i j
    assume "i \<le> j" "j < length (trimmed vs ov len)" and z: "iov_len (trimmed vs ov len ! i) = 0"
    moreover have "\<not> i < k" using z nz [of i] k by (auto simp: trimmed_def nth_append)
    ultimately have "j = i" using k by (simp add: trimmed_def)
    then show "iov_len (trimmed vs ov len ! j) = 0" using z by simp
  qed
  then show "vecs_in (trimmed vs ov len)" using pre(2) base(1) by (auto simp: vecs_in_def trimmed_def k)
  show "length (trimmed vs ov len) = ov" using k by (simp add: trimmed_def)
  have "bytes_of vs = bytes_of (take k vs) @ iov_bytes (vs ! k) @ bytes_of (drop (Suc k) vs)"
    using id_take_nth_drop [OF k(2)] by (metis concat.simps(2) concat_append list.simps(9) map_append)
  then show "bytes_of (trimmed vs ov len) = take len (bytes_of vs)"
    using len(1) cut base k by (simp add: trimmed_def iov_bytes_def min_def)
qed

lemma trimmed_small:
  assumes ov: "0 < ov" "ov \<le> length vs" and vs: "\<forall>v \<in> set (butlast vs). iov_len v \<le> length (iov_base v)"
    and base: "\<forall>v \<in> set vs. length (iov_base v) < 2 ^ 31" and len: "len \<le> length (bytes_of (take ov vs))"
  shows "small_vecs (trimmed vs ov len)"
proof -
  define k where "k = ov - 1"
  have k: "ov = Suc k" "k < length vs" using ov by (auto simp: k_def)
  have "len - length (bytes_of (take k vs)) \<le> length (iov_base (vs ! k))"
    using len k by (auto simp: take_Suc_conv_app_nth iov_bytes_def)
  moreover have "length (iov_base (vs ! k)) < 2 ^ 31" using base k(2) by simp
  moreover have "iov_len v < 2 ^ 31" if "v \<in> set (take k vs)" for v
    using that vs base butlast_take_subset [OF k(2)] by (meson in_mono in_set_takeD le_less_trans)
  ultimately show ?thesis by (auto simp: small_vecs_def trimmed_def k(1))
qed

text \<open>
  C9. Round trip over vectors of less than 2 GiB each: what \<^verbatim>\<open>snappy_compress_iov\<close> wrote, with the last vector cut where the stream ends, is turned back into
  the concatenated input by \<^verbatim>\<open>snappy_uncompress_iov\<close>, however input and output are cut into vectors, with and without its checks
  compiled in.
\<close>

theorem snappy_iov_roundtrip:
  assumes "sg_env env" "vecs_in iov_in" "length (bytes_of iov_in) < 2 ^ 31"
    and "iov_out \<noteq> []" "vecs_ok iov_out" "snappy_max_compressed_length (length (bytes_of iov_in)) \<le> length (bytes_of iov_out)"
    and "\<forall>v \<in> set (butlast iov_out). 0 < iov_len v" "\<forall>v \<in> set iov_out. length (iov_base v) < 2 ^ 31"
    and "length scratch0 = 5" "length (bytes_of iov_in) \<le> length out"
  shows "\<exists>env' vs ov len out'.
      snappy_compress_iov env iov_in (length iov_in) (length (bytes_of iov_in)) iov_out (length iov_out) = Inr (0, env', vs, ov, len)
    \<and> snappy_uncompress_iov dbg scratch0 (trimmed vs ov len) ov len out = Inr (0, out')
    \<and> take (length (bytes_of iov_in)) out' = bytes_of iov_in"
proof -
  obtain env' vs ov len where
    c: "snappy_compress_iov env iov_in (length iov_in) (length (bytes_of iov_in)) iov_out (length iov_out) = Inr (0, env', vs, ov, len)"
      "map sizes vs = map sizes iov_out" "0 < ov" "ov \<le> length vs"
      "len \<le> snappy_max_compressed_length (length (bytes_of iov_in))"
      "length (bytes_of (take (ov - 1) vs)) \<le> len" "len \<le> length (bytes_of (take ov vs))"
      "take len (bytes_of vs) = snappy_stream (bytes_of iov_in)"
    using compress_iov_stream [OF sg_env_ready [OF assms(1)] assms(2-6)] by blast
  have "\<forall>v \<in> set (butlast vs). 0 < fst (sizes v) \<and> fst (sizes v) \<le> snd (sizes v)"
    using assms(5,7) by (intro sizes_mono [OF c(2)]) (simp add: sizes_def vecs_ok_def)
  then have "\<forall>v \<in> set (butlast vs). 0 < iov_len v \<and> iov_len v \<le> length (iov_base v)" by (simp add: sizes_def)
  note vs = this
  note t = trimmed_ok [OF c(3,4) vs c(6,7)]
  have "\<forall>z \<in> set (map sizes vs). snd z < 2 ^ 31" unfolding c(2) using assms(8) by (simp add: sizes_def)
  then have small: "small_vecs (trimmed vs ov len)"
    using vs by (intro trimmed_small [OF c(3,4) _ _ c(7)]) (simp_all add: sizes_def)
  have d: "snappy_decode (bytes_of (trimmed vs ov len)) = Some (bytes_of iov_in)"
    using snappy_decode_reference [of "bytes_of iov_in"] assms(3) c(8) t(3) by simp
  have "length (bytes_of (trimmed vs ov len)) < 2 ^ 32"
    using c(5) assms(3) unfolding t(3) by (simp add: snappy_max_compressed_length_def)
  then show ?thesis
    using uncompress_iov_cases(2) [OF t(1) small _ assms(9) _ d, of out dbg len] announced_decode [OF d] assms(10) c(1) t(2) by metis
qed

text \<open>
  A small environment for the examples: the scratch blocks are filled by the code before they are read.
\<close>

definition example_env :: snappy_env where
  "example_env = \<lparr>hash_table = Some (replicate kmax_hash_table_size 0), env_scratch = Some (replicate kblock_size 0),
     scratch_output = Some (replicate (snappy_max_compressed_length kblock_size) 0)\<rparr>"

definition example_in :: "iovec list" where
  "example_in = [\<lparr>iov_base = [7, 7, 9], iov_len = 2\<rparr>, \<lparr>iov_base = [7, 7], iov_len = 2\<rparr>]"

definition example_out :: "iovec list" where
  "example_out = [\<lparr>iov_base = replicate 3 0, iov_len = 3\<rparr>, \<lparr>iov_base = replicate 40 0, iov_len = 40\<rparr>]"

lemma example_vecs:
  "sg_env example_env" "vecs_in example_in" "length (bytes_of example_in) < 2 ^ 31" "example_out \<noteq> []" "vecs_ok example_out"
  "snappy_max_compressed_length (length (bytes_of example_in)) \<le> length (bytes_of example_out)"
  "\<forall>v \<in> set (butlast example_out). 0 < iov_len v" "\<forall>v \<in> set example_out. length (iov_base v) < 2 ^ 31"
  "bytes_of example_in = [7, 7, 7, 7]" "length example_in = 2" "length example_out = 2"
proof -
  show "sg_env example_env" by (simp add: sg_env_def example_env_def table_ready_def)
  show "vecs_in example_in"
    by (auto simp: vecs_in_def example_in_def empties_last_def less_Suc_eq nth_Cons split: nat.splits)
  show "vecs_ok example_out" by (simp add: vecs_ok_def example_out_def)
qed (simp_all add: example_in_def example_out_def iov_bytes_def snappy_max_compressed_length_def)

theorem snappy_compress_iov_correct_witness:
  "\<exists>env' vs ov len. snappy_compress_iov example_env example_in 2 (length [7 :: u8, 7, 7, 7]) example_out 2 = Inr (0, env', vs, ov, len)
    \<and> snappy_decode (take len (bytes_of vs)) = Some [7, 7, 7, 7]"
  using snappy_compress_iov_correct [OF example_vecs(1-6)] unfolding example_vecs(9-11) by blast

theorem snappy_iov_roundtrip_witness:
  "\<exists>env' vs ov len out'. snappy_compress_iov example_env example_in 2 (length [7 :: u8, 7, 7, 7]) example_out 2 = Inr (0, env', vs, ov, len)
    \<and> snappy_uncompress_iov True (replicate 5 0) (trimmed vs ov len) ov len (replicate 4 0) = Inr (0, out')
    \<and> take (length [7 :: u8, 7, 7, 7]) out' = [7, 7, 7, 7]"
  using snappy_iov_roundtrip [OF example_vecs(1-8), of "replicate 5 0" "replicate 4 0" True] unfolding example_vecs(9-11) by simp

section \<open>Two traps\<close>

text \<open>
  Once the announced length is reached, the decoder accepts nothing more, except for an empty literal, whose tag is \<open>0xfc\<close>.
\<close>

lemma apply_element_full:
  assumes "decode_element (c # cs) = Some (e, rest)" "c \<noteq> 252" "limit \<le> length out"
  shows "apply_element limit out e = None"
proof -
  have small: "le_nat xs < 2 ^ (8 * length xs)" for xs
  proof (induction xs)
    case (Cons x xs)
    have "unat x < 256" using unsigned_less [of x, where 'a = nat] by simp
    then show ?case using Cons by (simp add: power_add)
  qed simp
  have lit: "0 < literal_len c (take (tag_extra c) cs)" if "unat c mod 4 = 0"
  proof (cases "unat c div 4 < 60")
    case False
    have "unat c < 256" using unsigned_less [of c, where 'a = nat] by simp
    moreover have "unat c \<noteq> 252" using assms(2) by (simp add: word_unat_eq_iff)
    ultimately have "tag_extra c \<le> 3" using that False by (auto simp: tag_extra_def)
    then have "(2 :: nat) ^ (8 * length (take (tag_extra c) cs)) \<le> 2 ^ 24" by (intro power_increasing) auto
    then have "le_nat (take (tag_extra c) cs) + 1 < 2 ^ 32" using small [of "take (tag_extra c) cs"] by simp
    then show ?thesis using False by (simp add: literal_len_def)
  qed (simp add: literal_len_def)
  show ?thesis
    using assms(1,3) lit by (auto simp: Let_def copy_of_def split: if_splits)
qed

lemma decode_trailing:
  assumes "length bs < 2 ^ 32" "c \<noteq> 252"
  shows "snappy_decode (snappy_stream bs @ c # cs) = None"
proof -
  let ?es = "stream_elements bs"
  have es: "well_formed 0 ?es" "expand_all ?es [] = bs" using stream_elements_ok [of bs] by simp_all
  have "expanded_len ?es = length bs" using length_expand_all [of ?es "[]"] es(2) by simp
  then have "decode (length bs) [] (encode_all ?es @ c # cs) = decode (length bs) bs (c # cs)"
    using decode_encode_all [of "[]" ?es "length bs" "c # cs"] assms es by simp
  also have "\<dots> = None"
    using apply_element_full [OF _ assms(2), of cs _ _ "length bs" bs] by (subst decode.simps) (auto split: option.splits)
  finally show ?thesis using assms(1) by (simp add: snappy_stream_def snappy_decode_def header_varint_bytes unat_u32)
qed

text \<open>The vectors a compressor reported, as input vectors.\<close>

lemma take_bytes_of: "bytes_of vs = bytes_of (take ov vs) @ bytes_of (drop ov vs)"
  by (metis append_take_drop_id concat_append map_append)

lemma reported_vectors:
  assumes "map sizes vs = map sizes iov_out" "vecs_in iov_out" "length (bytes_of iov_out) < 2 ^ 32" "0 < ov" "ov \<le> length vs"
    and "len \<le> length (bytes_of (take ov vs))" "small_vecs iov_out"
  shows "vecs_in (take ov vs)" "length (bytes_of (take ov vs)) < 2 ^ 32" "length (bytes_of vs) = length (bytes_of iov_out)"
    "bytes_of (take ov vs) = take len (bytes_of vs) @ drop len (bytes_of (take ov vs))" "small_vecs (take ov vs)"
proof -
  have "\<forall>z \<in> set (map sizes vs). fst z < 2 ^ 31" unfolding assms(1) using assms(7) by (simp add: sizes_def small_vecs_def)
  then show "small_vecs (take ov vs)" by (auto simp: small_vecs_def sizes_def dest: in_set_takeD)
  have lvs: "length vs = length iov_out" by (rule map_eq_imp_length_eq [OF assms(1)])
  have szn: "sizes (vs ! i) = sizes (iov_out ! i)" if "i < length vs" for i
    using that arg_cong [OF assms(1), of "\<lambda>xs. xs ! i"] lvs by simp
  have lens: "iov_len (vs ! i) = iov_len (iov_out ! i)" "length (iov_base (vs ! i)) = length (iov_base (iov_out ! i))"
    if "i < length vs" for i using szn [OF that] by (simp_all add: sizes_def)
  show "vecs_in (take ov vs)"
    using assms(2,4,5) lens lvs by (auto simp: vecs_in_def empties_last_def all_set_conv_all_nth)
  have "map vec_room vs = map vec_room iov_out" using lvs lens by (intro nth_equalityI) (auto simp: vec_room_def)
  then show "length (bytes_of vs) = length (bytes_of iov_out)" by (simp add: length_bytes_of)
  then show "length (bytes_of (take ov vs)) < 2 ^ 32" using assms(3) take_bytes_of [of vs ov] by simp
  have "take len (bytes_of vs) = take len (bytes_of (take ov vs))" using assms(6) by (subst take_bytes_of [of vs ov]) simp
  then show "bytes_of (take ov vs) = take len (bytes_of vs) @ drop len (bytes_of (take ov vs))" by simp
qed

text \<open>
  \<^verbatim>\<open>snappy_compress_iov\<close> does not cut the last vector it reports, and \<^verbatim>\<open>snappy_uncompress_iov\<close> ignores its argument
  \<^verbatim>\<open>input_len\<close>: called with the vectors, their number and the length that the compressor returned, as
  \<^verbatim>\<open>sgverify.c\<close> does, it goes on behind the end of the stream and returns \<^verbatim>\<open>-EIO\<close> whenever the last vector has a byte left
  (other than \<open>0xfc\<close>, the tag of a literal whose length may wrap to \<open>0\<close>), although it has restored all of the input.
\<close>

theorem untrimmed_vectors_rejected:
  assumes "sg_env env" "vecs_in iov_in" "length (bytes_of iov_in) < 2 ^ 31"
    and "iov_out \<noteq> []" "vecs_ok iov_out" "snappy_max_compressed_length (length (bytes_of iov_in)) \<le> length (bytes_of iov_out)"
    and "vecs_in iov_out" "length (bytes_of iov_out) < 2 ^ 32" "length scratch0 = 5" "length (bytes_of iov_in) \<le> length out"
    and "small_vecs iov_out"
    and call: "snappy_compress_iov env iov_in (length iov_in) (length (bytes_of iov_in)) iov_out (length iov_out) = Inr (err, env', vs, ov, len)"
    and left: "len < length (bytes_of (take ov vs))" "bytes_of vs ! len \<noteq> 252"
  shows "err = 0 \<and> (\<exists>out'. snappy_uncompress_iov dbg scratch0 (take ov vs) ov len out = Inr (- EIO, out')
    \<and> take (length (bytes_of iov_in)) out' = bytes_of iov_in)"
proof -
  have c: "err = 0" "map sizes vs = map sizes iov_out" "ov \<le> length vs" "0 < ov"
      "take len (bytes_of vs) = snappy_stream (bytes_of iov_in)"
    using compress_iov_stream [OF sg_env_ready [OF assms(1)] assms(2-6)] unfolding call by auto
  have lens: "len \<le> length (bytes_of (take ov vs))" using left(1) by simp
  note rep = reported_vectors [OF c(2) assms(7,8) c(4,3) lens assms(11)]
  have "length (bytes_of (take ov vs)) < 2 ^ 32" "vecs_in (take ov vs)" "small_vecs (take ov vs)" by (rule rep)+
  moreover obtain cs where cs: "bytes_of (take ov vs) = take len (bytes_of vs) @ (bytes_of vs ! len) # cs"
    using id_take_nth_drop [OF left(1)] left(1) take_bytes_of [of vs ov] by (simp add: nth_append)
  have "snappy_decode (bytes_of (take ov vs)) = None"
    using decode_trailing [OF _ left(2), of "bytes_of iov_in" cs] assms(3) unfolding cs c(5) by simp
  moreover have "announced (bytes_of (take ov vs)) \<le> length out"
    using assms(3,10) unfolding cs c(5) by (simp add: announced_reference)
  moreover have "decoded_part (bytes_of (take ov vs)) = bytes_of iov_in"
    using assms(3) unfolding cs c(5) by (simp add: decoded_part_reference)
  ultimately show ?thesis
    using uncompress_iov_cases(1) [OF _ _ _ assms(9), of "take ov vs" out dbg len] c(1,3) by (auto simp: min_absorb2)
qed

text \<open>The empty input: its stream is the single byte of the header.\<close>

lemma compress_iov_empty:
  assumes "0 < l" "l < 2 ^ 32"
  shows "snappy_compress_iov env [\<lparr>iov_base = [], iov_len = 0\<rparr>] 1 0 [\<lparr>iov_base = c # b, iov_len = l\<rparr>] 1 =
     Inr (0, env, [\<lparr>iov_base = 0 # b, iov_len = l\<rparr>], 1, 1)"
proof -
  have "varint_encode32 (replicate kmax32 0) 0 0 = Inr ([0, 0, 0, 0, 0], 1)" by code_simp
  moreover have "min (size_sub l 0) 1 = 1" using assms by (simp add: size_sub_eq)
  ultimately show ?thesis
    by (simp add: snappy_compress_iov_def compress_def available_sg_def mem_simps
        append_sg_def append_rest.simps compress_blocks.simps Let_def)
qed

theorem untrimmed_vectors_rejected_witness:
  "\<exists>env' vs ov len out'. snappy_compress_iov example_env [\<lparr>iov_base = [], iov_len = 0\<rparr>] 1 0 [\<lparr>iov_base = 0 # replicate 31 0, iov_len = 32\<rparr>] 1 =
      Inr (0, env', vs, ov, len) \<and> snappy_uncompress_iov True (replicate 5 0) (take ov vs) ov len [] = Inr (- EIO, out')"
proof -
  let ?vs = "[\<lparr>iov_base = 0 # replicate 31 0 :: buffer, iov_len = 32\<rparr>]"
  have "\<exists>out'. snappy_uncompress_iov True (replicate 5 0) (take 1 ?vs) 1 1 [] = Inr (- EIO, out')
      \<and> take (length (bytes_of [\<lparr>iov_base = [], iov_len = 0\<rparr>])) out' = bytes_of [\<lparr>iov_base = [], iov_len = 0\<rparr>]"
  proof (rule untrimmed_vectors_rejected [THEN conjunct2])
    show "snappy_compress_iov example_env [\<lparr>iov_base = [], iov_len = 0\<rparr>] (length [\<lparr>iov_base = [] :: buffer, iov_len = 0\<rparr>])
        (length (bytes_of [\<lparr>iov_base = [], iov_len = 0\<rparr>])) ?vs (length ?vs) = Inr (0, example_env, ?vs, 1, 1)"
      using compress_iov_empty [of 32] by (simp add: iov_bytes_def)
  qed (simp_all add: example_vecs vecs_in_def vecs_ok_def small_vecs_def empties_last_def iov_bytes_def snappy_max_compressed_length_def nth_Cons')
  moreover have "snappy_compress_iov example_env [\<lparr>iov_base = [], iov_len = 0\<rparr>] 1 0 ?vs 1 = Inr (0, example_env, ?vs, 1, 1)"
    by (rule compress_iov_empty) simp_all
  ultimately show ?thesis by blast
qed

text \<open>
  An empty vector between the input vectors looks like the end of the input: when the block to compress begins before
  it and ends behind it, the loop of \<^verbatim>\<open>compress\<close> that gathers the block never ends.
\<close>

theorem empty_vector_hangs_compressor:
  assumes "env_scratch env = Some scr" "length scr = kblock_size"
    and "iov_len v0 \<le> length (iov_base v0)" "0 < iov_len v0" "iov_len v0 < n" "iov_len v0 < kblock_size" "n < 2 ^ 31"
    and "iov_len v1 = 0" "iov_out \<noteq> []" "vecs_ok iov_out" "5 \<le> length (bytes_of iov_out)"
  shows "snappy_compress_iov env (v0 # v1 # vs) (length (v0 # v1 # vs)) n iov_out (length iov_out) = Inl Nontermination"
proof -
  let ?r = "\<lparr>iov = v0 # v1 # vs, iovlen = length (v0 # v1 # vs), curvec = 0, curoff = 0, total = n\<rparr>"
  let ?h = "varint_bytes (word_of_nat n :: u32)"
  note w = sg_start [OF assms(9,10)]
  have h5: "length ?h \<le> 5" using length_varint_bytes [of "word_of_nat n"] by (simp add: kmax32_def)
  have enc: "varint_encode32 (replicate kmax32 0) 0 (word_of_nat n) = Inr (?h @ replicate (5 - length ?h) 0, length ?h)"
    using h5 by (simp add: varint_encode32_def mem_simps kmax32_def)
  obtain w1 where w1: "append_sg \<lparr>out_iov = iov_out, out_iovlen = length iov_out, out_vec = 0, out_off = 0, out_written = 0\<rparr>
      (From (?h @ replicate (5 - length ?h) 0)) (length ?h) = Inr w1"
    using sg_sink.put_from [OF w(1), of "length ?h" "?h @ replicate (5 - length ?h) 0"] w(3) assms(11) h5 by auto
  have av: "available_sg ?r = int n" using assms(7) by (simp add: available_sg_def signed_of_nat signed_take_bit_int_eq_self)
  define num where "num = nat (min (int n) (int kblock_size))"
  have num: "iov_len v0 < num" using assms(5,6) by (simp add: num_def)
  have wrap: "c_int (int (iov_len v0)) = int (iov_len v0)" "c_size (int (iov_len v0)) = iov_len v0"
    using assms(5,7) by (auto intro: c_int_small)
  have nb: "next_block peek_sg (skip_sg True) env ?r (iov_base v0) (iov_len v0) num = Inl Nontermination"
    using num assms(1,2,3,4,6,8) wrap
    by (simp add: next_block_def mem_simps skip_sg_def Let_def gather.simps peek_sg_def)
  have "compress_blocks peek_sg (skip_sg True) sink_peek_sg append_sg env ?r w1 (int n) = Inl Nontermination"
    using assms(4,5) nb by (subst compress_blocks.simps) (simp add: peek_sg_def Let_def num_def)
  then show ?thesis
    unfolding snappy_compress_iov_def compress_def Let_def av using enc w1 by simp
qed

theorem empty_vector_hangs_compressor_witness:
  "snappy_compress_iov example_env [\<lparr>iov_base = [7], iov_len = 1\<rparr>, \<lparr>iov_base = [], iov_len = 0\<rparr>, \<lparr>iov_base = [7], iov_len = 1\<rparr>]
     (length [\<lparr>iov_base = [7 :: u8], iov_len = 1\<rparr>, \<lparr>iov_base = [], iov_len = 0\<rparr>, \<lparr>iov_base = [7], iov_len = 1\<rparr>]) 2
     [\<lparr>iov_base = replicate 34 0, iov_len = 34\<rparr>] (length [\<lparr>iov_base = replicate 34 (0 :: u8), iov_len = 34\<rparr>]) = Inl Nontermination"
  by (rule empty_vector_hangs_compressor [where scr = "replicate kblock_size 0"])
    (simp_all add: example_env_def kblock_size_def vecs_ok_def iov_bytes_def)

section \<open>The flat entry points on top\<close>

text \<open>
  With one input vector every peek delivers the rest of the input; with one output vector of length \<^verbatim>\<open>0xffffffff\<close> every block is
  compressed in place. So the environment of \<^verbatim>\<open>snappy_init_env\<close> is enough.
\<close>

definition one_vec :: "iov_source \<Rightarrow> bool" where
  "one_vec s \<longleftrightarrow> iov_invar s \<and> length (iov s) = 1"

lemma skip_sg_iov: "skip_sg dbg s k = Inr s' \<Longrightarrow> iov s' = iov s"
  by (auto simp: skip_sg_def Let_def cbind_eq_Inr_conv split: if_splits)

interpretation one: byte_source peek_sg "skip_sg True" iov_rest one_vec
proof
  fix s :: iov_source and m n k
  assume s: "one_vec s"
  then have i: "iov_invar s" by (simp add: one_vec_def)
  show "length (iov_rest s) < 2 ^ 32" by (rule sg.rest_small [OF i])
  show "peek_sg s = (m, 0) \<Longrightarrow> iov_rest s = []" by (rule sg.peek_progress [OF i])
  assume p: "peek_sg s = (m, n)"
  show "n \<le> length m \<and> n \<le> length (iov_rest s)" by (rule sg.peek_avail [OF i p])
  show "take n m = take n (iov_rest s)" by (rule sg.peek_bytes [OF i p])
  assume k: "k \<le> n"
  show "\<exists>s'. skip_sg True s k = Inr s' \<and> one_vec s' \<and> iov_rest s' = drop k (iov_rest s)"
    using sg.skip_ok [OF i p k] s skip_sg_iov by (fastforce simp: one_vec_def)
qed simp_all

definition wide_ok :: "nat \<Rightarrow> iov_sink \<Rightarrow> bool" where
  "wide_ok cap s \<longleftrightarrow> sg_ok [(0xffffffff, cap)] s"

interpretation one_comp: compressor peek_sg "skip_sg True" iov_rest one_vec sink_peek_sg append_sg sg_written sg_room "wide_ok cap"
  for cap
  unfolding wide_ok_def by (rule compressor.intro) unfold_locales

lemma one_contiguous: "one.contiguous"
proof (unfold one.contiguous_def, intro allI impI)
  fix s m n
  assume s: "one_vec s" and p: "peek_sg s = (m, n)"
  then obtain v where v: "iov s = [v]" "curvec s = 0" "iovlen s = 1" "iov_len v \<le> length (iov_base v)"
    by (auto simp: one_vec_def length_Suc_conv iov_invar_def)
  then show "n = length (iov_rest s)" using p by (auto simp: iov_rest_def iov_off_def peek_sg_def Let_def iov_bytes_def split: if_splits)
qed

lemma wide_direct:
  assumes "cap + 2 ^ 17 \<le> 2 ^ 32"
  shows "one_comp.direct cap"
proof (unfold one_comp.direct_def, intro allI impI)
  fix w n
  assume w: "wide_ok cap w" and n: "n \<le> snappy_max_compressed_length kblock_size"
  obtain v where v: "out_iov w = [v]" "iov_len v = 0xffffffff" "length (iov_base v) = cap" "out_vec w = 0"
    using w by (auto simp: wide_ok_def sg_ok_def sizes_def)
  have "out_off w \<le> cap" using w v by (simp add: wide_ok_def sg_ok_def vec_room_def)
  then have "n \<le> size_sub 0xffffffff (out_off w)"
    using n assms by (simp add: size_sub_eq snappy_max_compressed_length_def kblock_size_def)
  then show "sink_peek_sg w n \<noteq> None" using v by (simp add: sink_peek_sg_def)
qed

lemma compress_sg_stream:
  assumes "table_ready env" "n \<le> length input" "n < 2 ^ 31" "snappy_max_compressed_length n \<le> length compressed"
    and "length compressed + 2 ^ 17 \<le> 2 ^ 32"
  shows "\<exists>env' buf len. snappy_compress_sg env input n compressed = Inr (0, env', buf, len) \<and> table_ready env' \<and> same_blocks env env'
           \<and> len \<le> snappy_max_compressed_length n \<and> length buf = length compressed \<and> len \<le> length buf
           \<and> take len buf = snappy_stream (take n input)"
proof -
  define cap where "cap = length compressed"
  let ?v = "\<lparr>iov_base = input, iov_len = n\<rparr>" and ?o = "\<lparr>iov_base = compressed, iov_len = 0xffffffff\<rparr>"
  let ?r = "\<lparr>iov = [?v], iovlen = 1, curvec = 0, curoff = 0, total = n\<rparr>"
  let ?w = "\<lparr>out_iov = [?o], out_iovlen = 1, out_vec = 0, out_off = 0, out_written = 0\<rparr>"
  have vi: "vecs_in [?v]" "bytes_of [?v] = take n input"
    using assms(2) by (simp_all add: vecs_in_def empties_last_def iov_bytes_def)
  have r: "one_vec ?r" "iov_rest ?r = take n input"
    using sg_reader [OF vi(1) small_total [OF vi(1)], of n] vi(2) assms(2,3) by (simp_all add: one_vec_def)
  have rl: "length (iov_rest ?r) = n" using r(2) assms(2) by simp
  have "vecs_ok [?o]" by (simp add: vecs_ok_def)
  note w = sg_start [OF _ this]
  have ok: "wide_ok cap ?w" using w(1) by (simp add: wide_ok_def sizes_def cap_def)
  have "length (bytes_of [?o]) = length compressed" using assms(5) by (simp add: iov_bytes_def)
  then have room: "snappy_max_compressed_length (length (iov_rest ?r)) \<le> sg_room ?w"
    using assms(4,5) w(3) unfolding rl by simp
  have env: "one_comp.ready cap env"
    using assms(1,5) wide_direct one_contiguous
    by (auto simp: one_comp.ready_def one.env_ok_def table_ready_def cap_def split: option.splits)
  have av: "available_sg ?r = int (length (iov_rest ?r))"
    using assms(3) unfolding rl by (simp add: available_sg_def signed_of_nat signed_take_bit_int_eq_self)
  obtain env' r' w' where c: "compress available_sg peek_sg (skip_sg True) sink_peek_sg append_sg env ?r ?w = Inr (0, env', r', w')"
      "one_comp.ready cap env'" "same_blocks env env'" "wide_ok cap w'" "sg_written w' = sg_written ?w @ snappy_stream (take n input)"
    using one_comp.compress_ok [where av = available_sg, OF env r(1) ok av room] unfolding r(2) by blast
  obtain v where v: "out_iov w' = [v]" "length (iov_base v) = cap" "iov_len v = 0xffffffff" "out_vec w' = 0"
    using c(4) by (auto simp: wide_ok_def sg_ok_def sizes_def)
  define len where "len = out_written w'"
  have "len = length (snappy_stream (take n input))" using c(4,5) w(2) by (simp add: wide_ok_def sg_ok_def len_def)
  then have len1: "len \<le> snappy_max_compressed_length n" using length_snappy_stream [of "take n input"] assms(2) by simp
  have len: "len \<le> length (iov_base v)" "take len (iov_base v) = snappy_stream (take n input)"
    using c(4,5) w(2) v sg_written_take(1) [of "[(0xffffffff, cap)]" w'] assms(4,5) len1
    by (auto simp: wide_ok_def sg_ok_def len_def iov_bytes_def cap_def)
  have call: "snappy_compress_sg env input n compressed = Inr (0, env', iov_base v, len)"
    using c(1) v(1) by (simp add: snappy_compress_sg_def snappy_compress_iov_def len_def)
  have "table_ready env'" using c(2) by (auto simp: one_comp.ready_def one.env_ok_def table_ready_def)
  then show ?thesis using call len len1 v(2) c(3) unfolding cap_def by blast
qed

text \<open>
  C15. The compressor is a function of its input: \<^verbatim>\<open>snappy_compress\<close> of the flat build, \<^verbatim>\<open>snappy_compress\<close> of the build with \<^verbatim>\<open>SG\<close> and
  \<^verbatim>\<open>snappy_compress_iov\<close> report the same length and write the same bytes, those of the reference compressor, whatever their environments and output buffers hold and however
  input and output are cut into vectors, through the scratch blocks or in place.
\<close>

theorem compressors_agree:
  assumes "table_ready env1" "n \<le> length input" "n < 2 ^ 31" "snappy_max_compressed_length n \<le> length compressed"
    and "sg_env env2" "vecs_in iov_in" "bytes_of iov_in = take n input"
    and "iov_out \<noteq> []" "vecs_ok iov_out" "snappy_max_compressed_length n \<le> length (bytes_of iov_out)"
    and "table_ready env3" "snappy_max_compressed_length n \<le> length compressed3" "length compressed3 + 2 ^ 17 \<le> 2 ^ 32"
  shows "\<exists>env1' buf env2' vs ov env3' buf3 len. snappy_compress env1 input n compressed = Inr (0, env1', buf, len)
    \<and> snappy_compress_iov env2 iov_in (length iov_in) n iov_out (length iov_out) = Inr (0, env2', vs, ov, len)
    \<and> snappy_compress_sg env3 input n compressed3 = Inr (0, env3', buf3, len)
    \<and> take len buf = snappy_stream (take n input) \<and> take len (bytes_of vs) = snappy_stream (take n input)
    \<and> take len buf3 = snappy_stream (take n input) \<and> len = length (snappy_stream (take n input))"
proof -
  obtain env1' buf len where a: "snappy_compress env1 input n compressed = Inr (0, env1', buf, len)" "len \<le> length buf"
      "take len buf = snappy_stream (take n input)"
    using snappy_compress_stream [OF assms(1-4)] by blast
  have n: "length (bytes_of iov_in) = n" using assms(2,7) by simp
  obtain env2' vs ov len' where b: "snappy_compress_iov env2 iov_in (length iov_in) n iov_out (length iov_out) = Inr (0, env2', vs, ov, len')"
      "take len' (bytes_of vs) = snappy_stream (take n input)" "len' = length (snappy_stream (take n input))"
    using compress_iov_stream [OF sg_env_ready [OF assms(5)] assms(6) _ assms(8,9)] assms(3,10) unfolding n unfolding assms(7) by blast
  obtain env3' buf3 len3 where c: "snappy_compress_sg env3 input n compressed3 = Inr (0, env3', buf3, len3)" "len3 \<le> length buf3"
      "take len3 buf3 = snappy_stream (take n input)"
    using compress_sg_stream [OF assms(11,2,3,12,13)] by blast
  have "len' = len" using a(2) b(3) arg_cong [OF a(3), of length] by simp
  moreover have "len3 = len'" using c(2) b(3) arg_cong [OF c(3), of length] by simp
  ultimately show ?thesis using a(1,3) b c(1,3) by blast
qed

theorem compressors_agree_witness:
  "\<exists>env1' buf env2' vs ov env3' buf3 len. snappy_compress example_env [7, 7, 7, 7, 5] 4 (replicate 50 9) = Inr (0, env1', buf, len)
    \<and> snappy_compress_iov example_env example_in (length example_in) 4 example_out (length example_out) = Inr (0, env2', vs, ov, len)
    \<and> snappy_compress_sg example_env [7, 7, 7, 7, 5] 4 (replicate 36 0) = Inr (0, env3', buf3, len)
    \<and> take len buf = snappy_stream (take 4 [7, 7, 7, 7, 5]) \<and> take len (bytes_of vs) = snappy_stream (take 4 [7, 7, 7, 7, 5])
    \<and> take len buf3 = snappy_stream (take 4 [7, 7, 7, 7, 5]) \<and> len = length (snappy_stream (take 4 [7, 7, 7, 7, 5]))"
  by (rule compressors_agree)
    (use example_vecs in \<open>simp_all add: sg_env_def snappy_max_compressed_length_def\<close>)

text \<open>
  The flat entry points of the build with \<^verbatim>\<open>SG\<close>, with an environment of \<^verbatim>\<open>snappy_init_env\<close>, which has no scratch blocks, and without the checks (\<^verbatim>\<open>NDEBUG\<close>):
  \<^verbatim>\<open>snappy_compress\<close> ends without a fault and without using a scratch block and \<^verbatim>\<open>snappy_uncompress\<close> restores the input.
\<close>

theorem snappy_sg_flat_roundtrip:
  assumes "table_ready env" "n \<le> length input" "n < 2 ^ 31" "snappy_max_compressed_length n \<le> length compressed"
    and "length compressed + 2 ^ 17 \<le> 2 ^ 32" "n \<le> length out" "length scratch0 = 5"
  shows "\<exists>env' buf len out'. snappy_compress_sg env input n compressed = Inr (0, env', buf, len) \<and> table_ready env'
           \<and> len \<le> snappy_max_compressed_length n \<and> length buf = length compressed
           \<and> snappy_uncompress_sg False scratch0 buf len out = Inr (0, out') \<and> take n out' = take n input"
proof -
  obtain env' buf len where c: "snappy_compress_sg env input n compressed = Inr (0, env', buf, len)" "table_ready env'"
      "len \<le> snappy_max_compressed_length n" "length buf = length compressed" "len \<le> length buf"
      "take len buf = snappy_stream (take n input)"
    using compress_sg_stream [OF assms(1-5)] by blast
  have d: "snappy_decode (take len buf) = Some (take n input)"
    using snappy_decode_reference [of "take n input"] assms(3) c(6) by simp
  have "len < 2 ^ 32" using c(3) assms(3) by (simp add: snappy_max_compressed_length_def)
  then obtain out' where "snappy_uncompress_sg False scratch0 buf len out = Inr (0, out')" "take n out' = take n input"
    using snappy_uncompress_wide [OF c(5) _ assms(7) _ d, of out len] announced_decode [OF d] assms(2,6)
    by (auto simp: snappy_uncompress_sg_def)
  then show ?thesis using c(1-4) by blast
qed

theorem snappy_sg_flat_roundtrip_witness:
  "\<exists>env' buf len out'. snappy_compress_sg \<lparr>hash_table = Some (replicate kmax_hash_table_size 9), env_scratch = None, scratch_output = None\<rparr>
      [7, 7, 7, 7] 4 (replicate 36 0) = Inr (0, env', buf, len) \<and> table_ready env'
    \<and> len \<le> snappy_max_compressed_length 4 \<and> length buf = length (replicate 36 (0 :: u8))
    \<and> snappy_uncompress_sg False (replicate 5 1) buf len (replicate 4 0) = Inr (0, out') \<and> take 4 out' = take 4 [7, 7, 7, 7]"
  by (rule snappy_sg_flat_roundtrip) (simp_all add: table_ready_def snappy_max_compressed_length_def)

end
