(* ===== verification/Getopt.thy ===== *)
theory Getopt
  imports Main
begin

text \<open>
  \<^verbatim>\<open>getopt\<close> and \<^verbatim>\<open>getopt_long\<close> of the C library as \<^verbatim>\<open>scmd.c\<close> and \<^verbatim>\<open>client.c\<close> call them until they return \<^verbatim>\<open>-1\<close>: the options found
  in the arguments behind the name of the program, and the order into which the arguments are brought, options first. An option that is
  unknown, ambiguous or lacks its argument is the character \<^verbatim>\<open>?\<close>; \<^verbatim>\<open>optarg\<close> is empty where it is \<^verbatim>\<open>NULL\<close>.
\<close>

section \<open>Scanning\<close>

datatype has_arg = no_argument | required_argument

type_synonym short_opts = "(char \<times> has_arg) list"
type_synonym long_opts = "(string \<times> has_arg \<times> char) list"

text \<open>The string of option characters, in which a colon follows those with an argument.\<close>

fun optstring :: "string \<Rightarrow> short_opts" where
  "optstring [] = []"
| "optstring (c # cs) =
     (case cs of
        [] \<Rightarrow> [(c, no_argument)]
      | d # ds \<Rightarrow> if d = CHR '':'' then (c, required_argument) # optstring ds else (c, no_argument) # optstring cs)"

text \<open>An element such as \<^verbatim>\<open>-ab\<close> or \<^verbatim>\<open>-fvalue\<close>: its options and the arguments that are left.\<close>

fun short_cluster :: "short_opts \<Rightarrow> string \<Rightarrow> string list \<Rightarrow> (char \<times> string) list \<times> string list" where
  "short_cluster so [] args = ([], args)"
| "short_cluster so (c # cs) args =
     (case map_of so c of
        Some required_argument \<Rightarrow>
          if cs \<noteq> [] then ([(c, cs)], args)
          else (case args of [] \<Rightarrow> ([(CHR ''?'', [])], []) | a # args \<Rightarrow> ([(c, a)], args))
      | r \<Rightarrow>
          (case short_cluster so cs args of (opts, args) \<Rightarrow> ((if r = None then CHR ''?'' else c, []) # opts, args)))"

text \<open>The name of a long option, in full or abbreviated; abbreviations of options that differ are ambiguous.\<close>

definition long_match :: "long_opts \<Rightarrow> string \<Rightarrow> (has_arg \<times> char) option" where
  "long_match lo name =
     (case map_of lo name of
        Some r \<Rightarrow> Some r
      | None \<Rightarrow>
          (case remdups (map snd (filter (\<lambda>(n, _). take (length name) n = name) lo)) of [r] \<Rightarrow> Some r | _ \<Rightarrow> None))"

definition long_option :: "long_opts \<Rightarrow> string \<Rightarrow> string list \<Rightarrow> (char \<times> string) \<times> string list" where
  "long_option lo s args =
    (let name = takeWhile (\<lambda>c. c \<noteq> CHR ''='') s; behind = dropWhile (\<lambda>c. c \<noteq> CHR ''='') s in
     case long_match lo name of
       None \<Rightarrow> ((CHR ''?'', []), args)
     | Some (no_argument, v) \<Rightarrow> (if behind = [] then (v, []) else (CHR ''?'', []), args)
     | Some (required_argument, v) \<Rightarrow>
         if behind \<noteq> [] then ((v, tl behind), args)
         else (case args of [] \<Rightarrow> ((CHR ''?'', []), []) | a # args \<Rightarrow> ((v, a), args)))"

lemma short_cluster_left: "length (snd (short_cluster so cs args)) \<le> length args"
  by (induction so cs args rule: short_cluster.induct) (auto split: option.splits has_arg.splits list.splits prod.splits)

lemma long_option_left: "length (snd (long_option lo s args)) \<le> length args"
  by (auto simp: long_option_def Let_def split: option.splits prod.splits has_arg.splits list.splits)

text \<open>
  The arguments in turn: the options, the elements that make them up, and the operands. Without long options an element that starts
  with two dashes is a cluster; \<^verbatim>\<open>--\<close> ends the options.
\<close>

function getopt_scan :: "short_opts \<Rightarrow> long_opts option \<Rightarrow> string list \<Rightarrow> (char \<times> string) list \<times> string list \<times> string list" where
  "getopt_scan so lo [] = ([], [], [])"
| "getopt_scan so lo (a # args) =
     (if a = ''--'' then ([], [a], args)
      else if lo \<noteq> None \<and> take 2 a = ''--'' then
        (case long_option (the lo) (drop 2 a) args of (opt, rest) \<Rightarrow>
         case getopt_scan so lo rest of (opts, els, operands) \<Rightarrow>
           (opt # opts, a # take (length args - length rest) args @ els, operands))
      else if 1 < length a \<and> hd a = CHR ''-'' then
        (case short_cluster so (tl a) args of (opts', rest) \<Rightarrow>
         case getopt_scan so lo rest of (opts, els, operands) \<Rightarrow>
           (opts' @ opts, a # take (length args - length rest) args @ els, operands))
      else case getopt_scan so lo args of (opts, els, operands) \<Rightarrow> (opts, els, a # operands))"
  by pat_completeness auto
termination
proof (relation "measure (\<lambda>(so, lo, args). length args)", goal_cases)
  case (2 so lo a args opt rest)
  then show ?case using long_option_left [of "the lo" "drop 2 a" args] by (simp flip: 2(3))
next
  case (3 so lo a args opts' rest)
  then show ?case using short_cluster_left [of so "tl a" args] by (simp flip: 3(4))
qed simp_all

definition getopt :: "string \<Rightarrow> string list \<Rightarrow> (char \<times> string) list \<times> string list \<times> string list" where
  "getopt spec args = getopt_scan (optstring spec) None args"

definition getopt_long :: "string \<Rightarrow> long_opts \<Rightarrow> string list \<Rightarrow> (char \<times> string) list \<times> string list \<times> string list" where
  "getopt_long spec lo args = getopt_scan (optstring spec) (Some lo) args"

section \<open>Options are read as they were written\<close>

text \<open>A long option with its argument, in one word or in two.\<close>

definition written :: "string \<times> string \<times> bool \<Rightarrow> string list" where
  "written = (\<lambda>(name, v, joined). if joined then [''--'' @ name @ CHR ''='' # v] else [''--'' @ name, v])"

lemma long_option_written:
  assumes "map_of lo name = Some (required_argument, c)" "CHR ''='' \<notin> set name"
  shows "long_option lo name (v # args) = ((c, v), args)" "long_option lo (name @ CHR ''='' # v) args = ((c, v), args)"
proof -
  have t: "takeWhile (\<lambda>c. c \<noteq> CHR ''='') name = name" "dropWhile (\<lambda>c. c \<noteq> CHR ''='') name = []"
      "takeWhile (\<lambda>c. c \<noteq> CHR ''='') (name @ CHR ''='' # v) = name" "dropWhile (\<lambda>c. c \<noteq> CHR ''='') (name @ CHR ''='' # v) = CHR ''='' # v"
    using assms(2) by (auto simp: takeWhile_eq_all_conv dropWhile_eq_Nil_conv takeWhile_append dropWhile_append)
  show "long_option lo name (v # args) = ((c, v), args)" "long_option lo (name @ CHR ''='' # v) args = ((c, v), args)"
    unfolding long_option_def Let_def t long_match_def assms(1) by simp_all
qed

lemma getopt_long_step:
  assumes "map_of lo name = Some (required_argument, c)" "CHR ''='' \<notin> set name" "name \<noteq> []"
  shows "getopt_scan so (Some lo) (written (name, v, joined) @ args) =
    (case getopt_scan so (Some lo) args of (opts, els, operands) \<Rightarrow> ((c, v) # opts, written (name, v, joined) @ els, operands))"
  using long_option_written [OF assms(1,2)] assms(3) by (simp add: written_def)

lemma getopt_long_written:
  assumes "\<forall>(name, v, joined) \<in> set xs. \<exists>c. map_of lo name = Some (required_argument, c) \<and> CHR ''='' \<notin> set name \<and> name \<noteq> []"
  shows "getopt_scan so (Some lo) (concat (map written xs)) = (map (\<lambda>(name, v, _). (snd (the (map_of lo name)), v)) xs, concat (map written xs), [])"
  using assms
proof (induction xs)
  case (Cons x xs)
  obtain name v joined where x: "x = (name, v, joined)" by (cases x)
  then obtain c where c: "map_of lo name = Some (required_argument, c)" "CHR ''='' \<notin> set name" "name \<noteq> []" using Cons.prems by auto
  show ?case using getopt_long_step [OF c, of so v joined "concat (map written xs)"] Cons x c(1) by simp
qed simp

text \<open>An argument that does not start with a dash is an operand.\<close>

lemma getopt_operand:
  assumes "take 1 a \<noteq> ''-''"
  shows "getopt_scan so lo (a # args) = (case getopt_scan so lo args of (opts, els, operands) \<Rightarrow> (opts, els, a # operands))"
  using assms by (cases a) auto

lemma getopt_operands: "\<forall>a \<in> set args. take 1 a \<noteq> ''-'' \<Longrightarrow> getopt_scan so lo args = ([], [], args)"
  by (induction args) (simp_all add: getopt_operand del: getopt_scan.simps(2))

end
