(* ===== verification/Snappy_Tools.thy ===== *)
theory Snappy_Tools
  imports Snappy_SG Getopt
begin

text \<open>
  The command line programs of \<^verbatim>\<open>snappy-c\<close> that use the library: \<^verbatim>\<open>verify.c\<close>, which compresses and uncompresses files and
  compares, and \<^verbatim>\<open>scmd.c\<close>, which compresses or uncompresses one file, with the helpers of \<^verbatim>\<open>map.c\<close> and \<^verbatim>\<open>util.c\<close>.
  Its \<^verbatim>\<open>Makefile\<close> builds them with \<^verbatim>\<open>SG\<close>. What the operating system and \<^verbatim>\<open>malloc\<close> answer is an argument.
\<close>

section \<open>Environment and helpers\<close>

datatype tool_msg = Usage | Perror string | Out_of_memory | Compression_failed string int | Uncompression_failed string int
  | Comparison_failed string int nat | File_ok string | Cannot_open string | Cannot_process string int | Specify_output
  | Cannot_create string | Cannot_write string

record tool_env =
  fstat_ok :: bool
  map_ok :: bool
  page_size :: nat
  heap_mem :: "nat \<Rightarrow> buffer option" \<comment> \<open>\<^verbatim>\<open>malloc\<close>: the uninitialised block, or \<^verbatim>\<open>NULL\<close>\<close>
  env_table :: "u16 list option"
  stack_scratch :: buffer \<comment> \<open>\<^verbatim>\<open>scratch\<close> of the decompressor on the stack\<close>
  open_out_ok :: bool
  write_ok :: bool

definition roundup :: "nat \<Rightarrow> nat \<Rightarrow> nat" where
  "roundup x y = unat ((word_of_nat x + word_of_nat y - 1 :: u64) AND NOT (word_of_nat y - 1))"

text \<open>
  \<^verbatim>\<open>mapfile_flag\<close>: the mapped memory, or \<^verbatim>\<open>NULL\<close>, and \<^verbatim>\<open>*size\<close>, which is not set when the file cannot be opened. The last
  page of a mapping is filled with zeros behind the end of the file. \<open>unmap_file\<close> is the number of bytes that are unmapped.
\<close>

definition mapfile_flag :: "tool_env \<Rightarrow> (string \<rightharpoonup> buffer) \<Rightarrow> string \<Rightarrow> nat option \<Rightarrow> buffer option \<times> nat option" where
  "mapfile_flag env fs file sz =
     (case fs file of
        None \<Rightarrow> (None, sz)
      | Some data \<Rightarrow>
          if fstat_ok env then
            let sz = length data in
            if sz > 0 then
              let sz = roundup (length data) (page_size env) in
              if map_ok env then (Some (data @ replicate (sz - length data) 0), Some (length data))
              else (None, Some sz)
            else (None, Some sz)
          else (None, sz))"

definition unmap_file :: "tool_env \<Rightarrow> nat \<Rightarrow> nat" where
  "unmap_file env sz = roundup sz (page_size env)"

definition mapfile :: "tool_env \<Rightarrow> (string \<rightharpoonup> buffer) \<Rightarrow> string \<Rightarrow> nat option \<Rightarrow> buffer option \<times> nat option" where
  "mapfile env fs file sz = mapfile_flag env fs file sz"

text \<open>\<^verbatim>\<open>return i\<close> with \<^verbatim>\<open>size_t i\<close> and the return type \<^verbatim>\<open>int\<close>.\<close>

function compare_from :: "buffer \<Rightarrow> buffer \<Rightarrow> nat \<Rightarrow> nat \<Rightarrow> int c_result" where
  "compare_from a b n i =
     (if i < n then
        cbind (load8 a i) (\<lambda>x. cbind (load8 b i) (\<lambda>y.
          if x \<noteq> y then Inr (sint (word_of_nat i :: u32)) else compare_from a b n (i + 1)))
      else Inr (-1))"
  by pat_completeness auto
termination
  by (relation "measure (\<lambda>(a, b, n, i). n - i)") auto

declare compare_from.simps [simp del]

definition compare :: "buffer \<Rightarrow> buffer \<Rightarrow> nat \<Rightarrow> int c_result" where
  "compare a b n = compare_from a b n 0"

definition memcmp_differs :: "buffer \<Rightarrow> buffer \<Rightarrow> nat \<Rightarrow> bool c_result" where
  "memcmp_differs a b n = cbind (load_bytes a 0 n) (\<lambda>x. cbind (load_bytes b 0 n) (\<lambda>y. Inr (x \<noteq> y)))"

section \<open>verify.c\<close>

text \<open>
  One round of the loop over the files; \<^verbatim>\<open>size\<close> is uninitialised at its start. The result \<^verbatim>\<open>None\<close> is \<^verbatim>\<open>exit(1)\<close> of
  \<^verbatim>\<open>xmalloc\<close>, else the environment, \<^verbatim>\<open>failed\<close> and the messages.
\<close>

definition verify_file ::
    "tool_env \<Rightarrow> (string \<rightharpoonup> buffer) \<Rightarrow> bool \<Rightarrow> string \<Rightarrow> snappy_env \<Rightarrow> int \<Rightarrow> tool_msg list \<Rightarrow>
     (snappy_env \<times> int \<times> tool_msg list) option c_result" where
  "verify_file env fs verbose name snap failed msgs =
     (case mapfile env fs name None of
        (_, None) \<Rightarrow> Inl Uninitialised_read
      | (None, Some sz) \<Rightarrow>
          if sz > 0 then Inr (Some (snap, 1, msgs @ [Perror name])) else Inr (Some (snap, failed, msgs))
      | (Some mem, Some sz) \<Rightarrow>
          (case (heap_mem env (snappy_max_compressed_length sz), heap_mem env sz) of
             (Some out, Some buf2) \<Rightarrow>
               cbind (snappy_compress_sg snap mem sz out) (\<lambda>(err, snap, out, outlen).
               if err \<noteq> 0 then Inr (Some (snap, 1, msgs @ [Compression_failed name err]))
               else
                 cbind (snappy_uncompress_sg False (stack_scratch env) out outlen buf2) (\<lambda>(err, buf2).
                 if err \<noteq> 0 then Inr (Some (snap, 1, msgs @ [Uncompression_failed name err]))
                 else
                   cbind (memcmp_differs buf2 mem sz) (\<lambda>differs.
                   if differs then
                     cbind (compare buf2 mem sz) (\<lambda>pos.
                       if pos \<ge> 0 then Inr (Some (snap, 1, msgs @ [Comparison_failed name pos sz]))
                       else Inr (Some (snap, failed, msgs)))
                   else Inr (Some (snap, failed, if verbose then msgs @ [File_ok name] else msgs)))))
           | _ \<Rightarrow> Inr None))"

fun verify_files ::
    "tool_env \<Rightarrow> (string \<rightharpoonup> buffer) \<Rightarrow> bool \<Rightarrow> string list \<Rightarrow> snappy_env \<Rightarrow> int \<Rightarrow> tool_msg list \<Rightarrow>
     (int \<times> tool_msg list) c_result" where
  "verify_files env fs verbose [] snap failed msgs = Inr (failed, msgs)"
| "verify_files env fs verbose (name # names) snap failed msgs =
     cbind (verify_file env fs verbose name snap failed msgs) (\<lambda>r.
       case r of None \<Rightarrow> Inr (1, msgs @ [Out_of_memory])
       | Some (snap, failed, msgs) \<Rightarrow> verify_files env fs verbose names snap failed msgs)"

text \<open>\<open>av\<close> are the arguments behind the name of the program; the result of \<^verbatim>\<open>snappy_init_env\<close> is not looked at.\<close>

definition verify_main :: "tool_env \<Rightarrow> (string \<rightharpoonup> buffer) \<Rightarrow> snappy_env \<Rightarrow> string list \<Rightarrow> (int \<times> tool_msg list) c_result" where
  "verify_main env fs snap av =
    (let snap = snd (snappy_init_env (env_table env) snap) in
     case av of
       [] \<Rightarrow> Inr (0, [])
     | a # as \<Rightarrow> if a = ''-v'' then verify_files env fs True as snap 0 [] else verify_files env fs False av snap 0 [])"

section \<open>scmd.c\<close>

datatype scmd_mode = undef | compress_mode | uncompress_mode

record tool_os =
  tool_files :: "string \<rightharpoonup> buffer"
  tool_stdout :: buffer
  tool_stderr :: "tool_msg list"

definition match_suffix :: "string \<Rightarrow> string \<Rightarrow> bool" where
  "match_suffix p suf = (if length p < length suf then False else drop (length p - length suf) p = suf)"

text \<open>
  \<^verbatim>\<open>open_output\<close>: the name of the output file and whether it is a block of \<^verbatim>\<open>xmalloc\<close>, or \<^verbatim>\<open>None\<close> after \<^verbatim>\<open>exit(1)\<close>.
\<close>

definition open_output :: "tool_env \<Rightarrow> scmd_mode \<Rightarrow> string \<Rightarrow> string option \<Rightarrow> tool_os \<Rightarrow> (string \<times> bool) option \<times> tool_os" where
  "open_output env mode name oname os =
    (let fail = (\<lambda>m. (None, os\<lparr>tool_stderr := tool_stderr os @ [m]\<rparr>));
         create = (\<lambda>file own.
           if open_out_ok env then (Some (file, own), os\<lparr>tool_files := (tool_files os)(file \<mapsto> [])\<rparr>)
           else (None, os\<lparr>tool_stderr := tool_stderr os @ [Cannot_create file]\<rparr>)) in
     case oname of
       Some file \<Rightarrow> create file False
     | None \<Rightarrow>
         if heap_mem env (length name + 6) = None then fail Out_of_memory
         else if mode = compress_mode then create (name @ ''.snp'') True
         else if match_suffix name ''.snp'' then create (take (length name - 4) name) True
         else fail Specify_output)"

fun scmd_options :: "char list \<Rightarrow> scmd_mode \<Rightarrow> bool \<Rightarrow> (scmd_mode \<times> bool) option" where
  "scmd_options [] mode to_stdout = Some (mode, to_stdout)"
| "scmd_options (opt # opts) mode to_stdout =
     (if opt = CHR ''d'' then scmd_options opts uncompress_mode to_stdout
      else if opt = CHR ''c'' then scmd_options opts compress_mode to_stdout
      else if opt = CHR ''s'' then scmd_options opts mode True
      else None)"

text \<open>
  The middle of \<^verbatim>\<open>main\<close>: the size of the output, its allocation and the call of the library: \<^verbatim>\<open>err\<close>, \<^verbatim>\<open>out\<close> and \<^verbatim>\<open>outlen\<close>.
  \<^verbatim>\<open>snappy_uncompressed_length\<close> returns true for success and leaves \<^verbatim>\<open>outlen\<close> unset otherwise; its result is overwritten.
\<close>

definition scmd_process :: "tool_env \<Rightarrow> scmd_mode \<Rightarrow> snappy_env \<Rightarrow> buffer \<Rightarrow> nat \<Rightarrow> (int \<times> buffer \<times> nat) option c_result" where
  "scmd_process env mode snap mem sz =
     (if mode = uncompress_mode then
        cbind (snappy_uncompressed_length mem 0 sz) (\<lambda>l.
        case l of
          None \<Rightarrow> Inl Uninitialised_read
        | Some outlen \<Rightarrow>
            (case heap_mem env outlen of
               None \<Rightarrow> Inr None
             | Some out \<Rightarrow>
                 cbind (snappy_uncompress_sg False (stack_scratch env) mem sz out) (\<lambda>(err, out).
                   Inr (Some (err, out, outlen)))))
      else
        case heap_mem env (snappy_max_compressed_length sz) of
          None \<Rightarrow> Inr None
        | Some out \<Rightarrow>
            cbind (snappy_compress_sg (snd (snappy_init_env (env_table env) snap)) mem sz out) (\<lambda>(err, snap, out, outlen).
              Inr (Some (err, out, outlen))))"

text \<open>The end of \<^verbatim>\<open>main\<close>: writing the result and releasing the name. \<^verbatim>\<open>free\<close> of an argument of the program is invalid.\<close>

definition scmd_write :: "tool_env \<Rightarrow> buffer \<Rightarrow> nat \<Rightarrow> string \<Rightarrow> bool \<Rightarrow> bool \<Rightarrow> tool_os \<Rightarrow> (int \<times> tool_os) c_result" where
  "scmd_write env out outlen file own to_stdout os =
     cbind (load_bytes out 0 outlen) (\<lambda>bs.
     let r = (if write_ok env then
                (0, if to_stdout then os\<lparr>tool_stdout := tool_stdout os @ bs\<rparr>
                    else os\<lparr>tool_files := (tool_files os)(file \<mapsto> bs)\<rparr>)
              else (1, os\<lparr>tool_stderr := tool_stderr os @ [Cannot_write file]\<rparr>)) in
     if \<not> to_stdout \<and> \<not> own then Inl Invalid_access else Inr r)"

text \<open>
  \<^verbatim>\<open>main\<close> with the options that \<^verbatim>\<open>getopt\<close> has found and the operands from \<^verbatim>\<open>av[optind]\<close> on; \<open>av1\<close> is \<^verbatim>\<open>av[1]\<close>, which the message
  about a file that cannot be opened names.
\<close>

definition scmd_file ::
    "tool_env \<Rightarrow> snappy_env \<Rightarrow> char list \<Rightarrow> string \<Rightarrow> string list \<Rightarrow> tool_os \<Rightarrow> (int \<times> tool_os) c_result" where
  "scmd_file env snap opts av1 args os =
    (let err = (\<lambda>os m. Inr (1, os\<lparr>tool_stderr := tool_stderr os @ [m]\<rparr>)) in
     case scmd_options opts undef False of
       None \<Rightarrow> err os Usage
     | Some (mode, to_stdout) \<Rightarrow>
         (case args of
            [] \<Rightarrow> err os Usage
          | name # further \<Rightarrow>
              let mode = (if mode = undef then if match_suffix name ''.snp'' then uncompress_mode else compress_mode else mode) in
              (case mapfile env (tool_files os) name None of
                 (Some mem, Some sz) \<Rightarrow>
                   cbind (scmd_process env mode snap mem sz) (\<lambda>r.
                   case r of
                     None \<Rightarrow> err os Out_of_memory
                   | Some (e, out, outlen) \<Rightarrow>
                       if e \<noteq> 0 then err os (Cannot_process name e)
                       else if to_stdout then
                         if further \<noteq> [] then err os Usage else scmd_write env out outlen ''<stdout>'' False True os
                       else if length further > 1 then err os Usage
                       else
                         (case open_output env mode name (if further = [] then None else Some (hd further)) os of
                            (None, os) \<Rightarrow> Inr (1, os)
                          | (Some (file, own), os) \<Rightarrow> scmd_write env out outlen file own False os))
               | _ \<Rightarrow> err os (Cannot_open av1))))"

definition scmd_main :: "tool_env \<Rightarrow> snappy_env \<Rightarrow> string list \<Rightarrow> tool_os \<Rightarrow> (int \<times> tool_os) c_result" where
  "scmd_main env snap av os =
     (case getopt ''dcs'' av of (opts, els, args) \<Rightarrow> scmd_file env snap (map fst opts) (hd (els @ args)) args os)"

section \<open>Verifying files\<close>

text \<open>An environment in which no call of the operating system fails and there is memory.\<close>

definition tools_ok :: "tool_env \<Rightarrow> bool" where
  "tools_ok env \<longleftrightarrow> fstat_ok env \<and> map_ok env \<and> open_out_ok env \<and> write_ok env \<and> length (stack_scratch env) = 5
     \<and> (\<forall>n. case heap_mem env n of None \<Rightarrow> False | Some b \<Rightarrow> length b = n)
     \<and> (case env_table env of None \<Rightarrow> False | Some t \<Rightarrow> length t = kmax_hash_table_size)"

lemma tools_okD:
  assumes "tools_ok env"
  shows "fstat_ok env" "map_ok env" "open_out_ok env" "write_ok env" "length (stack_scratch env) = 5"
    "\<exists>b. heap_mem env n = Some b \<and> length b = n" "table_ready (snd (snappy_init_env (env_table env) snap))"
proof -
  have "case heap_mem env n of None \<Rightarrow> False | Some b \<Rightarrow> length b = n" using assms by (simp add: tools_ok_def)
  then show "\<exists>b. heap_mem env n = Some b \<and> length b = n" by (auto split: option.splits)
qed (use assms in \<open>auto simp: tools_ok_def snappy_init_env_def Let_def table_ready_def split: option.splits\<close>)

lemma mapfile_ok:
  assumes "tools_ok env" "fs name = Some data" "data \<noteq> []"
  shows "\<exists>pad. mapfile env fs name sz = (Some (data @ pad), Some (length data))"
  using tools_okD(1,2) [OF assms(1)] assms(2,3) by (auto simp: mapfile_def mapfile_flag_def Let_def)

text \<open>Compressing and uncompressing a mapped file, as both programs do.\<close>

lemma tool_compress:
  assumes "tools_ok env" "table_ready snap" "length data < 2 ^ 31" "length out = snappy_max_compressed_length (length data)"
  shows "\<exists>snap' buf len. snappy_compress_sg snap (data @ pad) (length data) out = Inr (0, snap', buf, len) \<and> table_ready snap'
    \<and> len \<le> length buf \<and> len < 2 ^ 32 \<and> take len buf = snappy_stream data
    \<and> snappy_decode (take len buf) = Some data"
proof -
  have "length out + 2 ^ 17 \<le> 2 ^ 32" using assms(3,4) by (simp add: snappy_max_compressed_length_def)
  then obtain snap' buf len where c: "snappy_compress_sg snap (data @ pad) (length data) out = Inr (0, snap', buf, len)" "table_ready snap'"
      "len \<le> snappy_max_compressed_length (length data)" "len \<le> length buf" "take len buf = snappy_stream data"
    using compress_sg_stream [OF assms(2), of "length data" "data @ pad" out] assms(3,4) by auto
  have "len < 2 ^ 32" using c(3) assms(3) by (simp add: snappy_max_compressed_length_def)
  moreover have "snappy_decode (take len buf) = Some data" using snappy_decode_reference [of data] assms(3) c(5) by simp
  ultimately show ?thesis using c by blast
qed

lemma uncompress_sg_stream:
  assumes "len \<le> length buf" "len < 2 ^ 32" "length scratch0 = 5" "snappy_decode (take len buf) = Some bs" "length bs \<le> length out"
  shows "\<exists>out'. snappy_uncompress_sg False scratch0 buf len out = Inr (0, out') \<and> length out' = length out \<and> take (length bs) out' = bs"
  using snappy_uncompress_wide [OF assms(1-3) _ assms(4), of out len] announced_decode [OF assms(4)] assms(5)
  by (simp add: snappy_uncompress_sg_def)

lemma verify_file_ok:
  assumes "tools_ok env" "table_ready snap" "fs name = Some data" "length data < 2 ^ 31"
  shows "\<exists>snap'. table_ready snap' \<and> verify_file env fs verbose name snap failed msgs =
    Inr (Some (snap', failed, if verbose \<and> data \<noteq> [] then msgs @ [File_ok name] else msgs))"
proof (cases "data = []")
  case True
  then show ?thesis
    using assms(2,3) tools_okD(1) [OF assms(1)] by (auto simp: verify_file_def mapfile_def mapfile_flag_def)
next
  case False
  obtain pad where m: "mapfile env fs name None = (Some (data @ pad), Some (length data))"
    using mapfile_ok [where sz = None and fs = fs, OF assms(1,3) False] by blast
  obtain out buf2 where h: "heap_mem env (snappy_max_compressed_length (length data)) = Some out"
      "length out = snappy_max_compressed_length (length data)" "heap_mem env (length data) = Some buf2" "length buf2 = length data"
    using tools_okD(6) [OF assms(1)] by metis
  obtain snap' buf len where c: "snappy_compress_sg snap (data @ pad) (length data) out = Inr (0, snap', buf, len)" "table_ready snap'"
      "len \<le> length buf" "len < 2 ^ 32" "snappy_decode (take len buf) = Some data"
    using tool_compress [OF assms(1,2,4) h(2)] by blast
  obtain buf2' where u: "snappy_uncompress_sg False (stack_scratch env) buf len buf2 = Inr (0, buf2')" "take (length data) buf2' = data"
    using uncompress_sg_stream [OF c(3,4) tools_okD(5) [OF assms(1)] c(5), of buf2] h(4) by auto
  have "length data \<le> length buf2'" using arg_cong [OF u(2), of length] by simp
  then have "memcmp_differs buf2' (data @ pad) (length data) = Inr False"
    using u(2) by (simp add: memcmp_differs_def mem_simps)
  then show ?thesis using m h c(1,2) u(1) False by (simp add: verify_file_def)
qed

lemma verify_files_ok:
  assumes "tools_ok env" "table_ready snap" "\<forall>name \<in> set names. \<exists>data. fs name = Some data \<and> length data < 2 ^ 31"
  shows "verify_files env fs verbose names snap failed msgs =
    Inr (failed, msgs @ (if verbose then map File_ok (filter (\<lambda>name. fs name \<noteq> Some []) names) else []))"
  using assms(2,3)
proof (induction names arbitrary: snap msgs)
  case (Cons name names)
  then obtain data where d: "fs name = Some data" "length data < 2 ^ 31" by auto
  obtain snap' where s: "table_ready snap'" "verify_file env fs verbose name snap failed msgs =
      Inr (Some (snap', failed, if verbose \<and> data \<noteq> [] then msgs @ [File_ok name] else msgs))"
    using verify_file_ok [where fs = fs, OF assms(1) Cons.prems(1) d] by blast
  show ?case using Cons.IH [OF s(1)] Cons.prems(2) s(2) d(1) by auto
qed simp

text \<open>
  C25. \<^verbatim>\<open>verify\<close> reports no failure: for any list of files that exist and are shorter than 2 GiB, with memory and no failing system
  call, it returns \<open>0\<close>, one environment being enough for all files, and with \<^verbatim>\<open>-v\<close> confirms exactly the
  files that are not empty.
\<close>

theorem verify_passes:
  assumes "tools_ok env" "\<forall>name \<in> set names. \<exists>data. fs name = Some data \<and> length data < 2 ^ 31"
  shows "verify_main env fs snap (''-v'' # names) = Inr (0, map File_ok (filter (\<lambda>name. fs name \<noteq> Some []) names))
    \<and> (names \<noteq> [] \<and> hd names \<noteq> ''-v'' \<longrightarrow> verify_main env fs snap names = Inr (0, []))"
  using verify_files_ok [OF assms(1) tools_okD(7) [OF assms(1)] assms(2)]
  by (cases names) (simp_all add: verify_main_def Let_def del: verify_files.simps(2))

definition example_tools :: tool_env where
  "example_tools = \<lparr>fstat_ok = True, map_ok = True, page_size = 4096, heap_mem = (\<lambda>n. Some (replicate n 0)),
     env_table = Some (replicate kmax_hash_table_size 0), stack_scratch = replicate 5 0, open_out_ok = True, write_ok = True\<rparr>"

lemma example_tools_ok: "tools_ok example_tools"
  by (simp add: tools_ok_def example_tools_def)

theorem verify_passes_witness:
  "verify_main example_tools [''a'' \<mapsto> [7, 7, 7], ''b'' \<mapsto> []] example_env [''-v'', ''a'', ''b''] = Inr (0, [File_ok ''a''])"
  using verify_passes [OF example_tools_ok, of "[''a'', ''b'']" "[''a'' \<mapsto> [7, 7, 7], ''b'' \<mapsto> []]" example_env] by simp

text \<open>A file that cannot be opened leaves \<^verbatim>\<open>size\<close> uninitialised, and \<^verbatim>\<open>verify\<close> looks at it.\<close>

lemma verify_missing_file:
  "fs name = None \<Longrightarrow> verify_file env fs verbose name snap failed msgs = Inl Uninitialised_read"
  by (simp add: verify_file_def mapfile_def mapfile_flag_def)

section \<open>Compressing and uncompressing with scmd\<close>

lemma match_suffix_append [simp]: "match_suffix (p @ suf) suf"
  by (simp add: match_suffix_def)

text \<open>Command lines without further options.\<close>

lemma scmd_compress_line:
  assumes "\<forall>a \<in> set args. take 1 a \<noteq> ''-''"
  shows "scmd_main env snap (''-c'' # args) os = scmd_file env snap [CHR ''c''] ''-c'' args os"
  by (simp add: scmd_main_def getopt_def getopt_operands [OF assms])

lemma scmd_restore_line:
  assumes "name \<noteq> []" "hd name \<noteq> CHR ''-''" "opts = [] \<or> opts = [''-d'']"
  shows "\<exists>cs av1 mode. scmd_main env snap (opts @ [name @ ''.snp'']) os = scmd_file env snap cs av1 [name @ ''.snp''] os
    \<and> scmd_options cs undef False = Some (mode, False) \<and> (mode = undef \<or> mode = uncompress_mode)"
  using assms(3)
proof
  have *: "\<forall>a \<in> set [name @ ''.snp'']. take 1 a \<noteq> ''-''" using assms(1,2) by (cases name) auto
  assume "opts = []"
  then show ?thesis using getopt_operands [OF *, of "optstring ''dcs''" None]
    by (intro exI [of _ "[]"] exI [of _ "name @ ''.snp''"] exI [of _ undef]) (simp add: scmd_main_def getopt_def)
next
  have *: "\<forall>a \<in> set [name @ ''.snp'']. take 1 a \<noteq> ''-''" using assms(1,2) by (cases name) auto
  assume "opts = [''-d'']"
  then show ?thesis using getopt_operands [OF *, of "optstring ''dcs''" None]
    by (intro exI [of _ "[CHR ''d'']"] exI [of _ "''-d''"] exI [of _ uncompress_mode]) (simp add: scmd_main_def getopt_def)
qed

text \<open>The two directions of the middle part on a mapped file.\<close>

lemma scmd_process_compresses:
  assumes "tools_ok env" "length data < 2 ^ 31"
  shows "\<exists>buf len. scmd_process env compress_mode snap (data @ pad) (length data) = Inr (Some (0, buf, len)) \<and> len \<le> length buf
    \<and> take len buf = snappy_stream data"
proof -
  note ok = tools_okD [OF assms(1)]
  obtain out where h: "heap_mem env (snappy_max_compressed_length (length data)) = Some out"
      "length out = snappy_max_compressed_length (length data)" using ok(6) by blast
  then show ?thesis using tool_compress [OF assms(1) ok(7) assms(2) h(2), of snap pad] by (auto simp: scmd_process_def)
qed

lemma scmd_process_uncompresses:
  assumes "tools_ok env" "length data < 2 ^ 31"
  shows "\<exists>buf len. scmd_process env uncompress_mode snap (snappy_stream data @ pad) (length (snappy_stream data)) = Inr (Some (0, buf, len))
    \<and> len \<le> length buf \<and> take len buf = data"
proof -
  note ok = tools_okD [OF assms(1)]
  let ?bs = "snappy_stream data"
  have "length ?bs < 2 ^ 32" using length_snappy_stream [of data] assms(2) by (simp add: snappy_max_compressed_length_def)
  moreover have "snappy_uncompressed_length (?bs @ pad) 0 (length ?bs) = Inr (Some (length data))"
    using varint_parse_bytes [of "?bs @ pad" "[]" "word_of_nat (length data)" "encode_all (stream_elements data) @ pad" "length ?bs"] assms(2)
    by (auto simp: snappy_uncompressed_length_def snappy_stream_def unat_u32)
  moreover obtain out where h: "heap_mem env (length data) = Some out" "length out = length data" using ok(6) by blast
  moreover have "snappy_decode ?bs = Some data" using snappy_decode_reference [of data] assms(2) by simp
  ultimately show ?thesis
    using uncompress_sg_stream [of "length ?bs" "?bs @ pad" "stack_scratch env" data out] ok(5) by (auto simp: scmd_process_def)
qed

text \<open>A file that the middle part turns into \<open>result\<close>, with no output name given.\<close>

lemma scmd_writes:
  assumes "tools_ok env"
    and process: "\<And>pad. \<exists>buf len. scmd_process env mode' snap (data @ pad) (length data) = Inr (Some (0, buf, len)) \<and> len \<le> length buf \<and> take len buf = result"
    and "tool_files os name = Some data" "data \<noteq> []" "scmd_options cs undef False = Some (mode, False)"
    and "mode' = (if mode = undef then if match_suffix name ''.snp'' then uncompress_mode else compress_mode else mode)"
    and "if mode' = compress_mode then file = name @ ''.snp'' else name = file @ ''.snp''"
  shows "scmd_file env snap cs av1 [name] os = Inr (0, os\<lparr>tool_files := (tool_files os)(file \<mapsto> result)\<rparr>)"
proof -
  note ok = tools_okD [OF assms(1)]
  obtain pad where m: "mapfile env (tool_files os) name None = (Some (data @ pad), Some (length data))"
    using mapfile_ok [where sz = None and fs = "tool_files os", OF assms(1,3,4)] by blast
  obtain buf len where p: "scmd_process env mode' snap (data @ pad) (length data) = Inr (Some (0, buf, len))" "len \<le> length buf" "take len buf = result"
    using process by blast
  have "heap_mem env (length name + 6) \<noteq> None" using ok(6) [of "length name + 6"] by auto
  then have "open_output env mode' name None os = (Some (file, True), os\<lparr>tool_files := (tool_files os)(file \<mapsto> [])\<rparr>)"
    using assms(7) ok(3) by (auto simp: open_output_def split: if_splits)
  then show ?thesis
    using m p ok(4) assms(5) unfolding assms(6) by (simp add: scmd_file_def Let_def scmd_write_def mem_simps)
qed

text \<open>
  C26. \<^verbatim>\<open>scmd\<close> there and back: \<^verbatim>\<open>scmd -c f\<close> on a file of less than 2 GiB that is not empty writes the stream of the file to \<^verbatim>\<open>f.snp\<close> and nothing else; in any
  later state of the file system in which \<^verbatim>\<open>f.snp\<close> is the same, \<^verbatim>\<open>scmd f.snp\<close>, with \<^verbatim>\<open>-d\<close> or without
  options, restores \<^verbatim>\<open>f\<close> and changes nothing else.
\<close>

theorem scmd_roundtrip:
  assumes "tools_ok env" "tool_files os name = Some data" "data \<noteq> []" "length data < 2 ^ 31"
    and "opts = [] \<or> opts = [''-d'']" and "name \<noteq> []" "hd name \<noteq> CHR ''-''"
  shows "scmd_main env snap [''-c'', name] os = Inr (0, os\<lparr>tool_files := (tool_files os)(name @ ''.snp'' \<mapsto> snappy_stream data)\<rparr>)
    \<and> (\<forall>os'. tool_files os' (name @ ''.snp'') = Some (snappy_stream data) \<longrightarrow>
         scmd_main env snap (opts @ [name @ ''.snp'']) os' = Inr (0, os'\<lparr>tool_files := (tool_files os')(name \<mapsto> data)\<rparr>))"
proof -
  have n: "take 1 name \<noteq> ''-''" "snappy_stream data \<noteq> []" using assms(6,7) by (cases name) (auto simp: snappy_stream_def)
  have line: "scmd_main env snap [''-c'', name] os = scmd_file env snap [CHR ''c''] ''-c'' [name] os"
    by (rule scmd_compress_line) (use n(1) in simp)
  have "scmd_main env snap [''-c'', name] os = Inr (0, os\<lparr>tool_files := (tool_files os)(name @ ''.snp'' \<mapsto> snappy_stream data)\<rparr>)"
    unfolding line using scmd_writes [OF assms(1) scmd_process_compresses [OF assms(1,4)] assms(2,3), of "[CHR ''c'']" compress_mode "name @ ''.snp''"] by simp
  moreover have "scmd_main env snap (opts @ [name @ ''.snp'']) os' = Inr (0, os'\<lparr>tool_files := (tool_files os')(name \<mapsto> data)\<rparr>)"
    if f: "tool_files os' (name @ ''.snp'') = Some (snappy_stream data)" for os'
  proof -
    obtain cs av1 mode where opt: "scmd_main env snap (opts @ [name @ ''.snp'']) os' = scmd_file env snap cs av1 [name @ ''.snp''] os'"
        "scmd_options cs undef False = Some (mode, False)" "mode = undef \<or> mode = uncompress_mode"
      using scmd_restore_line [OF assms(6,7,5)] by blast
    show ?thesis unfolding opt(1)
      using scmd_writes [OF assms(1) scmd_process_uncompresses [OF assms(1,4)] f n(2) opt(2), of name] opt(3) by auto
  qed
  ultimately show ?thesis by blast
qed

definition example_fs :: tool_os where
  "example_fs = \<lparr>tool_files = [''a'' \<mapsto> [7, 7, 7]], tool_stdout = [], tool_stderr = []\<rparr>"

theorem scmd_roundtrip_witness:
  "\<exists>os1. scmd_main example_tools example_env [''-c'', ''a''] example_fs = Inr (0, os1)
    \<and> scmd_main example_tools example_env [''a.snp''] os1 = Inr (0, os1\<lparr>tool_files := (tool_files os1)(''a'' \<mapsto> [7, 7, 7])\<rparr>)"
proof -
  have f: "tool_files example_fs ''a'' = Some [7, 7, 7]" "[7, 7, 7 :: u8] \<noteq> []" "length [7, 7, 7 :: u8] < 2 ^ 31"
    by (simp_all add: example_fs_def)
  from scmd_roundtrip [where os = example_fs and snap = example_env and opts = "[]", OF example_tools_ok f] show ?thesis
    by simp
qed

text \<open>
  With an output file given on the command line \<^verbatim>\<open>scmd\<close> writes it and then passes the argument of the program to \<^verbatim>\<open>free\<close>, since
  \<^verbatim>\<open>open_output\<close> hands the name through: the program ends in undefined behaviour.
\<close>

theorem scmd_frees_argument:
  assumes "tools_ok env" "tool_files os name = Some data" "data \<noteq> []" "length data < 2 ^ 31"
    and "take 1 name \<noteq> ''-''" "take 1 oname \<noteq> ''-''"
  shows "scmd_main env snap [''-c'', name, oname] os = Inl Invalid_access"
proof -
  note ok = tools_okD [OF assms(1)]
  obtain pad where m: "mapfile env (tool_files os) name None = (Some (data @ pad), Some (length data))"
    using mapfile_ok [where sz = None and fs = "tool_files os", OF assms(1-3)] by blast
  obtain buf len where p: "scmd_process env compress_mode snap (data @ pad) (length data) = Inr (Some (0, buf, len))" "len \<le> length buf"
    using scmd_process_compresses [OF assms(1,4)] by blast
  have line: "scmd_main env snap [''-c'', name, oname] os = scmd_file env snap [CHR ''c''] ''-c'' [name, oname] os"
    by (rule scmd_compress_line) (use assms(5,6) in simp)
  show ?thesis unfolding line using m p ok(3) by (simp add: scmd_file_def Let_def open_output_def scmd_write_def mem_simps)
qed

theorem scmd_frees_argument_witness:
  "scmd_main example_tools example_env [''-c'', ''a'', ''b''] example_fs = Inl Invalid_access"
  by (rule scmd_frees_argument [where data = "[7, 7, 7]", OF example_tools_ok]) (simp_all add: example_fs_def)

text \<open>The message about a file that cannot be opened names the first argument of the program instead of the file.\<close>

theorem scmd_names_wrong_file:
  assumes "tool_files os name = None" "take 1 name \<noteq> ''-''"
  shows "scmd_main env snap [''-c'', name] os = Inr (1, os\<lparr>tool_stderr := tool_stderr os @ [Cannot_open ''-c'']\<rparr>)"
proof -
  have line: "scmd_main env snap [''-c'', name] os = scmd_file env snap [CHR ''c''] ''-c'' [name] os"
    by (rule scmd_compress_line) (use assms(2) in simp)
  show ?thesis unfolding line using assms(1) by (simp add: scmd_file_def Let_def mapfile_def mapfile_flag_def)
qed

theorem scmd_names_wrong_file_witness:
  "scmd_main example_tools example_env [''-c'', ''b''] example_fs = Inr (1, example_fs\<lparr>tool_stderr := [Cannot_open ''-c'']\<rparr>)"
  using scmd_names_wrong_file [of example_fs "''b''" example_tools example_env] by (simp add: example_fs_def)

text \<open>
  The result of \<^verbatim>\<open>snappy_uncompressed_length\<close> is overwritten before it is looked at: on a file that does not begin with a length
  \<^verbatim>\<open>scmd\<close> allocates an output of an uninitialised size.
\<close>

lemma scmd_ignores_bad_header:
  assumes "snappy_uncompressed_length mem 0 sz = Inr None"
  shows "scmd_process env uncompress_mode snap mem sz = Inl Uninitialised_read"
  using assms by (simp add: scmd_process_def)

section \<open>Sizes of mappings\<close>

text \<open>The macro \<^verbatim>\<open>roundup\<close> gives the next multiple of a page size, which is a power of two.\<close>

lemma roundup_eq:
  assumes "k < 64" "x + 2 ^ k \<le> 2 ^ 63"
  shows "roundup x (2 ^ k) = (x + 2 ^ k - 1) div 2 ^ k * 2 ^ k"
proof -
  define w where "w = (word_of_nat (x + 2 ^ k - 1) :: u64)"
  have "w = word_of_nat x + word_of_nat (2 ^ k) - 1" unfolding w_def by (subst of_nat_diff) (simp_all add: Suc_leI)
  moreover have "(word_of_nat (2 ^ k) - 1 :: u64) = mask k" by (simp add: mask_eq_decr_exp)
  moreover have "w AND NOT (mask k) = push_bit k (drop_bit k w)"
    by (rule bit_word_eqI) (auto simp: bit_simps)
  ultimately have "roundup x (2 ^ k) = unat (push_bit k (drop_bit k w))" by (simp add: roundup_def)
  also have "\<dots> = take_bit 64 (unat w div 2 ^ k * 2 ^ k)"
    using take_bit_nat_eq_self [OF unsigned_less [of w, where 'a = nat]]
    unfolding unsigned_push_bit_eq unsigned_drop_bit_eq by (simp add: push_bit_eq_mult drop_bit_eq_div)
  also have "\<dots> = unat w div 2 ^ k * 2 ^ k"
  proof -
    have "unat w div 2 ^ k * 2 ^ k \<le> unat w" by (metis div_times_less_eq_dividend)
    also have "\<dots> < 2 ^ 64" using unsigned_less [of w, where 'a = nat] by simp
    finally show ?thesis by (simp add: take_bit_nat_eq_self_iff)
  qed
  also have "unat w = x + 2 ^ k - 1" using assms by (simp add: w_def unat_of_nat take_bit_nat_eq_self_iff)
  finally show ?thesis .
qed

text \<open>
  The mapping of a file covers the file and ends in its last page, for every page size that is a power of two.
\<close>

lemma roundup_bounds:
  assumes "k < 64" "x + 2 ^ k \<le> 2 ^ 63"
  shows "x \<le> roundup x (2 ^ k) \<and> roundup x (2 ^ k) < x + 2 ^ k \<and> 2 ^ k dvd roundup x (2 ^ k)"
proof -
  have "x + 2 ^ k - 1 = roundup x (2 ^ k) + (x + 2 ^ k - 1) mod 2 ^ k" unfolding roundup_eq [OF assms] by (rule div_mult_mod_eq [symmetric])
  moreover have "(x + 2 ^ k - 1) mod 2 ^ k < 2 ^ k" by simp
  moreover have "(1 :: nat) \<le> 2 ^ k" by simp
  ultimately have "x \<le> roundup x (2 ^ k)" "roundup x (2 ^ k) < x + 2 ^ k" by linarith+
  then show ?thesis unfolding roundup_eq [OF assms] by simp
qed

text \<open>What \<^verbatim>\<open>mapfile\<close> has mapped, \<^verbatim>\<open>unmap_file\<close> with the size of the file unmaps, to the last page.\<close>

lemma unmap_releases_mapping:
  assumes "page_size env = 2 ^ k" "k < 64" "mapfile env fs name sz0 = (Some mem, Some sz)" "sz + 2 ^ k \<le> 2 ^ 63"
  shows "unmap_file env sz = length mem \<and> take sz mem = the (fs name)"
  using assms roundup_bounds [OF assms(2,4)]
  by (auto simp: mapfile_def mapfile_flag_def unmap_file_def Let_def split: option.splits if_splits)

end
