(* ===== verification/Snappy_SG_Verify.thy ===== *)
theory Snappy_SG_Verify
  imports Snappy_Tools
begin

text \<open>
  The test program \<^verbatim>\<open>sgverify.c\<close>: it cuts a file and an output buffer into random vectors, compresses once flat and once over
  the vectors, compares the two streams, uncompresses and compares with the file. The results of \<^verbatim>\<open>rand\<close> are an argument, a function of the
  number of calls made before, which the program itself counts in \<^verbatim>\<open>rnd_seq\<close>. The \<^verbatim>\<open>assert\<close>s, which the \<^verbatim>\<open>Makefile\<close>
  turns off, are modelled as checked.
\<close>

section \<open>Helpers\<close>

definition REPEAT :: nat where "REPEAT = 20"
definition N_VECS :: nat where "N_VECS = 5000"

datatype sg_msg = Sg_perror string | Linear_failed string int | Iov_failed string int | Sg_mismatch nat "(nat \<times> u8 \<times> u8) list"
  | Sg_uncompress_failed string int | Sg_comparison_failed string nat nat nat "(nat \<times> u8 \<times> u8) list"

text \<open>\<^verbatim>\<open>malloc\<close>: a null pointer points to no byte at all, so every access through it is a fault.\<close>

definition malloc_block :: "tool_env \<Rightarrow> nat \<Rightarrow> buffer" where
  "malloc_block env n = (case heap_mem env n of None \<Rightarrow> [] | Some b \<Rightarrow> b)"

definition sum_iov :: "iovec list \<Rightarrow> nat \<Rightarrow> nat c_result" where
  "sum_iov vs n = (if n \<le> length vs then Inr (fold (\<lambda>v len. (len + iov_len v) mod 2 ^ 64) (take n vs) 0) else Inl Invalid_access)"

text \<open>The value of \<^verbatim>\<open>rand\<close> and the new \<^verbatim>\<open>rnd_seq\<close>.\<close>

definition rand_seq :: "(nat \<Rightarrow> nat) \<Rightarrow> nat \<Rightarrow> nat \<times> nat" where
  "rand_seq rnd seq = (rnd seq, seq + 1)"

text \<open>The loop of \<^verbatim>\<open>iov_to_buf\<close>, with \<^verbatim>\<open>unsigned offset\<close>.\<close>

fun copy_vecs :: "buffer \<Rightarrow> nat \<Rightarrow> iovec list \<Rightarrow> buffer c_result" where
  "copy_vecs p offset [] = Inr p"
| "copy_vecs p offset (v # vs) =
     cbind (load_bytes (iov_base v) 0 (iov_len v)) (\<lambda>bs.
     cbind (store_bytes p offset bs) (\<lambda>p. copy_vecs p ((offset + iov_len v) mod 2 ^ 32) vs))"

definition iov_to_buf :: "tool_env \<Rightarrow> iovec list \<Rightarrow> nat \<Rightarrow> (buffer \<times> nat) c_result" where
  "iov_to_buf env vs n =
     cbind (sum_iov vs n) (\<lambda>len.
     cbind (copy_vecs (malloc_block env len) 0 (take n vs)) (\<lambda>p. Inr (p, len)))"

text \<open>A \<^verbatim>\<open>size_t\<close> passed as an \<^verbatim>\<open>int\<close>.\<close>

definition as_int :: "nat \<Rightarrow> int" where
  "as_int n = sint (word_of_nat n :: u32)"

definition test_read :: "buffer \<Rightarrow> int \<Rightarrow> unit c_result" where
  "test_read buf len = cbind (load_bytes buf 0 (nat len)) (\<lambda>_. Inr ())"

fun test_read_all :: "iovec list \<Rightarrow> unit c_result" where
  "test_read_all [] = Inr ()"
| "test_read_all (v # vs) = cbind (test_read (iov_base v) (as_int (iov_len v))) (\<lambda>_. test_read_all vs)"

text \<open>The lines printed by \<^verbatim>\<open>print_mismatch\<close>.\<close>

function mismatch_from :: "buffer \<Rightarrow> buffer \<Rightarrow> int \<Rightarrow> nat \<Rightarrow> nat \<Rightarrow> (nat \<times> u8 \<times> u8) list c_result" where
  "mismatch_from a b n j printed =
     (if int j < n then
        cbind (load8 a j) (\<lambda>x. cbind (load8 b j) (\<lambda>y.
          if x \<noteq> y then
            if printed > 10 then Inr [(j, x, y)]
            else cbind (mismatch_from a b n (j + 1) (printed + 1)) (\<lambda>ls. Inr ((j, x, y) # ls))
          else mismatch_from a b n (j + 1) printed))
      else Inr [])"
  by pat_completeness auto
termination
  by (relation "measure (\<lambda>(a, b, n, j, printed). nat (n - int j))") auto

declare mismatch_from.simps [simp del]

definition print_mismatch :: "buffer \<Rightarrow> buffer \<Rightarrow> int \<Rightarrow> (nat \<times> u8 \<times> u8) list c_result" where
  "print_mismatch a b n = mismatch_from a b n 0 0"

section \<open>One round\<close>

text \<open>The loop that cuts the file into vectors, with the last vector behind it.\<close>

function split_in :: "tool_env \<Rightarrow> (nat \<Rightarrow> nat) \<Rightarrow> buffer \<Rightarrow> nat \<Rightarrow> nat \<Rightarrow> iovec list \<Rightarrow> nat \<Rightarrow> (iovec list \<times> nat) c_result" where
  "split_in env rnd mem sz offset iv seq =
     (if sz > 0 \<and> length iv < N_VECS - 1 then
        (case rand_seq rnd seq of (r, seq) \<Rightarrow>
          let len = r mod sz + 1; len = (if len > sz then sz else len) in
          cbind (load_bytes mem offset len) (\<lambda>bs.
          cbind (store_bytes (malloc_block env len) 0 bs) (\<lambda>b.
            split_in env rnd mem (sz - len) (offset + len) (iv @ [\<lparr>iov_base = b, iov_len = len\<rparr>]) seq)))
      else Inr (iv @ [\<lparr>iov_base = malloc_block env sz, iov_len = sz\<rparr>], seq))"
  by pat_completeness auto
termination
  by (relation "measure (\<lambda>(env, rnd, mem, sz, offset, iv, seq). sz)") (auto simp: rand_seq_def)

declare split_in.simps [simp del]

function split_out :: "tool_env \<Rightarrow> (nat \<Rightarrow> nat) \<Rightarrow> nat \<Rightarrow> iovec list \<Rightarrow> nat \<Rightarrow> iovec list \<times> nat" where
  "split_out env rnd sz ov seq =
     (if sz > 0 \<and> length ov < N_VECS - 1 then
        (case rand_seq rnd seq of (r, seq) \<Rightarrow>
          let len = r mod sz + 1; len = (if len > sz then sz else len) in
          split_out env rnd (sz - len) (ov @ [\<lparr>iov_base = malloc_block env len, iov_len = len\<rparr>]) seq)
      else (ov @ [\<lparr>iov_base = malloc_block env sz, iov_len = sz\<rparr>], seq))"
  by pat_completeness auto
termination
  by (relation "measure (\<lambda>(env, rnd, sz, ov, seq). sz)") (auto simp: rand_seq_def)

declare split_out.simps [simp del]

text \<open>The loop that compares the vectors with the flat stream, whole vectors at a time.\<close>

fun compare_vecs :: "iovec list \<Rightarrow> buffer \<Rightarrow> nat \<Rightarrow> nat \<Rightarrow> sg_msg list c_result" where
  "compare_vecs [] linear offset w = Inr []"
| "compare_vecs (v # vs) linear offset w =
     cbind (load_bytes (iov_base v) 0 (iov_len v)) (\<lambda>x.
     cbind (load_bytes linear offset (iov_len v)) (\<lambda>y.
       if x \<noteq> y then
         cbind (print_mismatch (iov_base v) (drop offset linear) (as_int (iov_len v))) (\<lambda>ls. Inr [Sg_mismatch w ls])
       else compare_vecs vs linear (offset + iov_len v) (w + 1)))"

record sg_state =
  sg_snap :: snappy_env
  rnd_seq :: nat
  sg_msgs :: "sg_msg list"
  leaked :: nat \<comment> \<open>blocks that are not released: the loop at the end of a round releases as many output vectors as the compressor reported\<close>

definition sg_round :: "tool_env \<Rightarrow> (nat \<Rightarrow> nat) \<Rightarrow> string \<Rightarrow> buffer \<Rightarrow> nat \<Rightarrow> sg_state \<Rightarrow> sg_state c_result" where
  "sg_round env rnd name mem st_size s =
    (let rnd_seq_start = rnd_seq s in
     cbind (split_in env rnd mem st_size 0 [] (rnd_seq s)) (\<lambda>(ins, seq).
     cbind (test_read_all ins) (\<lambda>_.
     cbind (sum_iov ins (length ins)) (\<lambda>n.
     cbind (cassert (n = st_size)) (\<lambda>_.
     case split_out env rnd (snappy_max_compressed_length st_size) [] seq of (outs, seq) \<Rightarrow>
     cbind (sum_iov outs (length outs)) (\<lambda>n.
     cbind (cassert (n = snappy_max_compressed_length st_size)) (\<lambda>_.
     cbind (snappy_compress_sg (sg_snap s) mem st_size (malloc_block env (snappy_max_compressed_length st_size)))
       (\<lambda>(err, snap, out_linear, outlen_linear).
     let m1 = (if err < 0 then [Linear_failed name err] else []) in
     cbind (snappy_compress_iov snap ins (length ins) st_size outs (length outs)) (\<lambda>(err, snap, vs, ov, outlen).
     let m2 = (if err < 0 then [Iov_failed name err] else []) in
     cbind (cassert (outlen = outlen_linear)) (\<lambda>_.
     cbind (compare_vecs (take ov vs) out_linear 0 0) (\<lambda>m3.
     cbind (snappy_uncompress_iov False (stack_scratch env) (take ov vs) ov outlen (malloc_block env st_size)) (\<lambda>(err, obuf).
     let m4 = (if err < 0 then [Sg_uncompress_failed name err] else []) in
     cbind (memcmp_differs obuf mem st_size) (\<lambda>differs.
     cbind (if differs then
              cbind (print_mismatch obuf mem (as_int st_size)) (\<lambda>ls. Inr [Sg_comparison_failed name outlen st_size rnd_seq_start ls])
            else Inr []) (\<lambda>m5.
       Inr \<lparr>sg_snap = snap, rnd_seq = seq, sg_msgs = sg_msgs s @ m1 @ m2 @ m3 @ m4 @ m5,
            leaked = leaked s + (length outs - ov)\<rparr>))))))))))))))"

fun sg_rounds :: "tool_env \<Rightarrow> (nat \<Rightarrow> nat) \<Rightarrow> string \<Rightarrow> buffer \<Rightarrow> nat \<Rightarrow> nat \<Rightarrow> sg_state \<Rightarrow> sg_state c_result" where
  "sg_rounds env rnd name mem st_size 0 s = Inr s"
| "sg_rounds env rnd name mem st_size (Suc k) s =
     cbind (sg_round env rnd name mem st_size s) (\<lambda>s. sg_rounds env rnd name mem st_size k s)"

fun sg_files :: "tool_env \<Rightarrow> (nat \<Rightarrow> nat) \<Rightarrow> (string \<rightharpoonup> buffer) \<Rightarrow> string list \<Rightarrow> sg_state \<Rightarrow> sg_state c_result" where
  "sg_files env rnd fs [] s = Inr s"
| "sg_files env rnd fs (name # names) s =
     (case mapfile env fs name None of
        (Some mem, Some st_size) \<Rightarrow>
          cbind (sg_rounds env rnd name mem st_size REPEAT s) (\<lambda>s. sg_files env rnd fs names s)
      | _ \<Rightarrow> sg_files env rnd fs names (s\<lparr>sg_msgs := sg_msgs s @ [Sg_perror name]\<rparr>))"

definition sgverify_main :: "tool_env \<Rightarrow> (nat \<Rightarrow> nat) \<Rightarrow> (string \<rightharpoonup> buffer) \<Rightarrow> snappy_env \<Rightarrow> string list \<Rightarrow> (int \<times> sg_state) c_result" where
  "sgverify_main env rnd fs snap av =
    (let snap = snd (snappy_init_env_sg (env_table env) (heap_mem env kblock_size)
           (heap_mem env (snappy_max_compressed_length kblock_size)) snap True) in
     cbind (sg_files env rnd fs av \<lparr>sg_snap = snap, rnd_seq = 0, sg_msgs = [], leaked = 0\<rparr>) (\<lambda>s. Inr (0, s)))"

section \<open>Cutting into vectors\<close>

text \<open>The lengths the loops choose: at most \<open>k\<close> of them.\<close>

fun cut_lens :: "(nat \<Rightarrow> nat) \<Rightarrow> nat \<Rightarrow> nat \<Rightarrow> nat \<Rightarrow> nat list" where
  "cut_lens rnd 0 sz seq = []"
| "cut_lens rnd (Suc k) sz seq =
     (if sz = 0 then [] else let len = rnd seq mod sz + 1 in len # cut_lens rnd k (sz - len) (seq + 1))"

lemma cut_lens_0 [simp]: "cut_lens rnd k 0 seq = []"
  by (cases k) simp_all

lemma rand_len: "0 < sz \<Longrightarrow> (if r mod sz + 1 > sz then sz else r mod sz + 1) = r mod sz + (1 :: nat) \<and> r mod sz + 1 \<le> sz"
  using mod_less_divisor [of sz r] by (simp add: Suc_le_eq not_less)

lemma sum_cut_le: "sum_list (cut_lens rnd k sz seq) \<le> sz \<and> (\<forall>len \<in> set (cut_lens rnd k sz seq). 0 < len)"
proof (induction rnd k sz seq rule: cut_lens.induct)
  case (2 rnd k sz seq)
  then show ?case using rand_len [of sz "rnd seq"] by (auto simp: Let_def)
qed simp

text \<open>Enough vectors: every one takes at least one byte.\<close>

lemma sum_cut: "sz \<le> k \<Longrightarrow> sum_list (cut_lens rnd k sz seq) = sz"
proof (induction rnd k sz seq rule: cut_lens.induct)
  case (2 rnd k sz seq)
  then show ?case using rand_len [of sz "rnd seq"] by (auto simp: Let_def)
qed simp

lemma length_malloc_block: "tools_ok env \<Longrightarrow> length (malloc_block env n) = n"
  using tools_okD(6) [of env n] by (auto simp: malloc_block_def)

definition exact :: "iovec \<Rightarrow> bool" where
  "exact v \<longleftrightarrow> length (iov_base v) = iov_len v"

lemma exact_bytes: "exact v \<Longrightarrow> iov_bytes v = iov_base v"
  by (simp add: exact_def iov_bytes_def)

lemma split_in_ok:
  assumes "tools_ok env" "offset + sz \<le> length mem"
  shows "let ls = cut_lens rnd (N_VECS - 1 - length iv) sz seq in \<exists>vs. split_in env rnd mem sz offset iv seq = Inr (iv @ vs, seq + length ls)
    \<and> map iov_len vs = ls @ [sz - sum_list ls] \<and> (\<forall>v \<in> set vs. exact v) \<and> bytes_of (butlast vs) = take (sum_list ls) (drop offset mem)"
  using assms(2) unfolding Let_def
proof (induction "N_VECS - 1 - length iv" arbitrary: sz offset iv seq)
  case 0
  then have "\<not> length iv < N_VECS - 1" by simp
  then show ?case
    using length_malloc_block [OF assms(1)] by (subst split_in.simps) (simp add: exact_def flip: "0.hyps")
next
  case (Suc k)
  show ?case
  proof (cases "sz = 0")
    case True
    then show ?thesis
      using length_malloc_block [OF assms(1)] by (subst split_in.simps) (simp add: exact_def flip: Suc.hyps(2))
  next
    case False
    define len where "len = rnd seq mod sz + 1"
    have len: "\<not> sz < Suc (rnd seq mod sz)" "len \<le> sz" and lt: "length iv < N_VECS - 1"
      using False rand_len [of sz "rnd seq"] Suc.hyps(2) by (simp_all add: len_def)
    define b where "b = take len (drop offset mem)"
    have lb: "length b = len" using Suc.prems len(2) by (simp add: b_def)
    have mem: "load_bytes mem offset len = Inr b" "store_bytes (malloc_block env len) 0 b = Inr b"
      using Suc.prems len(2) lb length_malloc_block [OF assms(1), of len] by (simp_all add: mem_simps b_def)
    let ?iv = "iv @ [\<lparr>iov_base = b, iov_len = len\<rparr>]"
    have k: "k = N_VECS - 1 - length ?iv" using Suc.hyps(2) by simp
    have eq: "split_in env rnd mem sz offset iv seq = split_in env rnd mem (sz - len) (offset + len) ?iv (seq + 1)"
      using False lt mem len(1) by (subst split_in.simps) (simp add: rand_seq_def len_def)
    have cut: "cut_lens rnd (N_VECS - 1 - length iv) sz seq = len # cut_lens rnd k (sz - len) (seq + 1)"
      unfolding Suc.hyps(2) [symmetric] using False by (simp add: len_def)
    obtain vs where ih: "split_in env rnd mem (sz - len) (offset + len) ?iv (seq + 1) =
          Inr (?iv @ vs, seq + 1 + length (cut_lens rnd k (sz - len) (seq + 1)))"
        "map iov_len vs = cut_lens rnd k (sz - len) (seq + 1) @ [sz - len - sum_list (cut_lens rnd k (sz - len) (seq + 1))]"
        "\<forall>v \<in> set vs. exact v"
        "bytes_of (butlast vs) = take (sum_list (cut_lens rnd k (sz - len) (seq + 1))) (drop (offset + len) mem)"
      using Suc.hyps(1) [OF k, of "offset + len" "sz - len" "seq + 1"] Suc.prems len(2) unfolding k by auto
    have ne: "vs \<noteq> []" using ih(2) by auto
    show ?thesis
      unfolding eq ih(1) cut
      by (intro exI [of _ "\<lparr>iov_base = b, iov_len = len\<rparr> # vs"])
        (use ih(2-4) ne lb in \<open>auto simp: exact_def iov_bytes_def b_def take_add add.commute\<close>)
  qed
qed

lemma split_out_ok:
  assumes "tools_ok env"
  shows "let ls = cut_lens rnd (N_VECS - 1 - length ov) sz seq in \<exists>vs. split_out env rnd sz ov seq = (ov @ vs, seq + length ls)
    \<and> map iov_len vs = ls @ [sz - sum_list ls] \<and> (\<forall>v \<in> set vs. exact v)"
  unfolding Let_def
proof (induction "N_VECS - 1 - length ov" arbitrary: sz ov seq)
  case 0
  then have "\<not> length ov < N_VECS - 1" by simp
  then show ?case
    using length_malloc_block [OF assms(1)] by (subst split_out.simps) (simp add: exact_def flip: "0.hyps")
next
  case (Suc k)
  show ?case
  proof (cases "sz = 0")
    case True
    then show ?thesis
      using length_malloc_block [OF assms(1)] by (subst split_out.simps) (simp add: exact_def flip: Suc.hyps(2))
  next
    case False
    define len where "len = rnd seq mod sz + 1"
    have len: "\<not> sz < Suc (rnd seq mod sz)" and lt: "length ov < N_VECS - 1"
      using False rand_len [of sz "rnd seq"] Suc.hyps(2) by simp_all
    let ?v = "\<lparr>iov_base = malloc_block env len, iov_len = len\<rparr>"
    have k: "k = N_VECS - 1 - length (ov @ [?v])" using Suc.hyps(2) by simp
    have eq: "split_out env rnd sz ov seq = split_out env rnd (sz - len) (ov @ [?v]) (seq + 1)"
      using False lt len by (subst split_out.simps) (simp add: rand_seq_def len_def)
    have cut: "cut_lens rnd (N_VECS - 1 - length ov) sz seq = len # cut_lens rnd k (sz - len) (seq + 1)"
      unfolding Suc.hyps(2) [symmetric] using False by (simp add: len_def)
    obtain vs where ih: "split_out env rnd (sz - len) (ov @ [?v]) (seq + 1) =
          ((ov @ [?v]) @ vs, seq + 1 + length (cut_lens rnd k (sz - len) (seq + 1)))"
        "map iov_len vs = cut_lens rnd k (sz - len) (seq + 1) @ [sz - len - sum_list (cut_lens rnd k (sz - len) (seq + 1))]"
        "\<forall>v \<in> set vs. exact v"
      using Suc.hyps(1) [OF k, of "sz - len" "seq + 1"] unfolding k by auto
    show ?thesis
      unfolding eq ih(1) cut
      by (intro exI [of _ "?v # vs"])
        (use ih(2,3) length_malloc_block [OF assms(1)] in \<open>auto simp: exact_def\<close>)
  qed
qed

lemma sum_iov_ok:
  assumes "sum_list (map iov_len vs) < 2 ^ 64"
  shows "sum_iov vs (length vs) = Inr (sum_list (map iov_len vs))"
proof -
  have "a + sum_list (map iov_len vs) < 2 ^ 64 \<Longrightarrow>
      fold (\<lambda>v len. (len + iov_len v) mod 2 ^ 64) vs a = a + sum_list (map iov_len vs)" for a
    by (induction vs arbitrary: a) simp_all
  from this [of 0] show ?thesis using assms by (simp add: sum_iov_def)
qed

lemma length_bytes_exact: "\<forall>v \<in> set vs. exact v \<Longrightarrow> length (bytes_of vs) = sum_list (map iov_len vs)"
  by (induction vs) (simp_all add: exact_bytes exact_def)

text \<open>The vectors of a cut: only the last may be empty.\<close>

lemma cut_vecs_in:
  assumes "map iov_len vs = ls @ [l]" "\<forall>v \<in> set vs. exact v" "\<forall>len \<in> set ls. 0 < len"
  shows "vecs_in vs"
proof -
  have len: "length vs = Suc (length ls)" using arg_cong [OF assms(1), of length] by simp
  have nth: "iov_len (vs ! i) = (ls @ [l]) ! i" if "i < length vs" for i using that assms(1) by (metis nth_map)
  have "empties_last vs"
  proof (unfold empties_last_def, intro allI impI)
    fix i j
    assume ij: "i \<le> j" "j < length vs" and z: "iov_len (vs ! i) = 0"
    have "\<not> i < length ls"
    proof
      assume "i < length ls"
      then have "iov_len (vs ! i) \<in> set ls" using nth [of i] len by (simp add: nth_append)
      then show False using z assms(3) by auto
    qed
    then have "j = i" using ij len by linarith
    then show "iov_len (vs ! j) = 0" using z by simp
  qed
  then show ?thesis using assms(2) len by (auto simp: vecs_in_def exact_def)
qed

lemma cut_vecs_ok:
  assumes "\<forall>v \<in> set vs. exact v" "length (bytes_of vs) < 2 ^ 32"
  shows "vecs_ok vs"
proof -
  have "iov_len v \<le> length (bytes_of vs)" if "v \<in> set vs" for v
    using that assms(1) member_le_sum_list [of "iov_len v" "map iov_len vs"] by (simp add: length_bytes_exact)
  then show ?thesis using assms by (fastforce simp: vecs_ok_def exact_def dest: in_set_butlastD)
qed

text \<open>The input vectors hold the file, provided that there are enough of them.\<close>

definition cut_up :: "(nat \<Rightarrow> nat) \<Rightarrow> nat \<Rightarrow> nat \<Rightarrow> bool" where
  "cut_up rnd sz seq \<longleftrightarrow> sum_list (cut_lens rnd (N_VECS - 1) sz seq) = sz"

lemma split_in_file:
  assumes "tools_ok env" "cut_up rnd (length data) seq"
  shows "\<exists>vs seq'. split_in env rnd (data @ pad) (length data) 0 [] seq = Inr (vs, seq') \<and> vecs_in vs \<and> bytes_of vs = data
    \<and> (\<forall>v \<in> set vs. exact v) \<and> seq' = seq + length (cut_lens rnd (N_VECS - 1) (length data) seq)"
proof -
  let ?ls = "cut_lens rnd (N_VECS - 1) (length data) seq"
  obtain vs where v: "split_in env rnd (data @ pad) (length data) 0 [] seq = Inr (vs, seq + length ?ls)"
      "map iov_len vs = ?ls @ [length data - sum_list ?ls]" "\<forall>v \<in> set vs. exact v" "bytes_of (butlast vs) = take (sum_list ?ls) (data @ pad)"
    using split_in_ok [OF assms(1), of 0 "length data" "data @ pad" rnd "[]" seq] by (auto simp: Let_def)
  have s: "sum_list ?ls = length data" using assms(2) by (simp add: cut_up_def)
  have vl: "vs = butlast vs @ [last vs]" using v(2) by (cases vs rule: rev_cases) auto
  have "iov_len (last vs) = 0" using v(2) s vl by (metis append_butlast_last_id append_is_Nil_conv diff_self_eq_0 last_map last_snoc list.distinct(1) map_is_Nil_conv)
  then have "bytes_of vs = bytes_of (butlast vs)" by (subst vl) (simp add: iov_bytes_def)
  then have "bytes_of vs = data" using v(4) s by simp
  moreover have "vecs_in vs" using cut_vecs_in [OF v(2,3)] sum_cut_le [of rnd "N_VECS - 1" "length data" seq] by blast
  ultimately show ?thesis using v(1,3) by blast
qed

lemma split_out_room:
  assumes "tools_ok env" "sz < 2 ^ 32"
  shows "\<exists>vs. split_out env rnd sz [] seq = (vs, seq + length (cut_lens rnd (N_VECS - 1) sz seq)) \<and> vecs_in vs \<and> vecs_ok vs
    \<and> length (bytes_of vs) = sz \<and> sum_list (map iov_len vs) = sz \<and> (\<forall>v \<in> set vs. exact v)
    \<and> map iov_len (butlast vs) = cut_lens rnd (N_VECS - 1) sz seq \<and> (cut_up rnd sz seq \<longrightarrow> length (bytes_of (butlast vs)) = sz)"
proof -
  let ?ls = "cut_lens rnd (N_VECS - 1) sz seq"
  obtain vs where v: "split_out env rnd sz [] seq = (vs, seq + length ?ls)" "map iov_len vs = ?ls @ [sz - sum_list ?ls]"
      "\<forall>v \<in> set vs. exact v"
    using split_out_ok [OF assms(1), of rnd "[]" sz seq] by (auto simp: Let_def)
  have le: "sum_list ?ls \<le> sz" "\<forall>len \<in> set ?ls. 0 < len" using sum_cut_le by blast+
  have sum: "sum_list (map iov_len vs) = sz" using le(1) unfolding v(2) by simp
  then have len: "length (bytes_of vs) = sz" using length_bytes_exact [OF v(3)] by simp
  have bl: "map iov_len (butlast vs) = ?ls" using v(2) by (simp add: map_butlast)
  then have "length (bytes_of (butlast vs)) = sum_list ?ls" using length_bytes_exact [of "butlast vs"] v(3) in_set_butlastD by metis
  then show ?thesis
    using v(1,3) len sum bl cut_vecs_in [OF v(2,3) le(2)] cut_vecs_ok [OF v(3)] assms(2) by (auto simp: cut_up_def)
qed

text \<open>
  A file that needs more vectors than there are: the last vector has the right length, but nothing has been copied into it, so that the compressor gets
  memory that has not been initialised.
\<close>

lemma split_in_runs_out:
  assumes "tools_ok env" and k_def: "k = sum_list (cut_lens rnd (N_VECS - 1) (length data) seq)"
  shows "\<exists>vs seq' junk. split_in env rnd (data @ pad) (length data) 0 [] seq = Inr (vs, seq') \<and> bytes_of vs = take k data @ junk
    \<and> length junk = length data - k"
proof -
  have le: "k \<le> length data" using sum_cut_le by (simp add: k_def)
  obtain vs seq' where v: "split_in env rnd (data @ pad) (length data) 0 [] seq = Inr (vs, seq')"
      "map iov_len vs = cut_lens rnd (N_VECS - 1) (length data) seq @ [length data - k]" "\<forall>v \<in> set vs. exact v"
      "bytes_of (butlast vs) = take k (data @ pad)"
    using split_in_ok [OF assms(1), of 0 "length data" "data @ pad" rnd "[]" seq] by (auto simp: Let_def k_def)
  have ne: "vs \<noteq> []" using v(2) by auto
  then have "bytes_of vs = bytes_of (butlast vs @ [last vs])" by simp
  also have "\<dots> = bytes_of (butlast vs) @ iov_bytes (last vs)" by (simp del: append_butlast_last_id)
  finally have "bytes_of vs = take k data @ iov_base (last vs)" using v(3,4) ne le by (simp add: exact_bytes)
  moreover have "iov_len (last vs) = length data - k" using v(2) ne by (metis last_map last_snoc)
  then have "length (iov_base (last vs)) = length data - k" using v(3) ne by (simp add: exact_def)
  ultimately show ?thesis using v(1) by blast
qed

text \<open>The helper \<^verbatim>\<open>iov_to_buf\<close>, which no test calls: the concatenation of the vectors.\<close>

lemma iov_to_buf_ok:
  assumes "tools_ok env" "\<forall>v \<in> set vs. exact v" "sum_list (map iov_len vs) < 2 ^ 32"
  shows "iov_to_buf env vs (length vs) = Inr (bytes_of vs, length (bytes_of vs))"
proof -
  have copy: "offset + sum_list (map iov_len us) = length p \<Longrightarrow> length p < 2 ^ 32 \<Longrightarrow> \<forall>v \<in> set us. exact v \<Longrightarrow>
      copy_vecs p offset us = Inr (take offset p @ bytes_of us)" for offset p us
  proof (induction us arbitrary: offset p)
    case (Cons v us)
    define p' where "p' = take offset p @ iov_base v @ drop (offset + iov_len v) p"
    have v: "length (iov_base v) = iov_len v" "iov_bytes v = iov_base v" using Cons.prems(3) by (simp_all add: exact_def exact_bytes)
    have "copy_vecs p offset (v # us) = copy_vecs p' (offset + iov_len v) us"
      using Cons.prems(1,2) v(1) by (simp add: mem_simps p'_def)
    also have "\<dots> = Inr (take (offset + iov_len v) p' @ bytes_of us)"
      using Cons.prems v(1) by (intro Cons.IH) (simp_all add: p'_def)
    also have "take (offset + iov_len v) p' = take offset p @ iov_base v" using Cons.prems(1) v(1) by (simp add: p'_def)
    finally show ?case using v(2) by simp
  qed simp
  show ?thesis
    using copy [of 0 vs "malloc_block env (sum_list (map iov_len vs))"] length_malloc_block [OF assms(1)] assms(2,3)
    by (simp add: iov_to_buf_def sum_iov_ok length_bytes_exact)
qed

section \<open>Rounds\<close>

lemma mismatch_ok:
  assumes "n \<le> int (length a)" "n \<le> int (length b)"
  shows "\<exists>ls. mismatch_from a b n j printed = Inr ls"
  using assms
proof (induction a b n j printed rule: mismatch_from.induct)
  case (1 a b n j printed)
  show ?case
  proof (cases "int j < n")
    case True
    then have ld: "load8 a j = Inr (a ! j)" "load8 b j = Inr (b ! j)" using "1.prems" by (simp_all add: mem_simps)
    obtain ls1 ls2 where "printed \<le> 10 \<Longrightarrow> a ! j \<noteq> b ! j \<Longrightarrow> mismatch_from a b n (j + 1) (printed + 1) = Inr ls1"
        "a ! j = b ! j \<Longrightarrow> mismatch_from a b n (j + 1) printed = Inr ls2"
      using 1 True ld by (metis not_less)
    then show ?thesis using True ld by (subst mismatch_from.simps) (auto simp: not_less)
  qed (simp add: mismatch_from.simps)
qed

text \<open>At most twelve lines are printed, one for each of the first places that differ.\<close>

lemma mismatch_lines:
  assumes "mismatch_from a b n j printed = Inr ls" "printed \<le> 11"
  shows "length ls + printed \<le> 12" "\<forall>(i, x, y) \<in> set ls. x \<noteq> y \<and> load8 a i = Inr x \<and> load8 b i = Inr y"
proof -
  have "length ls + printed \<le> 12 \<and> (\<forall>(i, x, y) \<in> set ls. x \<noteq> y \<and> load8 a i = Inr x \<and> load8 b i = Inr y)"
    using assms
  proof (induction a b n j printed arbitrary: ls rule: mismatch_from.induct)
    case (1 a b n j printed)
    show ?case
      using "1.prems" "1.IH" unfolding mismatch_from.simps [of a b n j printed]
      by (fastforce simp: cbind_eq_Inr_conv split: if_splits)
  qed
  then show "length ls + printed \<le> 12" "\<forall>(i, x, y) \<in> set ls. x \<noteq> y \<and> load8 a i = Inr x \<and> load8 b i = Inr y" by simp_all
qed

lemma as_int_le: "n < 2 ^ 32 \<Longrightarrow> as_int n \<le> int n"
  using sint_u32_le [of "int n"] by (simp add: as_int_def)

lemma test_read_all_ok: "\<forall>v \<in> set vs. exact v \<and> iov_len v < 2 ^ 32 \<Longrightarrow> test_read_all vs = Inr ()"
  by (induction vs) (use as_int_le in \<open>auto simp: test_read_def exact_def mem_simps nat_le_iff\<close>)

text \<open>The comparison of the two streams stays inside both and at most one vector is reported.\<close>

lemma compare_vecs_ok:
  assumes "\<forall>v \<in> set vs. exact v \<and> iov_len v < 2 ^ 32" "offset + sum_list (map iov_len vs) \<le> length linear"
  shows "\<exists>ms. compare_vecs vs linear offset w = Inr ms \<and> (\<forall>m \<in> set ms. \<exists>w ls. m = Sg_mismatch w ls)
    \<and> (bytes_of vs = take (length (bytes_of vs)) (drop offset linear) \<longrightarrow> ms = [])"
  using assms
proof (induction vs arbitrary: offset w)
  case (Cons v vs)
  have v: "exact v" "iov_len v < 2 ^ 32" "offset + iov_len v \<le> length linear" using Cons.prems by simp_all
  have ld: "load_bytes (iov_base v) 0 (iov_len v) = Inr (iov_base v)"
    "load_bytes linear offset (iov_len v) = Inr (take (iov_len v) (drop offset linear))"
    using v by (simp_all add: mem_simps exact_def)
  show ?case
  proof (cases "iov_base v = take (iov_len v) (drop offset linear)")
    case True
    have len: "length (iov_base v) = iov_len v" using v(1) by (simp add: exact_def)
    show ?thesis
      using Cons.IH [of "offset + iov_len v" "w + 1"] Cons.prems ld True len v(1)
      by (auto simp: exact_bytes take_add add.commute)
  next
    case False
    have "\<exists>ls. print_mismatch (iov_base v) (drop offset linear) (as_int (iov_len v)) = Inr ls"
      unfolding print_mismatch_def using as_int_le [OF v(2)] v by (intro mismatch_ok) (auto simp: exact_def)
    moreover have "length (take (iov_len v) (drop offset linear)) = iov_len v" using v(3) by simp
    ultimately show ?thesis
      using False ld v(1) by (auto simp: exact_bytes exact_def take_add append_eq_append_conv simp del: length_take)
  qed
qed simp

text \<open>
  When the vectors and the flat stream agree on the first \<open>l\<close> bytes, which end in the last vector, only that vector can be
  reported, and only bytes behind the \<open>l\<close>.
\<close>

lemma compare_vecs_behind:
  assumes "\<forall>v \<in> set vs. exact v \<and> iov_len v < 2 ^ 32" "offset + sum_list (map iov_len vs) \<le> length linear"
    and "take l (bytes_of vs) = take l (drop offset linear)" "length (bytes_of (butlast vs)) \<le> l" "vs \<noteq> []"
    and "compare_vecs vs linear offset w = Inr ms"
  shows "ms = [] \<or> (\<exists>ls. ms = [Sg_mismatch (w + length vs - 1) ls] \<and> l < length (bytes_of vs)
    \<and> (\<forall>(j, x, y) \<in> set ls. x \<noteq> y \<and> l \<le> length (bytes_of (butlast vs)) + j))"
  using assms
proof (induction vs arbitrary: offset w l)
  case (Cons v vs)
  have v: "exact v" "iov_len v < 2 ^ 32" "offset + iov_len v \<le> length linear" "length (iov_base v) = iov_len v"
    using Cons.prems(1,2) by (simp_all add: exact_def)
  have ld: "load_bytes (iov_base v) 0 (iov_len v) = Inr (iov_base v)"
    "load_bytes linear offset (iov_len v) = Inr (take (iov_len v) (drop offset linear))"
    using v by (simp_all add: mem_simps)
  note pre = Cons.prems(3) [unfolded list.map concat.simps exact_bytes [OF v(1)]]
  show ?case
  proof (cases "vs = []")
    case False
    then have l: "iov_len v \<le> l" "length (bytes_of (butlast vs)) \<le> l - iov_len v"
      using Cons.prems(4) v by (simp_all add: exact_bytes)
    have eq: "iov_base v = take (iov_len v) (drop offset linear)"
      using arg_cong [OF pre, of "take (iov_len v)"] l(1) v(4) by (simp add: min_absorb1)
    have "take (l - iov_len v) (bytes_of vs) = take (l - iov_len v) (drop (offset + iov_len v) linear)"
      using arg_cong [OF pre, of "drop (iov_len v)"] l(1) v(4) by (simp add: drop_take add.commute)
    moreover have "compare_vecs vs linear (offset + iov_len v) (w + 1) = Inr ms"
      using Cons.prems(6) ld eq by simp
    ultimately have "ms = [] \<or> (\<exists>ls. ms = [Sg_mismatch (w + 1 + length vs - 1) ls] \<and> l - iov_len v < length (bytes_of vs)
        \<and> (\<forall>(j, x, y) \<in> set ls. x \<noteq> y \<and> l - iov_len v \<le> length (bytes_of (butlast vs)) + j))"
      using Cons.prems(1,2) False l(2) by (intro Cons.IH) simp_all
    then show ?thesis using False l(1) v by (fastforce simp: exact_bytes)
  next
    case True
    show ?thesis
    proof (cases "iov_base v = take (iov_len v) (drop offset linear)")
      case True
      then show ?thesis using Cons.prems(6) ld \<open>vs = []\<close> by simp
    next
      case False
      then obtain ls where ls: "print_mismatch (iov_base v) (drop offset linear) (as_int (iov_len v)) = Inr ls" "ms = [Sg_mismatch w ls]"
        using Cons.prems(6) ld True by (auto simp: cbind_eq_Inr_conv)
      have short: "l < iov_len v"
      proof (rule ccontr)
        assume "\<not> l < iov_len v"
        then have "iov_base v = take (iov_len v) (drop offset linear)"
          using arg_cong [OF pre, of "take (iov_len v)"] v(4) by (simp add: min_absorb1)
        then show False using False by simp
      qed
      have "x \<noteq> y \<and> l \<le> j" if m: "(j, x, y) \<in> set ls" for j x y
      proof -
        have d: "x \<noteq> y" "load8 (iov_base v) j = Inr x" "load8 (drop offset linear) j = Inr y"
          using mismatch_lines(2) [OF ls(1) [unfolded print_mismatch_def]] m by auto
        have "x = y" if "j < l"
          using d(2,3) that arg_cong [OF pre, of "\<lambda>xs. xs ! j"] v short by (auto simp: mem_simps nth_append split: if_splits)
        then show ?thesis using d(1) by (meson not_less)
      qed
      then show ?thesis using ls(2) short True v by (auto simp: exact_bytes)
    qed
  qed
qed simp

text \<open>Uncompressing the vectors the compressor reported restores the file, whatever the answer is.\<close>

lemma uncompress_reported:
  assumes "map sizes vs = map sizes outs" "vecs_in outs" "length (bytes_of outs) < 2 ^ 32" "0 < ov" "ov \<le> length vs"
    and "len \<le> length (bytes_of (take ov vs))" "take len (bytes_of vs) = snappy_stream data" "length data < 2 ^ 31"
    and "length scratch0 = 5" "length out = length data" "small_vecs outs"
  shows "\<exists>err. snappy_uncompress_iov False scratch0 (take ov vs) ov len out = Inr (err, data) \<and> err \<in> {0, - EIO}"
proof -
  note r = reported_vectors [OF assms(1-6,11)]
  let ?bs = "bytes_of (take ov vs)"
  have bs: "?bs = snappy_stream data @ drop len ?bs" using r(4) assms(7) by simp
  have a: "announced ?bs \<le> length out" using assms(8,10) by (subst bs) (simp add: announced_reference)
  have d: "decoded_part ?bs = data" using assms(8) by (subst bs) (simp add: decoded_part_reference)
  have ov: "length (take ov vs) = ov" using assms(5) by simp
  show ?thesis
  proof (cases "snappy_decode ?bs")
    case None
    then show ?thesis
      using uncompress_iov_cases(1) [OF r(1,5,2) assms(9) a, of False len] d assms(10) unfolding ov by auto
  next
    case (Some out1)
    then have "out1 = data" using decoded_part_decode d by simp
    then show ?thesis
      using uncompress_iov_cases(2) [OF r(1,5,2) assms(9) a, of out1 False len] Some assms(10) unfolding ov by auto
  qed
qed

lemma map_sizes_eq:
  assumes "map sizes vs = map sizes ws"
  shows "map iov_len vs = map iov_len ws" "map vec_room vs = map vec_room ws"
  using arg_cong [OF assms, of "map fst"] arg_cong [OF assms, of "map (\<lambda>(a, b). min a b)"]
  by (simp_all add: sizes_def vec_room_def [abs_def] o_def)

lemma stream_shorter: "length (snappy_stream xs) < snappy_max_compressed_length (length xs)"
proof -
  have "5 + total_bound (length xs) < snappy_max_compressed_length (length xs)"
    by (simp add: total_bound_def snappy_max_compressed_length_def)
  then show ?thesis
    using stream_elements_ok [of xs] length_varint_bytes [of "word_of_nat (length xs)"] by (simp add: snappy_stream_def kmax32_def)
qed

text \<open>
  What \<^verbatim>\<open>sgverify\<close> says about a file although nothing is wrong with the library: the decompressor rejects the bytes behind the stream,
  and the vector \<open>w\<close> in which the stream ends differs from the flat stream, in bytes behind its end. \<open>lens\<close> are the
  lengths that a round drew for the output vectors.
\<close>

definition behind_stream :: "(nat \<Rightarrow> nat) \<Rightarrow> buffer \<Rightarrow> nat \<Rightarrow> nat \<Rightarrow> (nat \<times> u8 \<times> u8) list \<Rightarrow> bool" where
  "behind_stream rnd data seq w ls =
    (let lens = cut_lens rnd (N_VECS - 1) (snappy_max_compressed_length (length data)) seq; l = length (snappy_stream data) in
     w < length lens \<and> sum_list (take w lens) \<le> l \<and> l < sum_list (take (Suc w) lens)
     \<and> (\<forall>(j, x, y) \<in> set ls. x \<noteq> y \<and> l \<le> sum_list (take w lens) + j))"

definition sg_harmless :: "(nat \<Rightarrow> nat) \<Rightarrow> buffer \<Rightarrow> string \<Rightarrow> sg_msg \<Rightarrow> bool" where
  "sg_harmless rnd data name m \<longleftrightarrow>
     m = Sg_uncompress_failed name (- EIO) \<or> (\<exists>seq w ls. m = Sg_mismatch w ls \<and> behind_stream rnd data seq w ls)"

lemma compared_harmless:
  assumes cmp: "compare_vecs (take ov vs) lin 0 0 = Inr ms"
    and ext: "\<forall>v \<in> set (take ov vs). exact v \<and> iov_len v < 2 ^ 32" and le: "sum_list (map iov_len (take ov vs)) \<le> length lin"
    and ov: "0 < ov" "ov \<le> length vs" "length (bytes_of (take (ov - 1) vs)) \<le> len" "len \<le> length (bytes_of (take ov vs))"
    and outs: "map sizes vs = map sizes outs" "ov < length outs" "\<forall>v \<in> set outs. exact v"
      "map iov_len (butlast outs) = cut_lens rnd (N_VECS - 1) (snappy_max_compressed_length (length data)) seq"
    and str: "take len lin = snappy_stream data" "take len (bytes_of vs) = snappy_stream data" "len = length (snappy_stream data)"
  shows "\<forall>m \<in> set ms. sg_harmless rnd data name m"
proof -
  define lens where "lens = cut_lens rnd (N_VECS - 1) (snappy_max_compressed_length (length data)) seq"
  define w where "w = ov - 1"
  have w: "ov = Suc w" using ov(1) by (simp add: w_def)
  have lo: "length vs = length outs" by (rule map_eq_imp_length_eq [OF outs(1)])
  have ll: "length lens = length outs - 1" using arg_cong [OF outs(4), of length] by (simp add: lens_def)
  have tk: "length (bytes_of (take k vs)) = sum_list (take k lens)" if "k \<le> ov" for k
  proof -
    have "set (take k vs) \<subseteq> set (take ov vs)" using that by (rule set_take_subset_set_take)
    then have "length (bytes_of (take k vs)) = sum_list (map iov_len (take k vs))"
      using ext by (intro length_bytes_exact) auto
    also have "map iov_len (take k vs) = take k (map iov_len outs)" by (metis map_sizes_eq(1) [OF outs(1)] take_map)
    also have "\<dots> = take k (map iov_len (butlast outs))" using that outs(2) by (simp add: map_butlast take_butlast)
    finally show ?thesis unfolding outs(4) lens_def .
  qed
  have bl: "butlast (take ov vs) = take w vs" using ov(2) by (simp add: butlast_take w_def)
  have "take len (bytes_of (take ov vs)) = take len (drop 0 lin)"
    using str(1,2) ov(4) take_bytes_of [of vs ov] by (metis append_Nil2 diff_is_0_eq drop0 take0 take_append)
  moreover have "take ov vs \<noteq> []" using ov(1,2) by auto
  moreover have "length (bytes_of (butlast (take ov vs))) \<le> len" unfolding bl using ov(3) by (simp add: w_def)
  moreover have "0 + sum_list (map iov_len (take ov vs)) \<le> length lin" using le by simp
  ultimately have "ms = [] \<or> (\<exists>ls. ms = [Sg_mismatch (0 + length (take ov vs) - 1) ls] \<and> len < length (bytes_of (take ov vs))
      \<and> (\<forall>(j, x, y) \<in> set ls. x \<noteq> y \<and> len \<le> length (bytes_of (butlast (take ov vs))) + j))"
    using ext cmp by (intro compare_vecs_behind)
  moreover have "0 + length (take ov vs) - 1 = w" using ov(2) by (simp add: w_def)
  ultimately have "ms = [] \<or> (\<exists>ls. ms = [Sg_mismatch w ls] \<and> len < length (bytes_of (take ov vs))
      \<and> (\<forall>(j, x, y) \<in> set ls. x \<noteq> y \<and> len \<le> length (bytes_of (take w vs)) + j))"
    unfolding bl by metis
  moreover have "behind_stream rnd data seq w ls" if "len < length (bytes_of (take ov vs))"
      "\<forall>(j, x, y) \<in> set ls. x \<noteq> y \<and> len \<le> length (bytes_of (take w vs)) + j" for ls
    using that ov(3) outs(2) ll str(3) tk [of w] tk [of ov] unfolding behind_stream_def Let_def lens_def [symmetric] w by auto
  ultimately have "ms = [] \<or> (\<exists>ls. ms = [Sg_mismatch w ls] \<and> behind_stream rnd data seq w ls)" by blast
  then show ?thesis unfolding sg_harmless_def by auto
qed

text \<open>The number of \<^verbatim>\<open>rand\<close> calls after the cutting of \<open>sz\<close> bytes, and after a whole round.\<close>

definition cut_seq :: "(nat \<Rightarrow> nat) \<Rightarrow> nat \<Rightarrow> nat \<Rightarrow> nat" where
  "cut_seq rnd sz seq = seq + length (cut_lens rnd (N_VECS - 1) sz seq)"

definition round_seq :: "(nat \<Rightarrow> nat) \<Rightarrow> nat \<Rightarrow> nat \<Rightarrow> nat" where
  "round_seq rnd n seq = cut_seq rnd (snappy_max_compressed_length n) (cut_seq rnd n seq)"

text \<open>In this round the random lengths use up the file and the output buffer before the vectors run out.\<close>

definition round_cut :: "(nat \<Rightarrow> nat) \<Rightarrow> nat \<Rightarrow> nat \<Rightarrow> bool" where
  "round_cut rnd n seq \<longleftrightarrow> cut_up rnd n seq \<and> cut_up rnd (snappy_max_compressed_length n) (cut_seq rnd n seq)"

lemma sg_round_passes:
  assumes "tools_ok env" "sg_env (sg_snap s)" "data \<noteq> []" "snappy_max_compressed_length (length data) < 2 ^ 31"
    and "round_cut rnd (length data) (rnd_seq s)"
  shows "\<exists>s' ms. sg_round env rnd name (data @ pad) (length data) s = Inr s' \<and> sg_env (sg_snap s') \<and> leaked s < leaked s'
    \<and> sg_msgs s' = sg_msgs s @ ms \<and> (\<forall>m \<in> set ms. sg_harmless rnd data name m) \<and> rnd_seq s' = round_seq rnd (length data) (rnd_seq s)"
proof -
  define n where "n = length data"
  define mx where "mx = snappy_max_compressed_length n"
  have n: "n < 2 ^ 31" "length data = n" and mx: "mx < 2 ^ 32" and mx17: "mx + 2 ^ 17 \<le> 2 ^ 32" and mx31: "mx < 2 ^ 31"
    using assms(4) by (simp_all add: n_def mx_def snappy_max_compressed_length_def)
  obtain ins seq1 where i: "split_in env rnd (data @ pad) n 0 [] (rnd_seq s) = Inr (ins, seq1)" "vecs_in ins" "bytes_of ins = data"
      "\<forall>v \<in> set ins. exact v" "seq1 = cut_seq rnd n (rnd_seq s)"
    using split_in_file [where seq = "rnd_seq s" and pad = pad, OF assms(1)] assms(5) unfolding n_def round_cut_def cut_seq_def by blast
  have isum: "sum_list (map iov_len ins) = n" using length_bytes_exact [OF i(4)] i(3) n by simp
  then have ilen: "\<forall>v \<in> set ins. exact v \<and> iov_len v < 2 ^ 32"
    using i(4) n(1) member_le_sum_list [of _ "map iov_len ins"] by fastforce
  obtain outs seq2 where o': "split_out env rnd mx [] seq1 = (outs, seq2)" "vecs_in outs" "vecs_ok outs" "length (bytes_of outs) = mx"
      "sum_list (map iov_len outs) = mx" "\<forall>v \<in> set outs. exact v" "length (bytes_of (butlast outs)) = mx"
      "map iov_len (butlast outs) = cut_lens rnd (N_VECS - 1) mx seq1" "seq2 = cut_seq rnd mx seq1"
    using split_out_room [OF assms(1) mx, of rnd seq1] assms(5) i(5) n(2) unfolding mx_def round_cut_def cut_seq_def by auto
  obtain snap1 lin len1 where l: "snappy_compress_sg (sg_snap s) (data @ pad) n (malloc_block env mx) = Inr (0, snap1, lin, len1)"
      "table_ready snap1" "same_blocks (sg_snap s) snap1" "length lin = mx" "len1 \<le> length lin" "take len1 lin = snappy_stream data"
    using compress_sg_stream [of "sg_snap s" n "data @ pad" "malloc_block env mx"] assms(2) n mx17
      length_malloc_block [OF assms(1), of mx] by (auto simp: sg_env_def simp flip: mx_def)
  have len1: "len1 = length (snappy_stream data)" using l(5,6) by (metis length_take min.absorb2)
  have env1: "sg_env snap1" by (rule sg_env_kept [OF assms(2) l(2,3)])
  have "length (bytes_of ins) < 2 ^ 31" "outs \<noteq> []" "snappy_max_compressed_length (length (bytes_of ins)) \<le> length (bytes_of outs)"
    using n o'(2,4) by (simp_all add: i(3) mx_def vecs_in_def)
  from compress_iov_stream [OF sg_env_ready [OF env1] i(2) this(1,2) o'(3) this(3)]
  obtain snap2 vs ov where v: "snappy_compress_iov snap1 ins (length ins) n outs (length outs) = Inr (0, snap2, vs, ov, len1)"
      "table_ready snap2" "same_blocks snap1 snap2" "map sizes vs = map sizes outs" "0 < ov" "ov \<le> length vs"
      "length (bytes_of (take (ov - 1) vs)) \<le> len1" "len1 \<le> length (bytes_of (take ov vs))" "take len1 (bytes_of vs) = snappy_stream data"
    unfolding i(3) n(2) len1 by blast
  have lv: "length vs = length outs" by (rule map_eq_imp_length_eq [OF v(4)])
  have ex: "exact x \<and> iov_len x < 2 ^ 32" if "x \<in> set vs" for x
  proof -
    have "sizes x \<in> sizes ` set outs" using that v(4) by (metis imageI list.set_map)
    then show ?thesis using o'(3,6) by (auto simp: sizes_def exact_def vecs_ok_def)
  qed
  have "map iov_len vs = map iov_len outs" by (rule map_sizes_eq(1) [OF v(4)])
  then have le: "sum_list (map iov_len (take ov vs)) \<le> length lin"
    using o'(5) l(4) by (metis append_take_drop_id le_add1 map_append sum_list_append)
  have ext: "\<forall>v \<in> set (take ov vs). exact v \<and> iov_len v < 2 ^ 32" using ex by (blast dest: in_set_takeD)
  obtain m3 where m3: "compare_vecs (take ov vs) lin 0 0 = Inr m3"
    using compare_vecs_ok [of "take ov vs" 0 lin 0] le ext by (auto simp del: numeral_power_less_of_nat_cancel_iff)
  obtain err where u: "snappy_uncompress_iov False (stack_scratch env) (take ov vs) ov len1 (malloc_block env n) = Inr (err, data)" "err \<in> {0, - EIO}"
    using uncompress_reported [OF v(4) o'(2) _ v(5,6,8,9) _ tools_okD(5) [OF assms(1)], of "malloc_block env n"]
      mx o'(4) length_malloc_block [OF assms(1)] n(2) small_total [OF o'(2)] mx31 n(1) by auto
  have cmp: "memcmp_differs data (data @ pad) n = Inr False" using n(2) by (simp add: memcmp_differs_def mem_simps)
  have "ov < length outs"
  proof (rule ccontr)
    assume "\<not> ov < length outs"
    then have "take (ov - 1) vs = butlast vs" using v(6) lv by (simp add: butlast_conv_take)
    moreover have "map sizes (butlast vs) = map sizes (butlast outs)" using v(4) by (simp add: map_butlast)
    then have "length (bytes_of (butlast vs)) = length (bytes_of (butlast outs))"
      unfolding length_bytes_of using map_sizes_eq(2) by metis
    ultimately show False using v(7) o'(7) len1 stream_shorter [of data] n(2) by (simp add: mx_def)
  qed
  note short = this
  have m3h: "\<forall>m \<in> set m3. sg_harmless rnd data name m"
    using compared_harmless [OF m3 ext _ v(5-8) v(4) short o'(6) o'(8) [unfolded mx_def n_def]] le l(6) v(9) len1 by simp
  have "sum_iov ins (length ins) = Inr n" "sum_iov outs (length outs) = Inr mx"
    using sum_iov_ok isum o'(5) n(1) mx by simp_all
  then have "sg_round env rnd name (data @ pad) n s = Inr \<lparr>sg_snap = snap2, rnd_seq = seq2,
      sg_msgs = sg_msgs s @ m3 @ (if err < 0 then [Sg_uncompress_failed name err] else []), leaked = leaked s + (length outs - ov)\<rparr>"
    using i(1) test_read_all_ok [OF ilen] o'(1) l(1) v(1) m3 u(1) cmp
    by (simp add: sg_round_def flip: mx_def)
  moreover have "sg_env snap2" by (rule sg_env_kept [OF env1 v(2,3)])
  moreover have "\<forall>m \<in> set (m3 @ (if err < 0 then [Sg_uncompress_failed name err] else [])). sg_harmless rnd data name m"
    using m3h u(2) by (auto simp: sg_harmless_def EIO_def)
  moreover have "seq2 = round_seq rnd n (rnd_seq s)" using o'(9) i(5) by (simp add: round_seq_def mx_def)
  ultimately show ?thesis using short unfolding n(2) by auto
qed

definition sg_tested :: "(string \<rightharpoonup> buffer) \<Rightarrow> string \<Rightarrow> bool" where
  "sg_tested fs name \<longleftrightarrow> fs name \<notin> {None, Some []}"

text \<open>All rounds over all files, from the first call of \<^verbatim>\<open>rand\<close> on: every cutting ends in time.\<close>

fun rounds_cut :: "(nat \<Rightarrow> nat) \<Rightarrow> nat \<Rightarrow> nat \<Rightarrow> nat \<Rightarrow> bool" where
  "rounds_cut rnd n 0 seq = True"
| "rounds_cut rnd n (Suc k) seq = (round_cut rnd n seq \<and> rounds_cut rnd n k (round_seq rnd n seq))"

fun files_cut :: "(nat \<Rightarrow> nat) \<Rightarrow> (string \<rightharpoonup> buffer) \<Rightarrow> string list \<Rightarrow> nat \<Rightarrow> bool" where
  "files_cut rnd fs [] seq = True"
| "files_cut rnd fs (name # names) seq =
     (if sg_tested fs name
      then let n = length (the (fs name)) in
           rounds_cut rnd n REPEAT seq \<and> files_cut rnd fs names ((round_seq rnd n ^^ REPEAT) seq)
      else files_cut rnd fs names seq)"

text \<open>Small files are cut up whatever \<^verbatim>\<open>rand\<close> returns: every vector takes a byte at least.\<close>

lemma round_cut_small: "snappy_max_compressed_length n \<le> N_VECS - 1 \<Longrightarrow> round_cut rnd n seq"
  unfolding round_cut_def cut_up_def by (intro conjI sum_cut) (simp_all add: snappy_max_compressed_length_def)

lemma rounds_cut_small: "snappy_max_compressed_length n \<le> N_VECS - 1 \<Longrightarrow> rounds_cut rnd n k seq"
  by (induction k arbitrary: seq) (simp_all add: round_cut_small)

text \<open>A file that cannot be opened or is empty is reported.\<close>

definition sg_expected :: "(nat \<Rightarrow> nat) \<Rightarrow> (string \<rightharpoonup> buffer) \<Rightarrow> string list \<Rightarrow> sg_msg \<Rightarrow> bool" where
  "sg_expected rnd fs names m \<longleftrightarrow> (\<exists>name \<in> set names.
     if sg_tested fs name then sg_harmless rnd (the (fs name)) name m else m = Sg_perror name)"

lemma sg_rounds_pass:
  assumes "tools_ok env" "sg_env (sg_snap s)" "data \<noteq> []" "snappy_max_compressed_length (length data) < 2 ^ 31"
    and "rounds_cut rnd (length data) k (rnd_seq s)"
  shows "\<exists>s' ms. sg_rounds env rnd name (data @ pad) (length data) k s = Inr s' \<and> sg_env (sg_snap s') \<and> leaked s + k \<le> leaked s'
    \<and> sg_msgs s' = sg_msgs s @ ms \<and> (\<forall>m \<in> set ms. sg_harmless rnd data name m)
    \<and> rnd_seq s' = (round_seq rnd (length data) ^^ k) (rnd_seq s)"
  using assms(2,5)
proof (induction k arbitrary: s)
  case (Suc k)
  obtain s1 ms where r: "sg_round env rnd name (data @ pad) (length data) s = Inr s1" "sg_env (sg_snap s1)" "leaked s < leaked s1"
      "sg_msgs s1 = sg_msgs s @ ms" "\<forall>m \<in> set ms. sg_harmless rnd data name m" "rnd_seq s1 = round_seq rnd (length data) (rnd_seq s)"
    using sg_round_passes [OF assms(1) Suc.prems(1) assms(3,4), of rnd name pad] Suc.prems(2) by auto
  obtain s2 ms' where "sg_rounds env rnd name (data @ pad) (length data) k s1 = Inr s2" "sg_env (sg_snap s2)" "leaked s1 + k \<le> leaked s2"
      "sg_msgs s2 = sg_msgs s1 @ ms'" "\<forall>m \<in> set ms'. sg_harmless rnd data name m"
      "rnd_seq s2 = (round_seq rnd (length data) ^^ k) (rnd_seq s1)"
    using Suc.IH [OF r(2)] Suc.prems(2) r(6) by auto
  then show ?case using r by (intro exI [of _ s2] exI [of _ "ms @ ms'"]) (auto simp: funpow_swap1)
qed simp

lemma sg_files_pass:
  assumes "tools_ok env" "sg_env (sg_snap s)"
    and "\<forall>name \<in> set names. sg_tested fs name \<longrightarrow> snappy_max_compressed_length (length (the (fs name))) < 2 ^ 31"
    and "files_cut rnd fs names (rnd_seq s)"
  shows "\<exists>s' ms. sg_files env rnd fs names s = Inr s' \<and> sg_msgs s' = sg_msgs s @ ms \<and> (\<forall>m \<in> set ms. sg_expected rnd fs names m)
    \<and> leaked s + REPEAT * length (filter (sg_tested fs) names) \<le> leaked s'"
  using assms(2-4)
proof (induction names arbitrary: s)
  case (Cons name names)
  have mono: "sg_expected rnd fs names m \<Longrightarrow> sg_expected rnd fs (name # names) m" for m by (auto simp: sg_expected_def)
  show ?case
  proof (cases "\<not> sg_tested fs name")
    case True
    define s1 where "s1 = s\<lparr>sg_msgs := sg_msgs s @ [Sg_perror name]\<rparr>"
    have "mapfile env fs name None = (None, None) \<or> mapfile env fs name None = (None, Some 0)"
      using True tools_okD(1) [OF assms(1)] by (auto simp: sg_tested_def mapfile_def mapfile_flag_def)
    then have eq: "sg_files env rnd fs (name # names) s = sg_files env rnd fs names s1" by (auto simp: s1_def)
    obtain s' ms where "sg_files env rnd fs names s1 = Inr s'" "sg_msgs s' = sg_msgs s1 @ ms" "\<forall>m \<in> set ms. sg_expected rnd fs names m"
        "leaked s1 + REPEAT * length (filter (sg_tested fs) names) \<le> leaked s'"
      using Cons.IH [of s1] Cons.prems True by (auto simp: s1_def)
    then show ?thesis
      unfolding eq using True mono
      by (intro exI [of _ s'] exI [of _ "Sg_perror name # ms"]) (auto simp: s1_def sg_expected_def)
  next
    case False
    then obtain data where d: "fs name = Some data" "data \<noteq> []" by (auto simp: sg_tested_def)
    have f: "snappy_max_compressed_length (length data) < 2 ^ 31" "rounds_cut rnd (length data) REPEAT (rnd_seq s)"
        "files_cut rnd fs names ((round_seq rnd (length data) ^^ REPEAT) (rnd_seq s))"
      using Cons.prems(2,3) d(1) False by (simp_all add: Let_def)
    obtain pad where m: "mapfile env fs name None = (Some (data @ pad), Some (length data))"
      using mapfile_ok [where sz = None and fs = fs, OF assms(1) d] by blast
    obtain s1 ms where r: "sg_rounds env rnd name (data @ pad) (length data) REPEAT s = Inr s1" "sg_env (sg_snap s1)"
        "leaked s + REPEAT \<le> leaked s1" "sg_msgs s1 = sg_msgs s @ ms" "\<forall>m \<in> set ms. sg_harmless rnd data name m"
        "rnd_seq s1 = (round_seq rnd (length data) ^^ REPEAT) (rnd_seq s)"
      using sg_rounds_pass [OF assms(1) Cons.prems(1) d(2) f(1,2)] by blast
    obtain s' ms' where s': "sg_files env rnd fs names s1 = Inr s'" "sg_msgs s' = sg_msgs s1 @ ms'" "\<forall>m \<in> set ms'. sg_expected rnd fs names m"
        "leaked s1 + REPEAT * length (filter (sg_tested fs) names) \<le> leaked s'"
      using Cons.IH [OF r(2)] Cons.prems(2) f(3) r(6) by auto
    have "\<forall>m \<in> set ms. sg_expected rnd fs (name # names) m" using r(5) d False by (auto simp: sg_expected_def)
    then show ?thesis
      using m r(1-4) d mono False s' by (intro exI [of _ s'] exI [of _ "ms @ ms'"]) auto
  qed
qed simp

text \<open>
  C27. \<^verbatim>\<open>sgverify\<close> on files whose largest possible stream is below 2 GiB, when memory is available and every time the numbers that \<^verbatim>\<open>rand\<close>
  returns (\<open>rnd 0\<close>, \<open>rnd 1\<close>, ...) use up the file and the output buffer before the 4999 vectors run out (which holds by
  itself for files of less than about 4 KiB): every
  round ends without a fault, both assertions on the cutting hold, the compressor over vectors reports the length of
  the flat one (the third assertion), and the restored data is the file, in every round. The only complaints are those of the
  program itself: it compares and uncompresses the vector in which the stream ends beyond the end of the stream, and every byte it lists as
  different is behind that end. Every round loses at least one block of memory.
\<close>

theorem sgverify_passes:
  assumes "tools_ok env"
    and "\<forall>name \<in> set names. sg_tested fs name \<longrightarrow> snappy_max_compressed_length (length (the (fs name))) < 2 ^ 31"
    and "files_cut rnd fs names 0"
  shows "\<exists>s. sgverify_main env rnd fs snap names = Inr (0, s) \<and> (\<forall>m \<in> set (sg_msgs s). sg_expected rnd fs names m)
    \<and> REPEAT * length (filter (sg_tested fs) names) \<le> leaked s"
proof -
  obtain b where b: "heap_mem env kblock_size = Some b" "length b = kblock_size" using tools_okD(6) [OF assms(1)] by blast
  obtain c where c: "heap_mem env (snappy_max_compressed_length kblock_size) = Some c" "length c = snappy_max_compressed_length kblock_size"
    using tools_okD(6) [OF assms(1)] by blast
  obtain t where mem: "env_table env = Some t" "length t = kmax_hash_table_size" "heap_mem env kblock_size = Some b" "length b = kblock_size"
      "heap_mem env (snappy_max_compressed_length kblock_size) = Some c" "length c = snappy_max_compressed_length kblock_size"
    using assms(1) b c by (auto simp: tools_ok_def split: option.splits)
  define snap1 where "snap1 = snd (snappy_init_env_sg (env_table env) (heap_mem env kblock_size)
      (heap_mem env (snappy_max_compressed_length kblock_size)) snap True)"
  have "sg_env snap1" using init_env_sg_ready [OF mem(2,4,6), of snap] unfolding snap1_def mem(1,3,5) by auto
  then have "sg_env (sg_snap \<lparr>sg_snap = snap1, rnd_seq = 0, sg_msgs = [], leaked = 0\<rparr>)"
      "files_cut rnd fs names (rnd_seq \<lparr>sg_snap = snap1, rnd_seq = 0, sg_msgs = [], leaked = 0\<rparr>)"
    using assms(3) by simp_all
  from sg_files_pass [OF assms(1) this(1) assms(2) this(2)]
  obtain s where "sg_files env rnd fs names \<lparr>sg_snap = snap1, rnd_seq = 0, sg_msgs = [], leaked = 0\<rparr> = Inr s"
      "\<forall>m \<in> set (sg_msgs s). sg_expected rnd fs names m" "REPEAT * length (filter (sg_tested fs) names) \<le> leaked s"
    by (elim exE conjE) simp
  then show ?thesis by (simp add: sgverify_main_def Let_def flip: snap1_def)
qed

theorem sgverify_passes_witness:
  "\<exists>s. sgverify_main example_tools (\<lambda>k. 3 * k) [''a'' \<mapsto> [7, 7, 7]] example_env [''a''] = Inr (0, s) \<and> REPEAT \<le> leaked s"
proof -
  have "files_cut (\<lambda>k. 3 * k) [''a'' \<mapsto> [7, 7, 7]] [''a''] 0"
    by (simp add: rounds_cut_small N_VECS_def snappy_max_compressed_length_def del: rounds_cut.simps)
  from sgverify_passes [OF example_tools_ok _ this, of example_env] show ?thesis
    by (auto simp: sg_tested_def snappy_max_compressed_length_def)
qed

end
