(* ===== verification/Snappy_Glue.thy ===== *)
theory Snappy_Glue
  imports Snappy_Tools
begin

text \<open>
  The benchmarked compressors of \<^verbatim>\<open>glue.c\<close>, which \<^verbatim>\<open>bench.c\<close> and \<^verbatim>\<open>fuzzer.c\<close> include with their own definition of the
  macro \<^verbatim>\<open>BENCH\<close>, here an argument. The compressors other than snappy are outside the repository: their functions are arguments too. A
  compressor and its decompressor that restore what was compressed form a \<open>codec\<close>.
\<close>

section \<open>Compressors\<close>

text \<open>
  The arguments are those of the C functions: source, its size, destination, \<^verbatim>\<open>*outlen\<close> and the state \<^verbatim>\<open>a\<close>. The results: return value,
  destination, \<^verbatim>\<open>*outlen\<close> and the state; for a decompressor without \<^verbatim>\<open>*outlen\<close>.
\<close>

type_synonym 'a compress_fn = "buffer \<Rightarrow> nat \<Rightarrow> buffer \<Rightarrow> nat \<Rightarrow> 'a \<Rightarrow> (int \<times> buffer \<times> nat \<times> 'a) c_result"
type_synonym 'a uncompress_fn = "buffer \<Rightarrow> nat \<Rightarrow> buffer \<Rightarrow> nat \<Rightarrow> 'a \<Rightarrow> (int \<times> buffer \<times> 'a) c_result"

text \<open>
  What is left of a part of the program is a state \<open>'w\<close> of the benchmark, and whether the program goes on: \<^verbatim>\<open>False\<close> is \<^verbatim>\<open>exit(1)\<close>.
  \<^verbatim>\<open>BENCH(name, names, fn, arg)\<close> where \<^verbatim>\<open>map\<close>, \<^verbatim>\<open>size\<close>, \<^verbatim>\<open>out\<close>, \<^verbatim>\<open>outlen\<close> and \<^verbatim>\<open>buf2\<close> are set.\<close>

type_synonym 'w run = "(bool \<times> 'w) c_result"

type_synonym ('a, 'w) bench =
  "'a compress_fn \<Rightarrow> 'a uncompress_fn \<Rightarrow> string \<Rightarrow> string \<Rightarrow> buffer \<Rightarrow> nat \<Rightarrow> buffer \<Rightarrow> nat \<Rightarrow> buffer \<Rightarrow> 'a \<Rightarrow> 'w \<Rightarrow> 'w c_result"

definition and_then :: "'w run \<Rightarrow> ('w \<Rightarrow> 'w run) \<Rightarrow> 'w run" where
  "and_then r f = cbind r (\<lambda>(goes_on, w). if goes_on then f w else Inr (False, w))"

text \<open>\<^verbatim>\<open>None\<close> is \<^verbatim>\<open>exit(1)\<close>.\<close>

definition xmalloc :: "tool_env \<Rightarrow> nat \<Rightarrow> buffer option" where
  "xmalloc env n = heap_mem env n"

text \<open>The frame that all tests share: two blocks, the benchmark, and the blocks released.\<close>

definition test_codec ::
    "tool_env \<Rightarrow> ('a, 'w) bench \<Rightarrow> 'a compress_fn \<Rightarrow> 'a uncompress_fn \<Rightarrow> string \<Rightarrow> string \<Rightarrow> buffer \<Rightarrow> nat \<Rightarrow> nat \<Rightarrow> 'a \<Rightarrow> 'w \<Rightarrow>
     'w run" where
  "test_codec env bench c d names fn mem sz outlen a w =
     (case xmalloc env outlen of
        None \<Rightarrow> Inr (False, w)
      | Some out \<Rightarrow>
          (case xmalloc env sz of
             None \<Rightarrow> Inr (False, w)
           | Some buf2 \<Rightarrow> cbind (bench c d names fn mem sz out outlen buf2 a w) (\<lambda>w. Inr (True, w))))"

section \<open>snappy\<close>

text \<open>The state is a pointer to the environment; through a null pointer there is no table and no block.\<close>

definition null_env :: snappy_env where
  "null_env = \<lparr>hash_table = None, env_scratch = None, scratch_output = None\<rparr>"

definition c_snappy :: "snappy_env option compress_fn" where
  "c_snappy mem sz out outlen a =
     cbind (snappy_compress_sg (case a of None \<Rightarrow> null_env | Some e \<Rightarrow> e) mem sz out) (\<lambda>(err, e, out, outlen).
       Inr (err, out, outlen, map_option (\<lambda>_. e) a))"

definition d_snappy :: "buffer \<Rightarrow> snappy_env option uncompress_fn" where
  "d_snappy scratch0 out outlen buf2 sz a =
     cbind (snappy_uncompress_sg False scratch0 out outlen buf2) (\<lambda>(err, buf2). Inr (err, buf2, a))"

definition test_snappy :: "tool_env \<Rightarrow> (snappy_env option, 'w) bench \<Rightarrow> snappy_env \<Rightarrow> buffer \<Rightarrow> nat \<Rightarrow> string \<Rightarrow> 'w \<Rightarrow> 'w run" where
  "test_snappy env bench snap mem sz fn w =
     test_codec env bench c_snappy (d_snappy (stack_scratch env)) ''snappy'' fn mem sz (snappy_max_compressed_length sz)
       (Some (snd (snappy_init_env (env_table env) snap))) w"

section \<open>lzo\<close>

definition c_lzo :: "'m compress_fn \<Rightarrow> 'm compress_fn" where
  "c_lzo lzo1x_1_compress mem sz out outlen a = lzo1x_1_compress mem sz out outlen a"

definition d_lzo :: "(buffer \<Rightarrow> nat \<Rightarrow> buffer \<Rightarrow> nat \<Rightarrow> (int \<times> buffer \<times> nat) c_result) \<Rightarrow> 'm uncompress_fn" where
  "d_lzo lzo1x_decompress_safe out outlen buf2 sz a =
     cbind (lzo1x_decompress_safe out outlen buf2 sz) (\<lambda>(err, buf2, sz). Inr (err, buf2, a))"

text \<open>\<open>lzo_wmem\<close> is the working memory, filled with zeros.\<close>

definition test_lzo ::
    "tool_env \<Rightarrow> ('m, 'w) bench \<Rightarrow> 'm compress_fn \<Rightarrow> (buffer \<Rightarrow> nat \<Rightarrow> buffer \<Rightarrow> nat \<Rightarrow> (int \<times> buffer \<times> nat) c_result) \<Rightarrow> 'm \<Rightarrow>
     buffer \<Rightarrow> nat \<Rightarrow> string \<Rightarrow> 'w \<Rightarrow> 'w run" where
  "test_lzo env bench lzo1x_1_compress lzo1x_decompress_safe lzo_wmem mem sz fn w =
     test_codec env bench (c_lzo lzo1x_1_compress) (d_lzo lzo1x_decompress_safe) ''lzo'' fn mem sz (sz * 2) lzo_wmem w"

section \<open>zlib\<close>

text \<open>The fields of \<^verbatim>\<open>struct z_stream_s\<close> that the code sets or reads; \<open>z_rest\<close> is what the library keeps.\<close>

record 'z z_stream =
  next_in :: buffer
  avail_in :: nat
  total_in :: nat
  next_out :: buffer
  avail_out :: nat
  total_out :: nat
  z_rest :: 'z

record 'z zlib =
  Z_OK :: int
  Z_STREAM_END :: int
  Z_FINISH :: int
  zlib_deflate :: "'z z_stream \<Rightarrow> int \<Rightarrow> (int \<times> 'z z_stream) c_result"
  zlib_deflateReset :: "'z z_stream \<Rightarrow> (int \<times> 'z z_stream) c_result"
  zlib_inflate :: "'z z_stream \<Rightarrow> int \<Rightarrow> (int \<times> 'z z_stream) c_result"
  zlib_inflateReset :: "'z z_stream \<Rightarrow> (int \<times> 'z z_stream) c_result"
  zlib_deflateInit :: "'z z_stream \<Rightarrow> nat \<Rightarrow> (int \<times> 'z z_stream) c_result"
  zlib_inflateInit :: "'z z_stream \<Rightarrow> (int \<times> 'z z_stream) c_result"

record 'z zlib_state =
  z_comp :: "'z z_stream"
  z_de :: "'z z_stream"

definition c_zlib :: "'z zlib \<Rightarrow> 'z zlib_state compress_fn" where
  "c_zlib z mem sz out outlen s =
    (let comp = (z_comp s)\<lparr>next_in := mem, avail_in := sz, total_in := 0, next_out := out, avail_out := outlen, total_out := 0\<rparr> in
     cbind (zlib_deflate z comp (Z_FINISH z)) (\<lambda>(ret, comp).
     if ret \<noteq> Z_STREAM_END z then Inr (ret, next_out comp, outlen, s\<lparr>z_comp := comp\<rparr>)
     else
       let out = next_out comp in
       cbind (zlib_deflateReset z comp) (\<lambda>(ret, comp).
       if ret \<noteq> Z_OK z then Inr (ret, out, outlen, s\<lparr>z_comp := comp\<rparr>)
       else Inr (0, out, outlen - avail_out comp, s\<lparr>z_comp := comp\<rparr>))))"

definition d_zlib :: "'z zlib \<Rightarrow> 'z zlib_state uncompress_fn" where
  "d_zlib z out outlen buf2 sz s =
    (let de = (z_de s)\<lparr>next_in := out, avail_in := outlen, next_out := buf2, avail_out := sz, total_in := 0, total_out := 0\<rparr> in
     cbind (zlib_inflate z de (Z_FINISH z)) (\<lambda>(ret, de).
     let buf2 = next_out de in
     if ret \<noteq> Z_STREAM_END z then Inr (ret, buf2, s\<lparr>z_de := de\<rparr>)
     else
       cbind (zlib_inflateReset z de) (\<lambda>(ret, de).
         Inr (if ret \<noteq> Z_OK z then ret else 0, buf2, s\<lparr>z_de := de\<rparr>))))"

text \<open>
  \<open>blank\<close> is a stream of zeros with its workspace. The blocks are allocated before the library is initialised; a failure of that ends the program.
\<close>

definition test_zlib ::
    "tool_env \<Rightarrow> ('z zlib_state, 'w) bench \<Rightarrow> 'z zlib \<Rightarrow> 'z z_stream \<Rightarrow> buffer \<Rightarrow> nat \<Rightarrow> string \<Rightarrow> nat \<Rightarrow> 'w \<Rightarrow> 'w run" where
  "test_zlib env bench z blank mem sz fn level w =
     (if xmalloc env (sz * 2) = None \<or> xmalloc env sz = None then Inr (False, w)
      else
        cbind (zlib_deflateInit z blank level) (\<lambda>(err, comp).
        if err \<noteq> Z_OK z then Inr (False, w)
        else
          cbind (zlib_inflateInit z blank) (\<lambda>(err, de).
          if err \<noteq> Z_OK z then Inr (False, w)
          else
            test_codec env bench (c_zlib z) (d_zlib z) (''zlib'' @ [char_of (48 + level)]) fn mem sz (sz * 2)
              \<lparr>z_comp = comp, z_de = de\<rparr> w)))"

section \<open>lzf, quicklz, fastlz and lz4\<close>

definition c_lzf :: "(buffer \<Rightarrow> nat \<Rightarrow> buffer \<Rightarrow> nat \<Rightarrow> (nat \<times> buffer) c_result) \<Rightarrow> unit compress_fn" where
  "c_lzf lzf_compress mem sz out outlen a =
     cbind (lzf_compress mem sz out outlen) (\<lambda>(n, out). if n = 0 then Inr (- 1, out, outlen, a) else Inr (0, out, n, a))"

definition d_lzf :: "(buffer \<Rightarrow> nat \<Rightarrow> buffer \<Rightarrow> nat \<Rightarrow> (nat \<times> buffer) c_result) \<Rightarrow> unit uncompress_fn" where
  "d_lzf lzf_decompress out outlen buf2 sz a =
     cbind (lzf_decompress out outlen buf2 sz) (\<lambda>(n, buf2). Inr (if n = 0 then - 1 else 0, buf2, a))"

definition test_lzf ::
    "tool_env \<Rightarrow> (unit, 'w) bench \<Rightarrow> (buffer \<Rightarrow> nat \<Rightarrow> buffer \<Rightarrow> nat \<Rightarrow> (nat \<times> buffer) c_result) \<Rightarrow>
     (buffer \<Rightarrow> nat \<Rightarrow> buffer \<Rightarrow> nat \<Rightarrow> (nat \<times> buffer) c_result) \<Rightarrow> buffer \<Rightarrow> nat \<Rightarrow> string \<Rightarrow> 'w \<Rightarrow> 'w run" where
  "test_lzf env bench lzf_compress lzf_decompress mem sz fn w =
     test_codec env bench (c_lzf lzf_compress) (d_lzf lzf_decompress) ''lzf'' fn mem sz (sz * 2) () w"

record 'q quicklz =
  qlz_compress :: "buffer \<Rightarrow> buffer \<Rightarrow> nat \<Rightarrow> 'q \<Rightarrow> (nat \<times> buffer \<times> 'q) c_result"
  qlz_size_compressed :: "buffer \<Rightarrow> nat c_result"
  qlz_decompress :: "buffer \<Rightarrow> buffer \<Rightarrow> 'q \<Rightarrow> (nat \<times> buffer \<times> 'q) c_result"

definition c_quicklz :: "'q quicklz \<Rightarrow> 'q compress_fn" where
  "c_quicklz q mem sz out outlen a =
     cbind (qlz_compress q mem out sz a) (\<lambda>(n, out, a).
     if n = 0 then Inr (- 1, out, outlen, a)
     else cbind (qlz_size_compressed q out) (\<lambda>outlen. Inr (0, out, outlen, a)))"

definition d_quicklz :: "'q quicklz \<Rightarrow> 'q uncompress_fn" where
  "d_quicklz q out outlen buf2 sz a =
     cbind (qlz_decompress q out buf2 a) (\<lambda>(n, buf2, a). Inr (if n = 0 then - 1 else 0, buf2, a))"

text \<open>The state of the compressor, zeroed, is used for the decompressor as well.\<close>

definition test_quicklz ::
    "tool_env \<Rightarrow> ('q, 'w) bench \<Rightarrow> 'q quicklz \<Rightarrow> 'q \<Rightarrow> buffer \<Rightarrow> nat \<Rightarrow> string \<Rightarrow> 'w \<Rightarrow> 'w run" where
  "test_quicklz env bench q state mem sz fn w =
     test_codec env bench (c_quicklz q) (d_quicklz q) ''qlz'' fn mem sz (sz * 2) state w"

definition c_fastlz :: "(buffer \<Rightarrow> nat \<Rightarrow> buffer \<Rightarrow> (nat \<times> buffer) c_result) \<Rightarrow> unit compress_fn" where
  "c_fastlz fastlz_compress mem sz out outlen a =
     cbind (fastlz_compress mem sz out) (\<lambda>(outlen, out). Inr (0, out, outlen, a))"

definition d_fastlz :: "(buffer \<Rightarrow> nat \<Rightarrow> buffer \<Rightarrow> nat \<Rightarrow> (nat \<times> buffer) c_result) \<Rightarrow> unit uncompress_fn" where
  "d_fastlz fastlz_decompress out outlen buf2 sz a =
     cbind (fastlz_decompress out outlen buf2 sz) (\<lambda>(n, buf2). Inr (if n = 0 then - 1 else 0, buf2, a))"

definition test_fastlz ::
    "tool_env \<Rightarrow> (unit, 'w) bench \<Rightarrow> (buffer \<Rightarrow> nat \<Rightarrow> buffer \<Rightarrow> (nat \<times> buffer) c_result) \<Rightarrow>
     (buffer \<Rightarrow> nat \<Rightarrow> buffer \<Rightarrow> nat \<Rightarrow> (nat \<times> buffer) c_result) \<Rightarrow> buffer \<Rightarrow> nat \<Rightarrow> string \<Rightarrow> 'w \<Rightarrow> 'w run" where
  "test_fastlz env bench fastlz_compress fastlz_decompress mem sz fn w =
     test_codec env bench (c_fastlz fastlz_compress) (d_fastlz fastlz_decompress) ''fastlz'' fn mem sz (sz * 2) () w"

definition c_lz4 :: "(buffer \<Rightarrow> buffer \<Rightarrow> nat \<Rightarrow> (nat \<times> buffer) c_result) \<Rightarrow> unit compress_fn" where
  "c_lz4 LZ4_compress mem sz out outlen a =
     cbind (LZ4_compress mem out sz) (\<lambda>(outlen, out). Inr (0, out, outlen, a))"

definition d_lz4 :: "(buffer \<Rightarrow> buffer \<Rightarrow> nat \<Rightarrow> (int \<times> buffer) c_result) \<Rightarrow> unit uncompress_fn" where
  "d_lz4 LZ4_uncompress out outlen buf2 sz a =
     cbind (LZ4_uncompress out buf2 outlen) (\<lambda>(n, buf2). Inr (if n < 0 then - 1 else 0, buf2, a))"

text \<open>The test is named after lz4 but runs fastlz.\<close>

definition test_lz4 ::
    "tool_env \<Rightarrow> (unit, 'w) bench \<Rightarrow> (buffer \<Rightarrow> nat \<Rightarrow> buffer \<Rightarrow> (nat \<times> buffer) c_result) \<Rightarrow>
     (buffer \<Rightarrow> nat \<Rightarrow> buffer \<Rightarrow> nat \<Rightarrow> (nat \<times> buffer) c_result) \<Rightarrow> buffer \<Rightarrow> nat \<Rightarrow> string \<Rightarrow> 'w \<Rightarrow> 'w run" where
  "test_lz4 env bench fastlz_compress fastlz_decompress mem sz fn w =
     test_codec env bench (c_fastlz fastlz_compress) (d_fastlz fastlz_decompress) ''lz4'' fn mem sz (sz * 2) () w"

section \<open>The reference implementation of snappy\<close>

definition c_snapref :: "(buffer \<Rightarrow> nat \<Rightarrow> buffer \<Rightarrow> nat \<Rightarrow> (int \<times> buffer \<times> nat) c_result) \<Rightarrow> unit compress_fn" where
  "c_snapref snappyc_compress mem sz out outlen a =
     cbind (snappyc_compress mem sz out outlen) (\<lambda>(err, out, outlen). Inr (err, out, outlen, a))"

definition d_snapref :: "(buffer \<Rightarrow> nat \<Rightarrow> buffer \<Rightarrow> nat \<Rightarrow> (int \<times> buffer \<times> nat) c_result) \<Rightarrow> unit uncompress_fn" where
  "d_snapref snappyc_uncompress out outlen buf2 sz a =
     cbind (snappyc_uncompress out outlen buf2 sz) (\<lambda>(err, buf2, sz). Inr (err, buf2, a))"

text \<open>The test runs this library's functions, with a null environment.\<close>

definition test_snapref :: "tool_env \<Rightarrow> (snappy_env option, 'w) bench \<Rightarrow> buffer \<Rightarrow> nat \<Rightarrow> string \<Rightarrow> 'w \<Rightarrow> 'w run" where
  "test_snapref env bench mem sz fn w =
     test_codec env bench c_snappy (d_snappy (stack_scratch env)) ''snapref'' fn mem sz (snappy_max_compressed_length sz) None w"

section \<open>Codecs\<close>

text \<open>
  \<open>enc data\<close> is the compressed form, in a buffer of \<open>cap\<close> bytes, of data that \<open>fits\<close>; \<open>usable\<close> is kept of the state.
\<close>

locale codec =
  fixes c :: "'a compress_fn" and d :: "'a uncompress_fn" and cap :: "nat \<Rightarrow> nat" and usable :: "'a \<Rightarrow> bool"
    and fits :: "buffer \<Rightarrow> bool" and enc :: "buffer \<Rightarrow> buffer"
  assumes compresses: "usable a \<Longrightarrow> fits data \<Longrightarrow> length out = cap (length data) \<Longrightarrow>
      \<exists>rest a'. c (data @ pad) (length data) out (cap (length data)) a = Inr (0, enc data @ rest, length (enc data), a') \<and> usable a'
        \<and> length (enc data @ rest) = length out"
    and restores: "usable a \<Longrightarrow> fits data \<Longrightarrow> length buf2 = length data \<Longrightarrow> length (enc data @ rest) = cap (length data) \<Longrightarrow>
      \<exists>a'. d (enc data @ rest) (length (enc data)) buf2 (length data) a = Inr (0, data, a') \<and> usable a'"

definition snappy_usable :: "buffer \<Rightarrow> snappy_env option \<Rightarrow> bool" where
  "snappy_usable scratch0 a \<longleftrightarrow> length scratch0 = 5 \<and> (case a of None \<Rightarrow> False | Some e \<Rightarrow> table_ready e)"

definition below_2GiB :: "buffer \<Rightarrow> bool" where
  "below_2GiB data \<longleftrightarrow> length data < 2 ^ 31"

interpretation snappy: codec c_snappy "d_snappy scratch0" snappy_max_compressed_length "snappy_usable scratch0" below_2GiB snappy_stream
  for scratch0
proof
  fix a :: "snappy_env option" and data out pad :: buffer
  assume a: "snappy_usable scratch0 a" and n: "below_2GiB data" and out: "length out = snappy_max_compressed_length (length data)"
  obtain e where e: "a = Some e" "table_ready e" using a by (cases a) (auto simp: snappy_usable_def)
  have "length out + 2 ^ 17 \<le> 2 ^ 32" using n out by (simp add: snappy_max_compressed_length_def below_2GiB_def)
  then obtain e' buf len where c: "snappy_compress_sg e (data @ pad) (length data) out = Inr (0, e', buf, len)" "table_ready e'"
      "length buf = length out" "len \<le> length buf" "take len buf = snappy_stream data"
    using compress_sg_stream [OF e(2), of "length data" "data @ pad" out] n out by (auto simp: below_2GiB_def)
  have len: "len = length (snappy_stream data)" using c(4,5) by (metis length_take min.absorb2)
  have buf: "buf = snappy_stream data @ drop len buf" using c(5) by (metis append_take_drop_id)
  show "\<exists>rest a'. c_snappy (data @ pad) (length data) out (snappy_max_compressed_length (length data)) a =
        Inr (0, snappy_stream data @ rest, length (snappy_stream data), a') \<and> snappy_usable scratch0 a'
      \<and> length (snappy_stream data @ rest) = length out"
    using a c(1-3) e(1) len buf by (intro exI [of _ "drop len buf"] exI [of _ "Some e'"]) (simp add: c_snappy_def snappy_usable_def)
next
  fix a :: "snappy_env option" and data buf2 rest :: buffer
  assume a: "snappy_usable scratch0 a" and n: "below_2GiB data" and buf2: "length buf2 = length data"
    and l: "length (snappy_stream data @ rest) = snappy_max_compressed_length (length data)"
  have d: "snappy_decode (snappy_stream data) = Some data" using n by (simp add: snappy_decode_reference below_2GiB_def)
  have "length (snappy_stream data) < 2 ^ 32" using l n by (simp add: snappy_max_compressed_length_def below_2GiB_def)
  then show "\<exists>a'. d_snappy scratch0 (snappy_stream data @ rest) (length (snappy_stream data)) buf2 (length data) a = Inr (0, data, a')
      \<and> snappy_usable scratch0 a'"
    using uncompress_sg_stream [of "length (snappy_stream data)" "snappy_stream data @ rest" scratch0 data buf2] d a buf2
    by (auto simp: d_snappy_def snappy_usable_def)
qed

text \<open>
  fastlz as its documentation describes it, on the data that \<open>fits\<close>: the functions return the length of the compressed form and of the data.
\<close>

definition fastlz_restores ::
    "(buffer \<Rightarrow> nat \<Rightarrow> buffer \<Rightarrow> (nat \<times> buffer) c_result) \<Rightarrow> (buffer \<Rightarrow> nat \<Rightarrow> buffer \<Rightarrow> nat \<Rightarrow> (nat \<times> buffer) c_result) \<Rightarrow>
     (buffer \<Rightarrow> bool) \<Rightarrow> (buffer \<Rightarrow> buffer) \<Rightarrow> bool" where
  "fastlz_restores fastlz_compress fastlz_decompress fits enc \<longleftrightarrow>
     (\<forall>data pad out. fits data \<and> length out = length data * 2 \<longrightarrow>
        data \<noteq> [] \<and> (\<exists>rest. fastlz_compress (data @ pad) (length data) out = Inr (length (enc data), enc data @ rest)
          \<and> length (enc data @ rest) = length out))
     \<and> (\<forall>data rest buf2. fits data \<and> length buf2 = length data \<longrightarrow>
        fastlz_decompress (enc data @ rest) (length (enc data)) buf2 (length data) = Inr (length data, data))"

lemma fastlz_codec:
  assumes "fastlz_restores fastlz_compress fastlz_decompress fits enc"
  shows "codec (c_fastlz fastlz_compress) (d_fastlz fastlz_decompress) (\<lambda>n. n * 2) (\<lambda>_. True) fits enc"
proof
  fix a :: unit and data out pad :: buffer
  assume "fits data" "length out = length data * 2"
  then obtain rest where "fastlz_compress (data @ pad) (length data) out = Inr (length (enc data), enc data @ rest)"
      "length (enc data @ rest) = length out"
    using assms unfolding fastlz_restores_def by blast
  then show "\<exists>rest a'. c_fastlz fastlz_compress (data @ pad) (length data) out (length data * 2) a =
      Inr (0, enc data @ rest, length (enc data), a') \<and> True \<and> length (enc data @ rest) = length out"
    by (simp add: c_fastlz_def)
next
  fix a :: unit and data rest buf2 :: buffer
  assume fits: "fits data" "length buf2 = length data"
  have "length (replicate (length data * 2) (0 :: u8)) = length data * 2" by simp
  with fits(1) have "data \<noteq> []" using assms unfolding fastlz_restores_def by blast
  moreover have "fastlz_decompress (enc data @ rest) (length (enc data)) buf2 (length data) = Inr (length data, data)"
    using fits assms by (simp add: fastlz_restores_def)
  ultimately show "\<exists>a'. d_fastlz fastlz_decompress (enc data @ rest) (length (enc data)) buf2 (length data) a = Inr (0, data, a') \<and> True"
    by (simp add: d_fastlz_def)
qed

end
