(* ===== verification/Snappy_Bench.thy ===== *)
theory Snappy_Bench
  imports Snappy_Glue Complex_Main
begin

text \<open>
  The benchmark \<^verbatim>\<open>bench.c\<close>, built with \<^verbatim>\<open>COMP\<close> and without \<^verbatim>\<open>SNAPREF\<close> and \<^verbatim>\<open>SIMPLE_PMU\<close> as in the \<^verbatim>\<open>Makefile\<close>. The cycle
  counters are left out: they only enter the last two numbers of a line of the report.
\<close>

section \<open>The benchmark loop\<close>

definition basen :: "string \<Rightarrow> string" where
  "basen s = (if CHR ''/'' \<in> set s then rev (takeWhile (\<lambda>c. c \<noteq> CHR ''/'') (rev s)) else s)"

definition bench_N :: nat where "bench_N = 10"

datatype bench_msg = Bench_perror string | Comp_failed string string int | Uncomp_failed string string int
  | Final_failed string int nat | Bench_line string string nat real \<comment> \<open>name, file, size and ratio, before it is rounded to two decimals\<close>

fun bench_loop ::
    "nat \<Rightarrow> 'a compress_fn \<Rightarrow> 'a uncompress_fn \<Rightarrow> string \<Rightarrow> string \<Rightarrow> buffer \<Rightarrow> nat \<Rightarrow> buffer \<Rightarrow> nat \<Rightarrow> nat \<Rightarrow> buffer \<Rightarrow> 'a \<Rightarrow>
     bench_msg list \<Rightarrow> (nat \<times> bench_msg list) c_result" where
  "bench_loop 0 c d names fn mem sz out orig_outlen outlen buf2 arg msgs = Inr (outlen, msgs)"
| "bench_loop (Suc k) c d names fn mem sz out orig_outlen outlen buf2 arg msgs =
     cbind (c mem sz out orig_outlen arg) (\<lambda>(err, out, outlen, arg).
     let msgs = (if err \<noteq> 0 then msgs @ [Comp_failed names fn err] else msgs) in
     cbind (d out outlen buf2 sz arg) (\<lambda>(err, buf2, arg).
     let msgs = (if err \<noteq> 0 then msgs @ [Uncomp_failed names fn err] else msgs) in
     cbind (compare buf2 mem sz) (\<lambda>pos.
     let msgs = (if pos \<ge> 0 then msgs @ [Final_failed names pos sz] else msgs) in
     bench_loop k c d names fn mem sz out orig_outlen outlen buf2 arg msgs)))"

definition bench_BENCH :: "('a, bench_msg list) bench" where
  "bench_BENCH c d names fn mem sz out outlen buf2 arg msgs =
     cbind (bench_loop (bench_N + 1) c d names fn mem sz out outlen outlen buf2 arg msgs) (\<lambda>(outlen, msgs).
       Inr (msgs @ [Bench_line names (basen fn) sz (real outlen / real sz)]))"

section \<open>The program\<close>

text \<open>The compressors that are not part of the repository, with the initial states that the tests give them.\<close>

record ('m, 'z, 'q) comp_libs =
  lzo1x_1_compress :: "'m compress_fn"
  lzo1x_decompress_safe :: "buffer \<Rightarrow> nat \<Rightarrow> buffer \<Rightarrow> nat \<Rightarrow> (int \<times> buffer \<times> nat) c_result"
  zeroed_wmem :: 'm
  zlib_lib :: "'z zlib"
  blank_stream :: "'z z_stream"
  lzf_compress :: "buffer \<Rightarrow> nat \<Rightarrow> buffer \<Rightarrow> nat \<Rightarrow> (nat \<times> buffer) c_result"
  lzf_decompress :: "buffer \<Rightarrow> nat \<Rightarrow> buffer \<Rightarrow> nat \<Rightarrow> (nat \<times> buffer) c_result"
  quicklz_lib :: "'q quicklz"
  zeroed_state :: 'q
  fastlz_compress :: "buffer \<Rightarrow> nat \<Rightarrow> buffer \<Rightarrow> (nat \<times> buffer) c_result"
  fastlz_decompress :: "buffer \<Rightarrow> nat \<Rightarrow> buffer \<Rightarrow> nat \<Rightarrow> (nat \<times> buffer) c_result"

text \<open>One byte of every page is read. The loop variable is an \<^verbatim>\<open>int\<close>: its overflow has no defined result.\<close>

function touch_pages :: "buffer \<Rightarrow> nat \<Rightarrow> nat \<Rightarrow> unit c_result" where
  "touch_pages mem sz i =
     (if i < sz then
        cbind (load8 mem i) (\<lambda>_. if i + 4096 \<ge> 2 ^ 31 then Inl Invalid_access else touch_pages mem sz (i + 4096))
      else Inr ())"
  by pat_completeness auto
termination
  by (relation "measure (\<lambda>(mem, sz, i). sz - i)") auto

declare touch_pages.simps [simp del]

definition bench_file ::
    "tool_env \<Rightarrow> ('m, 'z, 'q) comp_libs \<Rightarrow> (string \<rightharpoonup> buffer) \<Rightarrow> bool \<Rightarrow> snappy_env \<Rightarrow> string \<Rightarrow> bench_msg list \<Rightarrow> bench_msg list run" where
  "bench_file env libs fs snappy_only snap fn msgs =
     (case mapfile env fs fn None of
        (None, _) \<Rightarrow> Inr (False, msgs @ [Bench_perror fn])
      | (Some mem, None) \<Rightarrow> Inl Uninitialised_read
      | (Some mem, Some sz) \<Rightarrow>
          cbind (touch_pages mem sz 0) (\<lambda>_.
          and_then (test_lz4 env bench_BENCH (fastlz_compress libs) (fastlz_decompress libs) mem sz fn msgs) (\<lambda>msgs.
          and_then (test_snappy env bench_BENCH snap mem sz fn msgs) (\<lambda>msgs.
          if snappy_only then Inr (True, msgs)
          else
            and_then (test_lzo env bench_BENCH (lzo1x_1_compress libs) (lzo1x_decompress_safe libs) (zeroed_wmem libs) mem sz fn msgs) (\<lambda>msgs.
            and_then (test_zlib env bench_BENCH (zlib_lib libs) (blank_stream libs) mem sz fn 1 msgs) (\<lambda>msgs.
            and_then (test_zlib env bench_BENCH (zlib_lib libs) (blank_stream libs) mem sz fn 3 msgs) (\<lambda>msgs.
            and_then (test_lzf env bench_BENCH (lzf_compress libs) (lzf_decompress libs) mem sz fn msgs) (\<lambda>msgs.
            and_then (test_quicklz env bench_BENCH (quicklz_lib libs) (zeroed_state libs) mem sz fn msgs) (\<lambda>msgs.
            test_fastlz env bench_BENCH (fastlz_compress libs) (fastlz_decompress libs) mem sz fn msgs)))))))))"

fun bench_files ::
    "tool_env \<Rightarrow> ('m, 'z, 'q) comp_libs \<Rightarrow> (string \<rightharpoonup> buffer) \<Rightarrow> bool \<Rightarrow> snappy_env \<Rightarrow> string list \<Rightarrow> bench_msg list \<Rightarrow> bench_msg list run" where
  "bench_files env libs fs snappy_only snap [] msgs = Inr (True, msgs)"
| "bench_files env libs fs snappy_only snap (fn # fns) msgs =
     and_then (bench_file env libs fs snappy_only snap fn msgs) (bench_files env libs fs snappy_only snap fns)"

text \<open>\<open>av\<close> are the arguments behind the name of the program; the result is the exit status and what was printed.\<close>

definition bench_main ::
    "tool_env \<Rightarrow> ('m, 'z, 'q) comp_libs \<Rightarrow> (string \<rightharpoonup> buffer) \<Rightarrow> snappy_env \<Rightarrow> string list \<Rightarrow> (int \<times> bench_msg list) c_result" where
  "bench_main env libs fs snap av =
    (let snappy_only = (av \<noteq> [] \<and> hd av = ''-s'') in
     cbind (bench_files env libs fs snappy_only snap (if snappy_only then tl av else av) []) (\<lambda>(goes_on, msgs).
       Inr (if goes_on then 0 else 1, msgs)))"

section \<open>A codec passes its benchmark\<close>

text \<open>\<^verbatim>\<open>basen\<close> gives the part behind the last slash.\<close>

lemma basen_append: "CHR ''/'' \<notin> set b \<Longrightarrow> basen (a @ CHR ''/'' # b) = b"
  by (subst basen_def, simp, subst takeWhile_append2) auto

lemma basen_plain: "CHR ''/'' \<notin> set s \<Longrightarrow> basen s = s"
  by (simp add: basen_def)

lemma compare_from_same: "length data = n \<Longrightarrow> compare_from data (data @ pad) n i = Inr (- 1)"
proof (induction "n - i" arbitrary: i)
  case (Suc k)
  then have "compare_from data (data @ pad) n (i + 1) = Inr (- 1)" by simp
  then show ?case using Suc.prems by (simp add: compare_from.simps [of data _ n i] load8_ok nth_append)
qed (simp add: compare_from.simps)

lemma compare_same: "compare data (data @ pad) (length data) = Inr (- 1)"
  by (simp add: compare_def compare_from_same)

lemma touch_pages_ok: "sz \<le> length mem \<Longrightarrow> sz < 2 ^ 31 - 4096 \<Longrightarrow> touch_pages mem sz i = Inr ()"
proof (induction mem sz i rule: touch_pages.induct)
  case (1 mem sz i)
  then show ?case by (cases "i < sz") (simp_all add: touch_pages.simps [of mem sz i] load8_ok)
qed

context codec
begin

lemma loop_passes:
  assumes "usable a" "fits data" "length out = cap (length data)" "length buf2 = length data"
  shows "bench_loop (Suc k) c d names fn (data @ pad) (length data) out (cap (length data)) outlen buf2 a msgs = Inr (length (enc data), msgs)"
  using assms
proof (induction k arbitrary: a out outlen buf2)
  case (Suc k)
  obtain rest a' where c: "c (data @ pad) (length data) out (cap (length data)) a = Inr (0, enc data @ rest, length (enc data), a')"
      "usable a'" "length (enc data @ rest) = length out" using compresses [OF Suc.prems(1-3)] by blast
  obtain a'' where "d (enc data @ rest) (length (enc data)) buf2 (length data) a' = Inr (0, data, a'')" "usable a''"
    using restores [OF c(2) Suc.prems(2,4)] c(3) Suc.prems(3) by metis
  then show ?case using c Suc.IH [of a'' "enc data @ rest" data] Suc.prems by (simp add: compare_same)
next
  case 0
  obtain rest a' where c: "c (data @ pad) (length data) out (cap (length data)) a = Inr (0, enc data @ rest, length (enc data), a')"
      "usable a'" "length (enc data @ rest) = length out" using compresses [OF 0(1-3)] by blast
  obtain a'' where "d (enc data @ rest) (length (enc data)) buf2 (length data) a' = Inr (0, data, a'')" "usable a''"
    using restores [OF c(2) 0(2,4)] c(3) 0(3) by metis
  then show ?case using c(1) by (simp add: compare_same)
qed

lemma test_passes:
  assumes "tools_ok env" "usable a" "fits data"
  shows "test_codec env bench_BENCH c d names fn (data @ pad) (length data) (cap (length data)) a msgs =
    Inr (True, msgs @ [Bench_line names (basen fn) (length data) (real (length (enc data)) / real (length data))])"
proof -
  obtain out buf2 where "heap_mem env (cap (length data)) = Some out" "length out = cap (length data)"
      "heap_mem env (length data) = Some buf2" "length buf2 = length data"
    using tools_okD(6) [OF assms(1)] by metis
  then show ?thesis
    using loop_passes [OF assms(2,3), of out buf2 bench_N]
    by (simp add: test_codec_def xmalloc_def bench_BENCH_def del: bench_loop.simps)
qed

end

lemma snappy_benchmark:
  assumes "tools_ok env" "length data < 2 ^ 31"
  shows "test_snappy env bench_BENCH snap (data @ pad) (length data) fn msgs =
    Inr (True, msgs @ [Bench_line ''snappy'' (basen fn) (length data) (real (length (snappy_stream data)) / real (length data))])"
  unfolding test_snappy_def
  by (rule snappy.test_passes [OF assms(1)]) (use tools_okD(5,7) [OF assms(1)] assms(2) in \<open>simp_all add: snappy_usable_def below_2GiB_def\<close>)

text \<open>
  The lines of \<^verbatim>\<open>bench -s\<close>; the ratios are those of the reference compressor and of fastlz.
\<close>

definition bench_lines :: "(buffer \<Rightarrow> buffer) \<Rightarrow> (string \<rightharpoonup> buffer) \<Rightarrow> string \<Rightarrow> bench_msg list" where
  "bench_lines enc fs fn =
    (let data = the (fs fn) in
     [Bench_line ''lz4'' (basen fn) (length data) (real (length (enc data)) / real (length data)),
      Bench_line ''snappy'' (basen fn) (length data) (real (length (snappy_stream data)) / real (length data))])"

definition bench_file_ok :: "(buffer \<Rightarrow> bool) \<Rightarrow> (string \<rightharpoonup> buffer) \<Rightarrow> string \<Rightarrow> bool" where
  "bench_file_ok fits fs fn \<longleftrightarrow> (case fs fn of None \<Rightarrow> False | Some data \<Rightarrow> data \<noteq> [] \<and> fits data \<and> length data < 2 ^ 31 - 4096)"

lemma bench_file_passes:
  assumes "tools_ok env" "fastlz_restores (fastlz_compress libs) (fastlz_decompress libs) fits enc" "bench_file_ok fits fs fn"
  shows "bench_file env libs fs True snap fn msgs = Inr (True, msgs @ bench_lines enc fs fn)"
proof -
  obtain data where d: "fs fn = Some data" "data \<noteq> []" "fits data" "length data < 2 ^ 31 - 4096"
    using assms(3) by (auto simp: bench_file_ok_def split: option.splits)
  obtain pad where m: "mapfile env fs fn None = (Some (data @ pad), Some (length data))"
    using mapfile_ok [where sz = None and fs = fs, OF assms(1) d(1,2)] by blast
  have "test_lz4 env bench_BENCH (fastlz_compress libs) (fastlz_decompress libs) (data @ pad) (length data) fn msgs =
      Inr (True, msgs @ [Bench_line ''lz4'' (basen fn) (length data) (real (length (enc data)) / real (length data))])"
    unfolding test_lz4_def using codec.test_passes [OF fastlz_codec [OF assms(2)] assms(1) TrueI d(3)] by simp
  then show ?thesis
    using m d touch_pages_ok [of "length data" "data @ pad" 0] snappy_benchmark [OF assms(1), of data]
    by (simp add: bench_file_def and_then_def bench_lines_def)
qed

lemma bench_files_pass:
  assumes "tools_ok env" "fastlz_restores (fastlz_compress libs) (fastlz_decompress libs) fits enc" "\<forall>fn \<in> set fns. bench_file_ok fits fs fn"
  shows "bench_files env libs fs True snap fns msgs = Inr (True, msgs @ concat (map (bench_lines enc fs) fns))"
  using assms(3)
  by (induction fns arbitrary: msgs) (simp_all add: and_then_def bench_file_passes [OF assms(1,2)])

text \<open>
  C28. \<^verbatim>\<open>bench -s\<close> finds nothing wrong: on files that are not empty, with memory and with a fastlz that does what it documents (the test named
  lz4 runs it, also with \<^verbatim>\<open>-s\<close>), the eleven rounds of each test report no failed call and no difference, and the program prints for
  each file one line for lz4 and one for snappy, whose ratio is the size of the reference compressor's stream by that of the file, and exits with 0.
\<close>

theorem bench_passes:
  assumes "tools_ok env" "fastlz_restores (fastlz_compress libs) (fastlz_decompress libs) fits enc" "\<forall>fn \<in> set fns. bench_file_ok fits fs fn"
  shows "bench_main env libs fs snap (''-s'' # fns) = Inr (0, concat (map (bench_lines enc fs) fns))"
  using bench_files_pass [OF assms] by (simp add: bench_main_def Let_def)

text \<open>A library that copies, for the other compressors.\<close>

definition copied :: "buffer \<Rightarrow> nat \<Rightarrow> buffer \<Rightarrow> (nat \<times> buffer) c_result" where
  "copied mem n out = cbind (load_bytes mem 0 n) (\<lambda>bs. cbind (store_bytes out 0 bs) (\<lambda>out. Inr (n, out)))"

definition example_zlib :: "unit zlib" where
  "example_zlib = \<lparr>Z_OK = 0, Z_STREAM_END = 1, Z_FINISH = 4, zlib_deflate = (\<lambda>s _. Inr (- 2, s)), zlib_deflateReset = (\<lambda>s. Inr (0, s)),
     zlib_inflate = (\<lambda>s _. Inr (- 2, s)), zlib_inflateReset = (\<lambda>s. Inr (0, s)), zlib_deflateInit = (\<lambda>s _. Inr (0, s)),
     zlib_inflateInit = (\<lambda>s. Inr (0, s))\<rparr>"

definition example_libs :: "(unit, unit, unit) comp_libs" where
  "example_libs = \<lparr>lzo1x_1_compress = (\<lambda>mem n out outlen a. cbind (copied mem n out) (\<lambda>(n, out). Inr (0, out, n, a))),
     lzo1x_decompress_safe = (\<lambda>out outlen buf2 sz. cbind (copied out outlen buf2) (\<lambda>(n, buf2). Inr (0, buf2, n))), zeroed_wmem = (),
     zlib_lib = example_zlib,
     blank_stream = \<lparr>next_in = [], avail_in = 0, total_in = 0, next_out = [], avail_out = 0, total_out = 0, z_rest = ()\<rparr>,
     lzf_compress = (\<lambda>mem n out outlen. copied mem n out), lzf_decompress = (\<lambda>out outlen buf2 sz. copied out outlen buf2),
     quicklz_lib = \<lparr>qlz_compress = (\<lambda>mem out n a. Inr (0, out, a)), qlz_size_compressed = (\<lambda>out. Inr 0),
       qlz_decompress = (\<lambda>out buf2 a. Inr (0, buf2, a))\<rparr>, zeroed_state = (),
     fastlz_compress = copied, fastlz_decompress = (\<lambda>out outlen buf2 sz. copied out outlen buf2)\<rparr>"

lemma example_fastlz:
  "fastlz_restores (fastlz_compress example_libs) (fastlz_decompress example_libs) (\<lambda>data. data \<noteq> []) (\<lambda>data. data)"
  by (auto simp: fastlz_restores_def example_libs_def copied_def mem_simps)

theorem bench_passes_witness:
  "bench_main example_tools example_libs [''d/a'' \<mapsto> [7, 7, 7]] example_env [''-s'', ''d/a''] =
    Inr (0, [Bench_line ''lz4'' ''a'' 3 1, Bench_line ''snappy'' ''a'' 3 (real (length (snappy_stream [7, 7, 7])) / 3)])"
proof -
  have "\<forall>fn \<in> set [''d/a'']. bench_file_ok (\<lambda>data. data \<noteq> []) [''d/a'' \<mapsto> [7, 7, 7]] fn" by (simp add: bench_file_ok_def)
  from bench_passes [OF example_tools_ok example_fastlz this, of example_env] show ?thesis
    by (simp add: bench_lines_def basen_def)
qed

end
