(* ===== verification/Snappy_Fuzzer.thy ===== *)
theory Snappy_Fuzzer
  imports Snappy_Bench
begin

text \<open>
  The program \<^verbatim>\<open>fuzzer.c\<close>: it compresses a file, damages the compressed form at random again and again and decompresses it. The results of
  \<^verbatim>\<open>rand\<close> after \<^verbatim>\<open>srand(seed)\<close> are an argument, a function of the number of calls made before.
\<close>

section \<open>Damaging a buffer\<close>

definition seed :: nat where "seed = 1312816253"
definition bits :: nat where "bits = 1"
definition fuzz :: nat where "fuzz = 20"
definition runs1 :: nat where "runs1 = 5000"
definition runs2 :: nat where "runs2 = 100"

text \<open>The loop over the bits from \<open>w\<close> on, with the assignment as an argument.\<close>

fun fuzz_bits :: "(nat \<Rightarrow> u8 \<Rightarrow> u8) \<Rightarrow> nat \<Rightarrow> nat \<Rightarrow> buffer \<Rightarrow> buffer c_result" where
  "fuzz_bits f 0 w file = Inr file"
| "fuzz_bits f (Suc n) w file =
     cbind (load8 file (w div 8)) (\<lambda>b. cbind (store8 file (w div 8) (f w b)) (fuzz_bits f n (w + 1)))"

text \<open>
  The expressions are of type \<^verbatim>\<open>unsigned\<close> and cut to a \<^verbatim>\<open>char\<close> when they are assigned. The one of case 3 does not mask \<^verbatim>\<open>val\<close>.
\<close>

definition flip_bit :: "nat \<Rightarrow> u8 \<Rightarrow> u8" where
  "flip_bit w b = ucast ((ucast b :: u32) XOR push_bit (w mod 8) 1)"

definition set_bit_on :: "nat \<Rightarrow> u8 \<Rightarrow> u8" where
  "set_bit_on w b = ucast ((ucast b :: u32) OR push_bit (w mod 8) 1)"

definition put_val :: "u32 \<Rightarrow> nat \<Rightarrow> nat \<Rightarrow> u8 \<Rightarrow> u8" where
  "put_val val offset w b =
     ucast ((ucast b AND NOT (push_bit (w mod 8) 1)) OR push_bit (w mod 8) (drop_bit (w - offset) val) :: u32)"

text \<open>One round of the loop, with the number of calls of \<^verbatim>\<open>rand\<close>. A size of 0 is a division by zero.\<close>

definition fuzz_once :: "(nat \<Rightarrow> nat) \<Rightarrow> buffer \<Rightarrow> nat \<Rightarrow> nat \<Rightarrow> (buffer \<times> nat) c_result" where
  "fuzz_once rnd file sz calls =
    (let r = word_of_nat (rnd calls) :: u32; mode = unat (r AND 3); r = drop_bit 2 r in
     if sz = 0 then Inl Division_by_zero
     else
       let offset = unat r mod (sz * 8) in
       if mode \<le> 1 then cbind (fuzz_bits flip_bit bits offset file) (\<lambda>file. Inr (file, calls + 1))
       else if mode = 2 then cbind (fuzz_bits set_bit_on bits offset file) (\<lambda>file. Inr (file, calls + 1))
       else
         cbind (fuzz_bits (put_val (word_of_nat (rnd (calls + 1))) offset) bits offset file) (\<lambda>file. Inr (file, calls + 2)))"

fun fuzz_times :: "nat \<Rightarrow> (nat \<Rightarrow> nat) \<Rightarrow> buffer \<Rightarrow> nat \<Rightarrow> nat \<Rightarrow> (buffer \<times> nat) c_result" where
  "fuzz_times 0 rnd file sz calls = Inr (file, calls)"
| "fuzz_times (Suc n) rnd file sz calls =
     cbind (fuzz_once rnd file sz calls) (\<lambda>(file, calls). fuzz_times n rnd file sz calls)"

definition fuzzbuf :: "(nat \<Rightarrow> nat) \<Rightarrow> buffer \<Rightarrow> nat \<Rightarrow> nat \<Rightarrow> (buffer \<times> nat) c_result" where
  "fuzzbuf rnd file sz calls = fuzz_times fuzz rnd file sz calls"

section \<open>The fuzzing loop\<close>

datatype fuzz_msg = Fuzz_perror string | Fuzz_test string | Fuzz_comp_failed string string int

record fuzz_state =
  rand_calls :: nat
  fuzz_msgs :: "fuzz_msg list"

text \<open>The inner loop: the compressed form is damaged further in every round; the result of the decompressor is not looked at.\<close>

fun fuzz_inner ::
    "nat \<Rightarrow> (nat \<Rightarrow> nat) \<Rightarrow> 'a uncompress_fn \<Rightarrow> buffer \<Rightarrow> nat \<Rightarrow> buffer \<Rightarrow> nat \<Rightarrow> 'a \<Rightarrow> nat \<Rightarrow> (buffer \<times> buffer \<times> 'a \<times> nat) c_result" where
  "fuzz_inner 0 rnd d out outlen buf2 sz arg calls = Inr (out, buf2, arg, calls)"
| "fuzz_inner (Suc i) rnd d out outlen buf2 sz arg calls =
     cbind (fuzzbuf rnd out outlen calls) (\<lambda>(out, calls).
     cbind (d out outlen buf2 sz arg) (\<lambda>(err, buf2, arg).
       fuzz_inner i rnd d out outlen buf2 sz arg calls))"

fun fuzz_loop ::
    "nat \<Rightarrow> (nat \<Rightarrow> nat) \<Rightarrow> 'a compress_fn \<Rightarrow> 'a uncompress_fn \<Rightarrow> string \<Rightarrow> string \<Rightarrow> buffer \<Rightarrow> nat \<Rightarrow> buffer \<Rightarrow> nat \<Rightarrow> buffer \<Rightarrow> 'a \<Rightarrow>
     fuzz_state \<Rightarrow> fuzz_state c_result" where
  "fuzz_loop 0 rnd c d names fn mem sz out orig_outlen buf2 arg s = Inr s"
| "fuzz_loop (Suc k) rnd c d names fn mem sz out orig_outlen buf2 arg s =
     cbind (c mem sz out orig_outlen arg) (\<lambda>(err, out, outlen, arg).
     let msgs = (if err \<noteq> 0 then fuzz_msgs s @ [Fuzz_comp_failed names fn err] else fuzz_msgs s) in
     cbind (fuzz_inner runs2 rnd d out outlen buf2 sz arg (rand_calls s)) (\<lambda>(out, buf2, arg, calls).
       fuzz_loop k rnd c d names fn mem sz out orig_outlen buf2 arg \<lparr>rand_calls = calls, fuzz_msgs = msgs\<rparr>))"

definition fuzz_BENCH :: "(nat \<Rightarrow> nat) \<Rightarrow> ('a, fuzz_state) bench" where
  "fuzz_BENCH rnd c d names fn mem sz out outlen buf2 arg s = fuzz_loop runs1 rnd c d names fn mem sz out outlen buf2 arg s"

section \<open>The program\<close>

definition fuzz_print :: "fuzz_msg \<Rightarrow> fuzz_state \<Rightarrow> fuzz_state" where
  "fuzz_print m s = s\<lparr>fuzz_msgs := fuzz_msgs s @ [m]\<rparr>"

definition fuzzfile ::
    "tool_env \<Rightarrow> (nat \<Rightarrow> nat) \<Rightarrow> ('m, 'z, 'q) comp_libs \<Rightarrow> (string \<rightharpoonup> buffer) \<Rightarrow> snappy_env \<Rightarrow> string \<Rightarrow> fuzz_state \<Rightarrow> fuzz_state run" where
  "fuzzfile env rnd libs fs snap fn s =
     (case mapfile_flag env fs fn None of
        (None, _) \<Rightarrow> Inr (True, fuzz_print (Fuzz_perror fn) s)
      | (Some mem, None) \<Rightarrow> Inl Uninitialised_read
      | (Some mem, Some sz) \<Rightarrow>
          and_then (test_snappy env (fuzz_BENCH rnd) snap mem sz fn (fuzz_print (Fuzz_test ''snappy'') s)) (\<lambda>s.
          and_then (test_lzo env (fuzz_BENCH rnd) (lzo1x_1_compress libs) (lzo1x_decompress_safe libs) (zeroed_wmem libs) mem sz fn
            (fuzz_print (Fuzz_test ''lzo'') s)) (\<lambda>s.
          and_then (test_zlib env (fuzz_BENCH rnd) (zlib_lib libs) (blank_stream libs) mem sz fn 1 (fuzz_print (Fuzz_test ''zlib1'') s)) (\<lambda>s.
          test_zlib env (fuzz_BENCH rnd) (zlib_lib libs) (blank_stream libs) mem sz fn 3 (fuzz_print (Fuzz_test ''zlib3'') s)))))"

fun fuzzfiles ::
    "tool_env \<Rightarrow> (nat \<Rightarrow> nat) \<Rightarrow> ('m, 'z, 'q) comp_libs \<Rightarrow> (string \<rightharpoonup> buffer) \<Rightarrow> snappy_env \<Rightarrow> string list \<Rightarrow> fuzz_state \<Rightarrow> fuzz_state run" where
  "fuzzfiles env rnd libs fs snap [] s = Inr (True, s)"
| "fuzzfiles env rnd libs fs snap (fn # fns) s = and_then (fuzzfile env rnd libs fs snap fn s) (fuzzfiles env rnd libs fs snap fns)"

text \<open>\<open>rand_after\<close> is the generator after \<^verbatim>\<open>srand\<close>; the result is the exit status and the state.\<close>

definition fuzzer_main ::
    "tool_env \<Rightarrow> (nat \<Rightarrow> nat \<Rightarrow> nat) \<Rightarrow> ('m, 'z, 'q) comp_libs \<Rightarrow> (string \<rightharpoonup> buffer) \<Rightarrow> snappy_env \<Rightarrow> string list \<Rightarrow>
     (int \<times> fuzz_state) c_result" where
  "fuzzer_main env rand_after libs fs snap av =
     cbind (fuzzfiles env (rand_after seed) libs fs snap av \<lparr>rand_calls = 0, fuzz_msgs = []\<rparr>) (\<lambda>(goes_on, s).
       Inr (if goes_on then 0 else 1, s))"

section \<open>The damage stays inside the buffer\<close>

lemma store8_update: "i < length b \<Longrightarrow> store8 b i x = Inr (b[i := x])"
  by (simp add: store8_def mem_simps upd_conv_take_nth_drop)

text \<open>The positions at which two buffers differ.\<close>

definition differing :: "buffer \<Rightarrow> buffer \<Rightarrow> nat set" where
  "differing a b = {i. i < length a \<and> a ! i \<noteq> b ! i}"

lemma differing_update: "differing b (b[i := x]) \<subseteq> {i}"
proof
  fix j
  assume "j \<in> differing b (b[i := x])"
  then show "j \<in> {i}" by (cases "i = j") (simp_all add: differing_def)
qed

lemma differing_trans: "length a = length b \<Longrightarrow> differing a c \<subseteq> differing a b \<union> differing b c"
  by (auto simp: differing_def)

lemma fuzz_bit_one:
  assumes "w < sz * 8" "sz \<le> length buf"
  shows "fuzz_bits f bits w buf = Inr (buf[w div 8 := f w (buf ! (w div 8))])"
proof -
  have "w div 8 < length buf" using assms by auto
  then show ?thesis by (simp add: bits_def load8_ok store8_update)
qed

lemma fuzz_once_ok:
  assumes "0 < sz" "sz \<le> length buf"
  shows "\<exists>i x calls'. fuzz_once rnd buf sz calls = Inr (buf[i := x], calls') \<and> i < sz \<and> calls < calls' \<and> calls' \<le> calls + 2"
proof -
  define w where "w = unat (drop_bit 2 (word_of_nat (rnd calls) :: u32)) mod (sz * 8)"
  have w: "w < sz * 8" using assms(1) by (simp add: w_def)
  then have "w div 8 < sz" by (simp add: less_mult_imp_div_less)
  then show ?thesis
    using fuzz_bit_one [OF w assms(2)] assms(1) by (auto simp: fuzz_once_def Let_def simp flip: w_def)
qed

lemma fuzz_times_ok:
  assumes "0 < sz" "sz \<le> length buf"
  shows "\<exists>buf' calls'. fuzz_times n rnd buf sz calls = Inr (buf', calls') \<and> length buf' = length buf
    \<and> differing buf buf' \<subseteq> {..<sz} \<and> card (differing buf buf') \<le> n \<and> calls + n \<le> calls' \<and> calls' \<le> calls + 2 * n"
  using assms(2)
proof (induct n arbitrary: buf calls)
  case 0
  then show ?case by (simp add: differing_def)
next
  case (Suc n)
  obtain i x calls1 where o1: "fuzz_once rnd buf sz calls = Inr (buf[i := x], calls1)" "i < sz" "calls < calls1" "calls1 \<le> calls + 2"
    using fuzz_once_ok [OF assms(1) Suc.prems] by blast
  obtain buf' calls' where t: "fuzz_times n rnd (buf[i := x]) sz calls1 = Inr (buf', calls')" "length buf' = length buf"
      "differing (buf[i := x]) buf' \<subseteq> {..<sz}" "card (differing (buf[i := x]) buf') \<le> n" "calls1 + n \<le> calls'" "calls' \<le> calls1 + 2 * n"
    using Suc.hyps [of "buf[i := x]" calls1] Suc.prems by auto
  have sub: "differing buf buf' \<subseteq> insert i (differing (buf[i := x]) buf')"
    using differing_trans [of buf "buf[i := x]" buf'] differing_update [of buf i x] by auto
  have "finite (differing (buf[i := x]) buf')" by (simp add: differing_def)
  then have "card (differing buf buf') \<le> Suc n"
    using card_mono [OF _ sub] t(4) by (fastforce simp: card_insert_if split: if_splits)
  then show ?case using o1 t sub by (intro exI [of _ buf'] exI [of _ calls']) auto
qed

text \<open>
  \<^verbatim>\<open>fuzzbuf\<close> stays inside the buffer it is given: for any random numbers and any size that is not 0 it returns, changes at most
  twenty bytes, all of them below the size, and calls \<^verbatim>\<open>rand\<close> between twenty and forty times.
\<close>

theorem fuzzbuf_in_bounds:
  assumes "0 < sz" "sz \<le> length buf"
  shows "\<exists>buf' calls'. fuzzbuf rnd buf sz calls = Inr (buf', calls') \<and> length buf' = length buf
    \<and> {i. i < length buf \<and> buf ! i \<noteq> buf' ! i} \<subseteq> {..<sz} \<and> card {i. i < length buf \<and> buf ! i \<noteq> buf' ! i} \<le> 20
    \<and> calls + 20 \<le> calls' \<and> calls' \<le> calls + 40"
  using fuzz_times_ok [OF assms, of fuzz rnd calls] by (simp add: fuzzbuf_def fuzz_def differing_def)

theorem fuzzbuf_in_bounds_witness:
  "\<exists>buf' calls'. fuzzbuf (\<lambda>k. 7 * k) [1, 2, 3] 2 0 = Inr (buf', calls') \<and> length buf' = 3"
  using fuzzbuf_in_bounds [of 2 "[1, 2, 3]" "\<lambda>k. 7 * k" 0] by auto

section \<open>Decompressing damaged streams\<close>

text \<open>
  The damage can reach the length at the start of the stream, and then \<^verbatim>\<open>snappy_uncompress\<close> writes as much as the stream says.
  The random numbers here flip one bit of the length, one of the tag of the literal, whose second byte then is the tag of a
  copy, and an even number of times the first bit of the stream.
\<close>

definition unlucky_rand :: "nat \<Rightarrow> nat" where
  "unlucky_rand k = (if k = 0 then 16 else if k = 1 then 44 else 0)"

lemma unlucky_stream: "snappy_stream [7, 29, 1] = [3, 8, 7, 29, 1]"
proof -
  have "stream_elements [7, 29, 1] = [Literal [7, 29, 1]]"
    by (simp add: stream_elements.simps kblock_size_def fragment_elements_def)
  moreover have "varint_bytes 3 = [3]" "encode_element (Literal [7, 29, 1]) = [8, 7, 29, 1]" by code_simp+
  ultimately show ?thesis by (simp add: snappy_stream_def)
qed

lemma unlucky_damage: "fuzzbuf unlucky_rand [3, 8, 7, 29, 1] 5 0 = Inr ([19, 0, 7, 29, 1], 20)"
  by code_simp

lemma unlucky_decompress: "d_snappy (replicate 5 0) [19, 0, 7, 29, 1] 5 (replicate 3 0) 3 None = Inl Invalid_access"
  by code_simp

text \<open>
  The fuzzer can bring itself down: the stream of a file of three bytes, damaged as some random numbers damage it, announces 19 bytes, and the
  first round of the inner loop writes behind the three bytes of \<^verbatim>\<open>buf2\<close>, since \<^verbatim>\<open>snappy_uncompress\<close> is not told its size.
\<close>

theorem fuzzer_overruns_buffer:
  "fuzz_inner runs2 unlucky_rand (d_snappy (replicate 5 0)) (snappy_stream [7, 29, 1]) (length (snappy_stream [7, 29, 1]))
     (replicate 3 0) 3 None 0 = Inl Invalid_access"
proof -
  have "fuzz_inner (Suc 99) unlucky_rand (d_snappy (replicate 5 0)) [3, 8, 7, 29, 1] 5 (replicate 3 0) 3 None 0 = Inl Invalid_access"
    unfolding fuzz_inner.simps(2) unlucky_damage cbind_Inr prod.case unlucky_decompress by simp
  moreover have "length [3, 8, 7, 29, 1 :: u8] = 5" "runs2 = Suc 99" by (simp_all add: runs2_def)
  ultimately show ?thesis unfolding unlucky_stream by (simp only:)
qed

end
