(* ===== verification/Snappy_Portable.thy ===== *)
theory Snappy_Portable
  imports Snappy_Writer
begin

text \<open>
  The branches of \<^verbatim>\<open>snappy.c\<close> for machines with pointers of four bytes: \<^verbatim>\<open>unaligned_copy64\<close> in two halves, and
  \<^verbatim>\<open>get_u32_at_offset\<close> on a pointer. They do what the branches of 64-bit machines do.
\<close>

section \<open>Definitions\<close>

definition UNALIGNED_STORE32 :: "buffer \<Rightarrow> nat \<Rightarrow> u32 \<Rightarrow> buffer c_result" where
  "UNALIGNED_STORE32 b p v = store_bytes b p (le_bytes 4 v)"

text \<open>
  Inside one memory, as the fast path uses it: the second half is read when the first has been written, which matters for
  distances below eight.
\<close>

definition unaligned_copy64_32 :: "buffer \<Rightarrow> nat \<Rightarrow> nat \<Rightarrow> buffer c_result" where
  "unaligned_copy64_32 mem src dst =
     cbind (UNALIGNED_LOAD32 mem src) (\<lambda>v.
     cbind (UNALIGNED_STORE32 mem dst v) (\<lambda>mem.
     cbind (UNALIGNED_LOAD32 mem (src + 4)) (\<lambda>v.
       UNALIGNED_STORE32 mem (dst + 4) v)))"

definition incremental_copy_fast_path_32 :: "buffer \<Rightarrow> nat \<Rightarrow> nat \<Rightarrow> int \<Rightarrow> buffer c_result" where
  "incremental_copy_fast_path_32 = fast_path_with unaligned_copy64_32"

text \<open>An \<^verbatim>\<open>eight_bytes_reference\<close> is a pointer here, and nothing is read before an offset is known.\<close>

definition get_eight_bytes_at_32 :: "buffer \<Rightarrow> nat \<Rightarrow> (buffer \<times> nat) c_result" where
  "get_eight_bytes_at_32 b p = Inr (b, p)"

definition get_u32_at_offset_32 :: "buffer \<times> nat \<Rightarrow> nat \<Rightarrow> u32 c_result" where
  "get_u32_at_offset_32 v offset =
     cbind (cassert (offset \<le> 4)) (\<lambda>_. case v of (b, p) \<Rightarrow> UNALIGNED_LOAD32 b (p + offset))"

section \<open>Copying\<close>

lemma copy4_ok:
  assumes "i + 4 \<le> length src" "j + 4 \<le> length dst"
  shows "cbind (UNALIGNED_LOAD32 src i) (\<lambda>v. UNALIGNED_STORE32 dst j v) = Inr (take j dst @ take 4 (drop i src) @ drop (j + 4) dst)"
proof -
  have "le_bytes 4 (le_word (take 4 (drop i src)) :: u32) = take 4 (drop i src)"
    using assms le_bytes_le_word [of "take 4 (drop i src)", where 'a = 32] by simp
  then show ?thesis using assms by (simp add: UNALIGNED_LOAD32_def UNALIGNED_STORE32_def mem_simps)
qed

lemma periodic_beyond:
  assumes "periodic b src d mem n" "n \<le> k" "length bs = m" "k + m \<le> length mem"
  shows "periodic b src d (take k mem @ bs @ drop (k + m) mem) n"
  using assms by (auto simp: periodic_def nth_append)

lemma unaligned_copy64_32_ok:
  assumes "s + 8 \<le> length mem" "n + 8 \<le> length mem"
  defines "mem1 \<equiv> take n mem @ take 4 (drop s mem) @ drop (n + 4) mem"
  shows "unaligned_copy64_32 mem s n = Inr (take (n + 4) mem1 @ take 4 (drop (s + 4) mem1) @ drop (n + 4 + 4) mem1)"
proof -
  have l: "length mem1 = length mem" using assms by (simp add: mem1_def)
  have "unaligned_copy64_32 mem s n = cbind (cbind (UNALIGNED_LOAD32 mem s) (\<lambda>v. UNALIGNED_STORE32 mem n v)) (\<lambda>mem.
      cbind (UNALIGNED_LOAD32 mem (s + 4)) (\<lambda>v. UNALIGNED_STORE32 mem (n + 4) v))"
    by (simp add: unaligned_copy64_32_def cbind_def split: sum.splits)
  also have "\<dots> = cbind (UNALIGNED_LOAD32 mem1 (s + 4)) (\<lambda>v. UNALIGNED_STORE32 mem1 (n + 4) v)"
    using assms copy4_ok [of s mem n mem] by simp
  finally show ?thesis using copy4_ok [of "s + 4" mem1 "n + 4" mem1] l assms by simp
qed

interpretation copy32: block_copy unaligned_copy64_32
proof
  fix b src d mem n s
  assume p: "periodic b src d mem n" and s: "src \<le> s" "s < n" "d dvd n - s" and l: "n + 8 \<le> length mem"
  define mem1 where "mem1 = take n mem @ take 4 (drop s mem) @ drop (n + 4) mem"
  have len: "length mem1 = length mem" using s l by (simp add: mem1_def)
  have p1: "periodic b src d mem1 (n + min 4 (n - s))"
    unfolding mem1_def by (rule periodic_extend [OF p s]) (use l in auto)
  have "periodic b src d (take (n + 4) mem1 @ take 4 (drop (s + 4) mem1) @ drop (n + 4 + 4) mem1) (n + min 8 (n - s))"
  proof (cases "n - s < 4")
    case True
    then show ?thesis using periodic_beyond [OF p1, of "n + 4" "take 4 (drop (s + 4) mem1)" 4] len l s by simp
  next
    case False
    then have "periodic b src d mem1 (n + 4)" using p1 by simp
    from periodic_extend [OF this, of "s + 4" "min 4 (n - s)" 4] show ?thesis
      using s l len False by (auto intro: periodic_weaken)
  qed
  then show "\<exists>mem'. unaligned_copy64_32 mem s n = Inr mem' \<and> periodic b src d mem' (n + min 8 (n - s))"
    using unaligned_copy64_32_ok [of s mem n] l s unfolding mem1_def by auto
qed

lemma periodic_unique: "periodic b src d mem n \<Longrightarrow> periodic b src d mem' n \<Longrightarrow> take n mem = take n mem'"
  by (rule nth_equalityI) (auto simp: periodic_def)

text \<open>
  C33. The three ways to copy inside the output agree: where the fast path is used, with ten bytes of room behind the copy, the copy
  in blocks of eight bytes of a 64-bit machine and the one in halves of a 32-bit machine both return and leave the same bytes up to the end of the
  copy as the copy of single bytes, for every distance, overlapping or not.
\<close>

theorem incremental_copies_agree:
  assumes "0 < d" "0 < n" "src + d + n + 10 \<le> length mem"
  shows "\<exists>m m64 m32. incremental_copy mem src (src + d) (int n) = Inr m
    \<and> incremental_copy_fast_path mem src (src + d) (int n) = Inr m64 \<and> incremental_copy_fast_path_32 mem src (src + d) (int n) = Inr m32
    \<and> take (src + d + n) m64 = take (src + d + n) m \<and> take (src + d + n) m32 = take (src + d + n) m
    \<and> length m = length mem \<and> length m64 = length mem \<and> length m32 = length mem"
proof -
  obtain m where m: "incremental_copy_loop mem src (src + d) (int n) = Inr m" "periodic mem src d m (src + d + n)"
    using incremental_copy_loop_periodic [of mem src d mem src n] periodic_init assms by auto
  obtain m64 where m64: "incremental_copy_fast_path mem src (src + d) (int n) = Inr m64" "periodic mem src d m64 (src + d + n)"
    using copy64.fast_path_periodic [OF assms] unfolding incremental_copy_fast_path_def by blast
  obtain m32 where m32: "incremental_copy_fast_path_32 mem src (src + d) (int n) = Inr m32" "periodic mem src d m32 (src + d + n)"
    using copy32.fast_path_periodic [OF assms] unfolding incremental_copy_fast_path_32_def by blast
  have "incremental_copy mem src (src + d) (int n) = Inr m" using m(1) assms(2) by (simp add: incremental_copy_def cassert_def)
  moreover have "length m = length mem" "length m64 = length mem" "length m32 = length mem"
    using m(2) m64(2) m32(2) by (simp_all add: periodic_def)
  ultimately show ?thesis
    using m64(1) m32(1) periodic_unique [OF m64(2) m(2)] periodic_unique [OF m32(2) m(2)] by blast
qed

theorem incremental_copies_agree_witness:
  "\<exists>m m32. incremental_copy ([1, 2, 3] @ replicate 20 0) 0 3 7 = Inr m
    \<and> incremental_copy_fast_path_32 ([1, 2, 3] @ replicate 20 0) 0 3 7 = Inr m32 \<and> take 10 m32 = take 10 m"
  using incremental_copies_agree [of 3 7 0 "[1, 2, 3] @ replicate 20 0"] by auto

section \<open>Reading at an offset\<close>

text \<open>Both representations of eight bytes give the same four bytes at every offset.\<close>

lemma get_u32_at_offset_eq:
  assumes "p + 8 \<le> length b" "offset \<le> 4"
  shows "cbind (get_eight_bytes_at b p) (\<lambda>v. get_u32_at_offset v offset) =
    cbind (get_eight_bytes_at_32 b p) (\<lambda>v. get_u32_at_offset_32 v offset)"
proof -
  have "take 4 (drop offset (take 8 (drop p b))) = take 4 (drop (p + offset) b)"
    using assms(2) by (simp add: drop_take add.commute min_def)
  then show ?thesis
    using assms get_u32_at_offset_le_word [of "take 8 (drop p b)" offset]
    by (simp add: get_eight_bytes_at_def get_eight_bytes_at_32_def get_u32_at_offset_32_def UNALIGNED_LOAD32_def cassert_def mem_simps)
qed

end
