(* ===== verification/TF_Types.thy ===== *)
theory TF_Types
  imports TF_Prelude
begin

text \<open>
  The data that client library and server share: \<^verbatim>\<open>types.h\<close>, \<^verbatim>\<open>messages.h\<close>, \<^verbatim>\<open>params.h\<close> and the error codes of
  \<^verbatim>\<open>api.h\<close>. A character array holding a C string is a \<open>string\<close> without its terminating NUL.
\<close>

section \<open>Types\<close>

record tinyfile_arg =
  source_file_path :: string
  compressed_file_path :: string

text \<open>The size of the two character arrays, NUL included.\<close>

definition path_size :: nat where "path_size = 150"

text \<open>
  An enumeration arrives in a message as an integer, so that a value outside it is possible.
\<close>

type_synonym tinyfile_service = int

definition TINYFILE_COMPRESS :: tinyfile_service where "TINYFILE_COMPRESS = 0"

datatype tinyfile_registry_cmd =
  TINYFILE_CLIENT_REGISTER | TINYFILE_CLIENT_UNREGISTER | TINYFILE_CLIENT_CLOSE | TINYFILE_SERVER_CLOSE

section \<open>Messages\<close>

record tinyfile_registry_entry =
  cmd :: tinyfile_registry_cmd
  reg_pid :: int
  send_q_name :: string
  recv_q_name :: string
  shm_name :: string

text \<open>\<^verbatim>\<open>priority\<close> is unsigned; \<^verbatim>\<open>request_id\<close> is a 32-bit counter that wraps; \<^verbatim>\<open>-1\<close> marks a resize request.\<close>

record tinyfile_request =
  service :: tinyfile_service
  priority :: u32
  request_id :: u32
  entry_idx :: nat
  req_pid :: int

record tinyfile_shared_entry =
  used :: int
  completed :: int \<comment> \<open>the field \<^verbatim>\<open>done\<close>\<close>
  arg :: tinyfile_arg

record tinyfile_response =
  resp_request_id :: u32
  resp_entry_idx :: nat
  resp_arg :: tinyfile_arg

section \<open>Parameters\<close>

text \<open>
  Two integers, a 300-byte argument, padding to eight and a 40-byte mutex, as a \<^verbatim>\<open>size_t\<close>.
\<close>

definition sizeof_shared_entry :: u64 where "sizeof_shared_entry = 352"

text \<open>Both are signed 32-bit integers that the code converts to \<^verbatim>\<open>size_t\<close> where it uses them.\<close>

record params =
  TINYFILE_SHM_SIZE :: u32
  TINYFILE_SHM_MAX_SIZE :: u32

definition default_params :: params where
  "default_params = \<lparr>TINYFILE_SHM_SIZE = 1024, TINYFILE_SHM_MAX_SIZE = 1024 * 1024\<rparr>"

definition TINYFILE_INIT_ERROR :: int where "TINYFILE_INIT_ERROR = 1"
definition TINYFILE_EXIT_ERROR :: int where "TINYFILE_EXIT_ERROR = 2"
definition TINYFILE_CREATE_QUEUE_ERROR :: int where "TINYFILE_CREATE_QUEUE_ERROR = 3"
definition TINYFILE_CREATE_SHM_ERROR :: int where "TINYFILE_CREATE_SHM_ERROR = 4"
definition TINYFILE_DESTROY_SHM_ERROR :: int where "TINYFILE_DESTROY_SHM_ERROR = 5"
definition TINYFILE_PRIORITY_ERROR :: int where "TINYFILE_PRIORITY_ERROR = 6"
definition TINYFILE_RESIZE_SHM_ERROR :: int where "TINYFILE_RESIZE_SHM_ERROR = 7"

lemmas api_errors = TINYFILE_INIT_ERROR_def TINYFILE_EXIT_ERROR_def TINYFILE_CREATE_QUEUE_ERROR_def
  TINYFILE_CREATE_SHM_ERROR_def TINYFILE_DESTROY_SHM_ERROR_def TINYFILE_PRIORITY_ERROR_def
  TINYFILE_RESIZE_SHM_ERROR_def

end
