(* ===== verification/Compress_Service.thy ===== *)
theory Compress_Service
  imports Snappy_Roundtrip TF_Types
begin

text \<open>
  What the server does with one request (\<^verbatim>\<open>server.c\<close>): \<^verbatim>\<open>compress_service\<close> reads the source file, compresses it with
  \<^verbatim>\<open>snappy_compress\<close> and writes the file next to it; \<^verbatim>\<open>handle_request\<close> runs the service on an entry of the shared
  memory and marks the entry done. The files are a map from path to contents; the answers of
  the C library that the code tests, and the memory \<^verbatim>\<open>malloc\<close> returns, are a parameter.
\<close>

section \<open>Environment\<close>

datatype server_error = File_error int | Invalid_service int \<comment> \<open>with the pid of the client\<close>

record server_os =
  files :: "string \<rightharpoonup> buffer"
  open_files :: nat
  allocated :: nat \<comment> \<open>bytes that \<^verbatim>\<open>malloc\<close> returned and nobody freed\<close>
  stderr :: "server_error list"

text \<open>
  \<open>source_mem\<close> and \<open>compressed_mem\<close> are the blocks \<^verbatim>\<open>malloc\<close> returns for a size, with whatever they contain; \<^verbatim>\<open>None\<close> is
  \<^verbatim>\<open>NULL\<close>. \<open>table_mem\<close> is the table of \<^verbatim>\<open>snappy_init_env\<close>.
\<close>

record io =
  seek_end_ok :: bool
  tell_ok :: bool
  seek_set_ok :: bool
  fread_count :: "nat \<Rightarrow> nat" \<comment> \<open>what \<^verbatim>\<open>fread\<close> delivers of so many bytes\<close>
  read_ok :: bool \<comment> \<open>\<^verbatim>\<open>ferror\<close> afterwards\<close>
  create_ok :: bool
  source_mem :: "nat \<Rightarrow> buffer option"
  compressed_mem :: "nat \<Rightarrow> buffer option"
  table_mem :: "u16 list option"

text \<open>\<^verbatim>\<open>strcpy\<close> and \<^verbatim>\<open>strcat\<close> into an array of \<^verbatim>\<open>path_size\<close> bytes, one of them for the NUL.\<close>

definition strcpy_path :: "string \<Rightarrow> string c_result" where
  "strcpy_path s = (if length s < path_size then Inr s else Inl Invalid_access)"

definition strcat_path :: "string \<Rightarrow> string \<Rightarrow> string c_result" where
  "strcat_path d s = (if length (d @ s) < path_size then Inr (d @ s) else Inl Invalid_access)"

text \<open>\<^verbatim>\<open>fprintf(fp, "%s", buf)\<close>: the bytes up to the first NUL; without one it reads past the block.\<close>

definition fprintf_s :: "buffer \<Rightarrow> buffer c_result" where
  "fprintf_s buf = (if 0 \<in> set buf then Inr (takeWhile (\<lambda>c. c \<noteq> 0) buf) else Inl Invalid_access)"

section \<open>Service\<close>

text \<open>
  Reading the source file: the contents of \<^verbatim>\<open>source\<close>, \<^verbatim>\<open>buf_size\<close> (the length of the file) and \<^verbatim>\<open>source_len\<close> (what \<^verbatim>\<open>fread\<close>
  read of it, which may be less without an error, when the file was cut off meanwhile), or \<^verbatim>\<open>None\<close> for \<^verbatim>\<open>return -1\<close>. Every
  early return after \<^verbatim>\<open>fopen\<close> leaves the file open.
\<close>

definition read_source :: "io \<Rightarrow> string \<Rightarrow> server_os \<Rightarrow> ((buffer \<times> nat \<times> nat) option \<times> server_os) c_result" where
  "read_source io path st =
     (case files st path of
        None \<Rightarrow> Inr (None, st)
      | Some data \<Rightarrow>
          let st = st\<lparr>open_files := open_files st + 1\<rparr> in
          if \<not> seek_end_ok io then Inr (None, st)
          else if \<not> tell_ok io then Inr (None, st)
          else if \<not> seek_set_ok io then Inr (None, st)
          else
            let buf_size = length data in
            case source_mem io (buf_size + 1) of
              None \<Rightarrow> Inl Invalid_access
            | Some source \<Rightarrow>
                let source_len = min (fread_count io buf_size) buf_size in
                cbind (store_bytes source 0 (take source_len data)) (\<lambda>source.
                let st = st\<lparr>allocated := allocated st + (buf_size + 1)\<rparr> in
                if \<not> read_ok io then Inr (None, st)
                else Inr (Some (source, buf_size, source_len), st\<lparr>open_files := open_files st - 1\<rparr>)))"

definition compress_service :: "io \<Rightarrow> tinyfile_arg \<Rightarrow> server_os \<Rightarrow> (int \<times> tinyfile_arg \<times> server_os) c_result" where
  "compress_service io a st =
     cbind (read_source io (source_file_path a) st) (\<lambda>(src, st).
     case src of
       None \<Rightarrow> Inr (-1, a, st)
     | Some (source, buf_size, source_len) \<Rightarrow>
         let compressed_len = snappy_max_compressed_length source_len in
         case compressed_mem io compressed_len of
           None \<Rightarrow> Inl Invalid_access
         | Some compressed \<Rightarrow>
             let st = st\<lparr>allocated := allocated st + compressed_len\<rparr>;
                 env = snd (snappy_init_env (table_mem io) \<lparr>hash_table = None, env_scratch = None, scratch_output = None\<rparr>) in
             cbind (snappy_compress env source buf_size compressed) (\<lambda>(_, env, compressed, compressed_len).
             cbind (strcpy_path (source_file_path a)) (\<lambda>path.
             cbind (strcat_path path ''.compressed'') (\<lambda>path.
             let a = a\<lparr>compressed_file_path := path\<rparr> in
             if \<not> create_ok io then Inr (-1, a, st)
             else
               cbind (fprintf_s compressed) (\<lambda>out.
                 Inr (0, a, st\<lparr>files := (files st)(path \<mapsto> out)\<rparr>))))))"

text \<open>\<open>m\<close> is the shared memory of the client, as the list of its entries.\<close>

definition handle_request ::
    "io \<Rightarrow> tinyfile_request \<Rightarrow> tinyfile_shared_entry list \<Rightarrow> server_os \<Rightarrow>
     (tinyfile_shared_entry list \<times> server_os) c_result" where
  "handle_request io req m st =
     (if entry_idx req < length m then
        let entry = m ! entry_idx req in
        cbind (if service req = TINYFILE_COMPRESS then
                 cbind (compress_service io (arg entry) st) (\<lambda>(err, a, st).
                   Inr (a, if err \<noteq> 0 then st\<lparr>stderr := stderr st @ [File_error (req_pid req)]\<rparr> else st))
               else Inr (arg entry, st\<lparr>stderr := stderr st @ [Invalid_service (req_pid req)]\<rparr>)) (\<lambda>(a, st).
          Inr (m[entry_idx req := entry\<lparr>arg := a, completed := 1\<rparr>], st))
      else Inl Invalid_access)"

section \<open>Truncated streams\<close>

text \<open>An element cut off in the middle is not decoded, and one that is complete is decoded as before.\<close>

lemma decode_element_prefix:
  assumes "decode_element (cs @ t) = Some (e, r)"
  shows "decode_element cs = None \<or> (\<exists>r'. r = r' @ t \<and> decode_element cs = Some (e, r'))"
proof (cases cs)
  case (Cons c ds)
  then show ?thesis
    using assms by (auto simp: Let_def not_less split: if_splits)
qed simp

lemma encodable_len: "encodable e \<Longrightarrow> 0 < element_len e"
  by (cases e) simp_all

lemma well_formed_Cons: "well_formed n (e # es) \<Longrightarrow> encodable e \<and> well_formed (n + element_len e) es"
  by (cases e) simp_all

lemma decode_prefix_short:
  assumes "well_formed n es" "encode_all es = cs @ t" "t \<noteq> []" "length out = n"
  shows "case decode limit out cs of None \<Rightarrow> True | Some out' \<Rightarrow> length out' < n + expanded_len es"
  using assms
proof (induction es arbitrary: n cs out)
  case Nil
  then show ?case by simp
next
  case (Cons e es)
  note e = well_formed_Cons [OF Cons.prems(1)]
  show ?case
  proof (cases "cs = []")
    case True
    then show ?thesis using encodable_len e Cons.prems(4) by (simp add: decode.simps expanded_len_def)
  next
    case False
    have "decode_element (cs @ t) = Some (e, encode_all es)"
      using decode_encode_element e Cons.prems(2) by simp metis
    from decode_element_prefix [OF this]
    consider "decode_element cs = None" | r' where "encode_all es = r' @ t" "decode_element cs = Some (e, r')"
      by (elim disjE exE conjE)
    then show ?thesis
    proof cases
      case 1
      then show ?thesis using False by (simp add: decode.simps [of _ _ cs])
    next
      case 2
      have len: "length out' = n + element_len e" if "apply_element limit out e = Some out'" for out'
        using that Cons.prems(4) by (cases e) (auto split: if_splits)
      show ?thesis
        using Cons.IH [OF conjunct2 [OF e] 2(1) Cons.prems(3) len] 2(2) False
        by (auto simp: decode.simps [of _ _ cs] expanded_len_def split: option.splits)
    qed
  qed
qed

lemma header_prefix: "header s v (cs @ t) = Some (w, r) \<Longrightarrow> header s v cs = None \<or> (\<exists>r'. r = r' @ t \<and> header s v cs = Some (w, r'))"
  by (induction s v cs rule: header.induct) (auto simp: Let_def split: if_splits)

lemma strict_prefix_not_decoded:
  assumes es: "well_formed 0 es" "expanded_len es = n" "n < 2 ^ 32"
    and cs: "varint_bytes (word_of_nat n) @ encode_all es = cs @ t" "t \<noteq> []"
  shows "snappy_decode cs = None"
proof -
  have "header 0 0 (cs @ t) = Some (word_of_nat n, encode_all es)"
    using header_varint_bytes [of "word_of_nat n" "encode_all es"] by (simp add: cs(1))
  from header_prefix [OF this] consider "header 0 0 cs = None"
    | r' where "encode_all es = r' @ t" "header 0 0 cs = Some (word_of_nat n, r')"
    by (elim disjE exE conjE)
  then show ?thesis
  proof cases
    case 2
    have "case decode n [] r' of None \<Rightarrow> True | Some out' \<Rightarrow> length out' < n"
      using decode_prefix_short [OF es(1) 2(1) cs(2), of "[]" n] unfolding es(2) by (simp split: option.splits)
    then show ?thesis using 2(2) es(3) by (auto simp: snappy_decode_def unat_u32 split: option.splits)
  qed (simp add: snappy_decode_def)
qed

lemma takeWhile_split: "c \<in> set xs \<Longrightarrow> \<exists>t. xs = takeWhile (\<lambda>x. x \<noteq> c) xs @ c # t"
  by (induction xs) auto

text \<open>What is left of a compressed stream up to its first NUL does not decode.\<close>

lemma cut_stream_not_decoded:
  assumes "length data < 2 ^ 32" "0 \<in> set (snappy_stream data)"
  shows "snappy_decode (takeWhile (\<lambda>c. c \<noteq> 0) (snappy_stream data)) = None"
proof -
  obtain t where "snappy_stream data = takeWhile (\<lambda>c. c \<noteq> 0) (snappy_stream data) @ 0 # t" using takeWhile_split [OF assms(2)] by blast
  moreover have "expanded_len (stream_elements data) = length data"
    using length_expand_all [of "stream_elements data" "[]"] stream_elements_ok [of data] by simp
  ultimately show ?thesis
    using strict_prefix_not_decoded [of "stream_elements data" "length data"] stream_elements_ok [of data] assms(1)
    unfolding snappy_stream_def by (metis list.distinct(1))
qed

section \<open>One request\<close>

text \<open>The C library answers without an error, \<^verbatim>\<open>fread\<close> reads the whole file and \<^verbatim>\<open>malloc\<close> returns blocks of the size asked for.\<close>

definition io_ok :: "io \<Rightarrow> bool" where
  "io_ok io \<longleftrightarrow> seek_end_ok io \<and> tell_ok io \<and> seek_set_ok io \<and> (\<forall>n. fread_count io n = n) \<and> read_ok io \<and> create_ok io
     \<and> (\<forall>n. map_option length (source_mem io n) = Some n)
     \<and> (\<forall>n. map_option length (compressed_mem io n) = Some n)
     \<and> map_option length (table_mem io) = Some kmax_hash_table_size"

definition compressed_path :: "string \<Rightarrow> string" where
  "compressed_path p = p @ ''.compressed''"

lemma io_okD:
  assumes "io_ok io"
  shows "\<exists>b. source_mem io n = Some b \<and> length b = n" "\<exists>b. compressed_mem io n = Some b \<and> length b = n"
    "\<exists>t. table_mem io = Some t \<and> length t = kmax_hash_table_size"
  using assms by (simp_all add: io_ok_def map_option_eq_Some)

lemma read_source_ok:
  assumes "io_ok io" "files st path = Some data"
  shows "\<exists>x. read_source io path st =
    Inr (Some (data @ [x], length data, length data), st\<lparr>allocated := allocated st + (length data + 1)\<rparr>)"
proof -
  obtain b where b: "source_mem io (length data + 1) = Some b" "length b = length data + 1"
    using io_okD(1) [OF assms(1)] by blast
  then have "drop (length data) b = [b ! length data]" using Cons_nth_drop_Suc [of "length data" b] by simp
  then show ?thesis
    using assms b by (auto simp: read_source_def io_ok_def Let_def mem_simps)
qed

text \<open>The buffer \<open>buf\<close> that is printed, and the stream at its front.\<close>

lemma compress_service_stream:
  assumes io: "io_ok io" and f: "files st (source_file_path a) = Some data" and n: "length data < 2 ^ 31"
  shows "\<exists>buf len. length buf = snappy_max_compressed_length (length data) \<and> len \<le> length buf \<and> take len buf = snappy_stream data
    \<and> compress_service io a st =
        cbind (strcpy_path (source_file_path a)) (\<lambda>p.
        cbind (strcat_path p ''.compressed'') (\<lambda>p.
        cbind (fprintf_s buf) (\<lambda>out.
           Inr (0, a\<lparr>compressed_file_path := p\<rparr>,
             st\<lparr>allocated := allocated st + (length data + 1) + snappy_max_compressed_length (length data),
                files := (files st)(p \<mapsto> out)\<rparr>))))"
proof -
  define m where "m = snappy_max_compressed_length (length data)"
  obtain x where r: "read_source io (source_file_path a) st =
      Inr (Some (data @ [x], length data, length data), st\<lparr>allocated := allocated st + (length data + 1)\<rparr>)"
    using read_source_ok [OF io f] by blast
  obtain b where b: "compressed_mem io m = Some b" "length b = m" using io_okD(2) [OF io] by blast
  obtain t where t: "table_mem io = Some t" "length t = kmax_hash_table_size" using io_okD(3) [OF io] by blast
  define env where "env = snd (snappy_init_env (table_mem io) \<lparr>hash_table = None, env_scratch = None, scratch_output = None\<rparr>)"
  have "table_ready env" using t by (simp add: env_def snappy_init_env_def Let_def table_ready_def)
  then obtain env' buf len where c: "snappy_compress env (data @ [x]) (length data) b = Inr (0, env', buf, len)"
      "length buf = m" "len \<le> length buf" "take len buf = snappy_stream data"
    using snappy_compress_stream [of env "length data" "data @ [x]" b] n b(2) by (auto simp: m_def)
  have "create_ok io" using io by (simp add: io_ok_def)
  then have "compress_service io a st =
        cbind (strcpy_path (source_file_path a)) (\<lambda>p.
        cbind (strcat_path p ''.compressed'') (\<lambda>p.
        cbind (fprintf_s buf) (\<lambda>out.
           Inr (0, a\<lparr>compressed_file_path := p\<rparr>,
             st\<lparr>allocated := allocated st + (length data + 1) + m,
                files := (files st)(p \<mapsto> out)\<rparr>))))"
    using c(1) b(1) by (simp add: compress_service_def r Let_def flip: m_def env_def)
  then show ?thesis using c(2-4) unfolding m_def by blast
qed

lemma suffix_fits:
  assumes "length (compressed_path p) < path_size"
  shows "cbind (strcpy_path p) (\<lambda>p. cbind (strcat_path p ''.compressed'') f) = f (compressed_path p)"
  using assms by (simp add: strcpy_path_def strcat_path_def compressed_path_def)

lemma suffix_overflows:
  assumes "path_size \<le> length (compressed_path p)"
  shows "cbind (strcpy_path p) (\<lambda>p. cbind (strcat_path p ''.compressed'') f) = Inl Invalid_access"
  using assms by (simp add: strcpy_path_def strcat_path_def compressed_path_def)

text \<open>
  C16. What \<^verbatim>\<open>compress_service\<close> does with a source file below 2 GiB whose path leaves room for the suffix, when the C library
  reports no error: the buffer holds the stream of the file, which decodes to it, the result is \<open>0\<close>, the argument
  gets the path of the output file, and the output file gets the bytes of the buffer before
  the first NUL, since they are printed as a string. If the buffer happens to hold no NUL, the printing runs
  past its end. Both buffers stay allocated.
\<close>

theorem compress_service_correct:
  assumes "io_ok io" "files st (source_file_path a) = Some data" "length data < 2 ^ 31"
    "length (compressed_path (source_file_path a)) < path_size"
  shows "\<exists>buf len. length buf = snappy_max_compressed_length (length data) \<and> take len buf = snappy_stream data
    \<and> snappy_decode (take len buf) = Some data
    \<and> compress_service io a st =
        (if 0 \<in> set buf then
           Inr (0, a\<lparr>compressed_file_path := compressed_path (source_file_path a)\<rparr>,
             st\<lparr>allocated := allocated st + (length data + 1) + snappy_max_compressed_length (length data),
                files := (files st)(compressed_path (source_file_path a) \<mapsto> takeWhile (\<lambda>c. c \<noteq> 0) buf)\<rparr>)
         else Inl Invalid_access)"
proof -
  obtain buf len where c: "length buf = snappy_max_compressed_length (length data)" "take len buf = snappy_stream data"
    and call: "compress_service io a st =
        cbind (fprintf_s buf) (\<lambda>out.
           Inr (0, a\<lparr>compressed_file_path := compressed_path (source_file_path a)\<rparr>,
             st\<lparr>allocated := allocated st + (length data + 1) + snappy_max_compressed_length (length data),
                files := (files st)(compressed_path (source_file_path a) \<mapsto> out)\<rparr>))"
    using compress_service_stream [OF assms(1-3)] unfolding suffix_fits [OF assms(4)] by blast
  have "snappy_decode (take len buf) = Some data" using snappy_decode_reference [of data] assms(3) c(2) by simp
  then show ?thesis using c unfolding call fprintf_s_def by (intro exI [of _ buf] exI [of _ len]) simp
qed

definition example_io :: io where
  "example_io = \<lparr>seek_end_ok = True, tell_ok = True, seek_set_ok = True, fread_count = (\<lambda>n. n), read_ok = True, create_ok = True,
     source_mem = (\<lambda>n. Some (replicate n 0)), compressed_mem = (\<lambda>n. Some (replicate n 0)),
     table_mem = Some (replicate kmax_hash_table_size 0)\<rparr>"

definition example_os :: "string \<Rightarrow> buffer \<Rightarrow> server_os" where
  "example_os p data = \<lparr>files = [p \<mapsto> data], open_files = 0, allocated = 0, stderr = []\<rparr>"

lemma example_io_ok: "io_ok example_io"
  by (simp add: io_ok_def example_io_def)

definition example_arg :: tinyfile_arg where
  "example_arg = \<lparr>source_file_path = ''a'', compressed_file_path = []\<rparr>"

lemma example_files [simp]:
  "files (example_os ''a'' data) (source_file_path example_arg) = Some data"
  "length (compressed_path (source_file_path example_arg)) < path_size"
  by (simp_all add: example_os_def example_arg_def compressed_path_def path_size_def)

theorem compress_service_correct_witness:
  "\<exists>buf len. length buf = snappy_max_compressed_length (length [7 :: u8, 7, 7, 7]) \<and> take len buf = snappy_stream [7, 7, 7, 7]
    \<and> snappy_decode (take len buf) = Some [7, 7, 7, 7]
    \<and> compress_service example_io example_arg (example_os ''a'' [7, 7, 7, 7]) =
        (if 0 \<in> set buf then
           Inr (0, example_arg\<lparr>compressed_file_path := compressed_path (source_file_path example_arg)\<rparr>,
             (example_os ''a'' [7, 7, 7, 7])\<lparr>allocated := allocated (example_os ''a'' [7, 7, 7, 7]) + (length [7 :: u8, 7, 7, 7] + 1) + snappy_max_compressed_length (length [7 :: u8, 7, 7, 7]),
                files := (files (example_os ''a'' [7, 7, 7, 7]))(compressed_path (source_file_path example_arg) \<mapsto> takeWhile (\<lambda>c. c \<noteq> 0) buf)\<rparr>)
         else Inl Invalid_access)"
  by (rule compress_service_correct [OF example_io_ok]) simp_all

text \<open>An expansion keeps what is already there, so the first byte comes from the first element, a literal.\<close>

lemma expand_keeps: "\<exists>ys. expand out e = out @ ys"
proof (cases e)
  case (Copy off n)
  have "\<exists>ys. self_copy off n out = out @ ys"
  proof (induction n arbitrary: out)
    case (Suc n)
    then show ?case using Suc.IH [of "out @ [out ! (length out - off)]"] by auto
  qed simp
  then show ?thesis by (simp add: Copy)
qed simp

lemma expand_all_keeps: "\<exists>ys. expand_all es out = out @ ys"
proof (induction es arbitrary: out)
  case (Cons e es)
  obtain ys where "expand out e = out @ ys" using expand_keeps by blast
  then show ?case using Cons.IH [of "expand out e"] by auto
qed simp

lemma first_literal:
  assumes "well_formed 0 es" "expand_all es [] = b # bs"
  shows "\<exists>ls es'. es = Literal (b # ls) # es'"
proof -
  obtain e es' where es: "es = e # es'" using assms(2) by (cases es) auto
  then obtain xs where e: "e = Literal xs" "xs \<noteq> []" using assms(1) by (cases e) auto
  then obtain ys where "b # bs = xs @ ys" using expand_all_keeps [of es' xs] assms(2) es by auto
  then show ?thesis using es e by (cases xs) auto
qed

text \<open>Files whose stream contains a NUL: the empty file, the files of one byte, the files that start with a NUL.\<close>

lemma stream_has_nul:
  assumes "data = [] \<or> length data = 1 \<or> hd data = 0"
  shows "0 \<in> set (snappy_stream data)"
proof (cases data)
  case Nil
  then show ?thesis by (simp add: snappy_stream_def varint_bytes_def)
next
  case (Cons b bs)
  let ?es = "stream_elements data"
  have ok: "well_formed 0 ?es" "expand_all ?es [] = data" using stream_elements_ok [of data] by simp_all
  obtain ls es' where es: "?es = Literal (b # ls) # es'" using first_literal [OF ok(1)] ok(2) Cons by metis
  show ?thesis
  proof (cases "b = 0")
    case False
    then have "bs = []" using assms Cons by simp
    moreover have "length (expand_all ?es []) = Suc (length ls + expanded_len es')"
      by (simp add: es length_expand_all)
    ultimately have "ls = []" using ok(2) Cons by simp
    then show ?thesis by (simp add: snappy_stream_def es literal_header_def)
  qed (simp add: snappy_stream_def es)
qed

lemma compress_service_truncates:
  assumes "io_ok io" "files st (source_file_path a) = Some data" "length data < 2 ^ 31"
    "length (compressed_path (source_file_path a)) < path_size" "0 \<in> set (snappy_stream data)"
  shows "\<exists>st' out. compress_service io a st = Inr (0, a\<lparr>compressed_file_path := compressed_path (source_file_path a)\<rparr>, st')
    \<and> files st' (compressed_path (source_file_path a)) = Some out \<and> out = takeWhile (\<lambda>c. c \<noteq> 0) (snappy_stream data)
    \<and> snappy_decode out = None"
proof -
  obtain buf len where c: "take len buf = snappy_stream data"
    and call: "compress_service io a st =
        cbind (fprintf_s buf) (\<lambda>out.
           Inr (0, a\<lparr>compressed_file_path := compressed_path (source_file_path a)\<rparr>,
             st\<lparr>allocated := allocated st + (length data + 1) + snappy_max_compressed_length (length data),
                files := (files st)(compressed_path (source_file_path a) \<mapsto> out)\<rparr>))"
    using compress_service_stream [OF assms(1-3)] unfolding suffix_fits [OF assms(4)] by blast
  have z: "0 \<in> set (take len buf)" unfolding c by (rule assms(5))
  then have zb: "0 \<in> set buf" by (rule in_set_takeD)
  have "takeWhile (\<lambda>c. c \<noteq> 0) buf = takeWhile (\<lambda>c. c \<noteq> 0) (take len buf @ drop len buf)" by simp
  also have "\<dots> = takeWhile (\<lambda>c. c \<noteq> 0) (take len buf)" using z by (rule takeWhile_append1) simp
  finally have "takeWhile (\<lambda>c. c \<noteq> 0) buf = takeWhile (\<lambda>c. c \<noteq> 0) (snappy_stream data)" unfolding c .
  then show ?thesis using call zb cut_stream_not_decoded [OF _ assms(5)] assms(3) by (simp add: fprintf_s_def)
qed

text \<open>
  C35. The output file is useless whenever the stream of the source file contains a NUL, as it does for the empty file, for every file of a single byte
  and for every file that starts with a NUL: \<^verbatim>\<open>compress_service\<close> returns \<open>0\<close>, but the file it has written holds the stream up to the
  NUL only and does not decode.
\<close>

theorem compressed_file_truncated:
  assumes "io_ok io" "files st (source_file_path a) = Some data" "length data < 2 ^ 31"
    "length (compressed_path (source_file_path a)) < path_size"
    "data = [] \<or> length data = 1 \<or> hd data = 0 \<or> 0 \<in> set (snappy_stream data)"
  shows "\<exists>st' out. compress_service io a st = Inr (0, a\<lparr>compressed_file_path := compressed_path (source_file_path a)\<rparr>, st')
    \<and> files st' (compressed_path (source_file_path a)) = Some out \<and> out = takeWhile (\<lambda>c. c \<noteq> 0) (snappy_stream data)
    \<and> snappy_decode out = None"
  using assms(5) stream_has_nul [of data] by (intro compress_service_truncates [OF assms(1-4)]) blast

theorem compressed_file_truncated_witness:
  "\<exists>st' out. compress_service example_io example_arg (example_os ''a'' [65]) =
      Inr (0, example_arg\<lparr>compressed_file_path := compressed_path (source_file_path example_arg)\<rparr>, st')
    \<and> files st' (compressed_path (source_file_path example_arg)) = Some out \<and> out = takeWhile (\<lambda>c. c \<noteq> 0) (snappy_stream [65])
    \<and> snappy_decode out = None"
  by (rule compressed_file_truncated [OF example_io_ok, where data = "[65]"]) simp_all

text \<open>Every call on a readable file that does not fault reports the output path and creates the output file.\<close>

lemma compress_service_returns:
  assumes "io_ok io" "files st (source_file_path a) = Some data" "length data < 2 ^ 31"
    "length (compressed_path (source_file_path a)) < path_size" "compress_service io a st = Inr (err, a', st')"
  shows "err = 0 \<and> a' = a\<lparr>compressed_file_path := compressed_path (source_file_path a)\<rparr>
    \<and> (\<exists>out. files st' = (files st)(compressed_path (source_file_path a) \<mapsto> out)) \<and> stderr st' = stderr st"
proof -
  obtain buf where eq: "compress_service io a st =
        cbind (fprintf_s buf) (\<lambda>out.
           Inr (0, a\<lparr>compressed_file_path := compressed_path (source_file_path a)\<rparr>,
             st\<lparr>allocated := allocated st + (length data + 1) + snappy_max_compressed_length (length data),
                files := (files st)(compressed_path (source_file_path a) \<mapsto> out)\<rparr>))"
    using compress_service_stream [OF assms(1-3)] unfolding suffix_fits [OF assms(4)] by blast
  show ?thesis using assms(5) unfolding eq by (auto simp: cbind_eq_Inr_conv)
qed

text \<open>
  A path that leaves no room for the suffix: \<^verbatim>\<open>strcat\<close> writes past the array, into the mutex behind it.
\<close>

theorem long_path_overflows:
  assumes "io_ok io" "files st (source_file_path a) = Some data" "length data < 2 ^ 31"
    "path_size \<le> length (compressed_path (source_file_path a))"
  shows "compress_service io a st = Inl Invalid_access"
  using compress_service_stream [OF assms(1-3)] unfolding suffix_overflows [OF assms(4)] by blast

theorem long_path_overflows_witness:
  "compress_service example_io \<lparr>source_file_path = replicate 140 CHR ''x'', compressed_file_path = []\<rparr>
     (example_os (replicate 140 CHR ''x'') [65]) = Inl Invalid_access"
  by (rule long_path_overflows [OF example_io_ok, where data = "[65]"])
     (simp_all add: example_os_def compressed_path_def path_size_def)

text \<open>
  \<^verbatim>\<open>handle_request\<close> marks the entry done whether or not the service succeeded, and nothing in the entry tells the client: a
  request for a file that cannot be read, or for a service that does not exist, completes with the
  argument unchanged. Only the server's error output differs.
\<close>

theorem handle_request_hides_errors:
  assumes "entry_idx req < length m" "service req \<noteq> TINYFILE_COMPRESS \<or> files st (source_file_path (arg (m ! entry_idx req))) = None"
  shows "handle_request io req m st =
    Inr (m[entry_idx req := (m ! entry_idx req)\<lparr>completed := 1\<rparr>],
         st\<lparr>stderr := stderr st @ [if service req = TINYFILE_COMPRESS then File_error (req_pid req) else Invalid_service (req_pid req)]\<rparr>)"
  using assms by (auto simp: handle_request_def Let_def compress_service_def read_source_def)

theorem handle_request_hides_errors_witness:
  "handle_request example_io \<lparr>service = 5, priority = 1, request_id = 0, entry_idx = 0, req_pid = 7\<rparr>
      [\<lparr>used = 1, completed = 0, arg = example_arg\<rparr>] (example_os ''a'' [65]) =
    Inr ([\<lparr>used = 1, completed = 1, arg = example_arg\<rparr>], (example_os ''a'' [65])\<lparr>stderr := [Invalid_service 7]\<rparr>)"
  using handle_request_hides_errors [of "\<lparr>service = 5, priority = 1, request_id = 0, entry_idx = 0, req_pid = 7\<rparr>"
      "[\<lparr>used = 1, completed = 0, arg = example_arg\<rparr>]" "example_os ''a'' [65]" example_io]
  by (simp add: TINYFILE_COMPRESS_def example_os_def)

end
