(* ===== verification/Client_List.thy ===== *)
theory Client_List
  imports TF_Types
begin

text \<open>
  The registry of the server (\<^verbatim>\<open>server.c\<close>): the doubly linked list of clients in the heap, with \<^verbatim>\<open>append_client\<close>,
  \<^verbatim>\<open>remove_client\<close> and \<^verbatim>\<open>find_client\<close>, and the registration of clients on top of it. A freed node leaves the
  heap, so that using it is a fault. Message queues and shared memory are named by the numbers the
  operating system returns; what it returns is a parameter.
\<close>

section \<open>State\<close>

record client =
  cl_pid :: int
  send_q :: int
  recv_q :: int
  cl_shm_size :: nat
  cl_shm_name :: string
  stop_client_threads :: bool
  num_requests_started :: u32
  num_requests_completed :: u32

record client_node =
  client :: client
  c_tail :: "nat option"
  c_next :: "nat option"
  c_prev :: "nat option"

type_synonym c_heap = "nat \<rightharpoonup> client_node"

record registry =
  c_heap :: c_heap
  clients :: "nat option"
  sent :: "(int \<times> tinyfile_registry_cmd) list" \<comment> \<open>messages sent, by queue\<close>
  stop_registry :: bool
  full_queues :: "int set" \<comment> \<open>queues on which \<^verbatim>\<open>mq_send\<close> blocks: their clients do not read\<close>
  closed_queues :: "int list" \<comment> \<open>descriptors passed to \<^verbatim>\<open>mq_close\<close>\<close>
  cancelled :: "nat list" \<comment> \<open>nodes whose worker threads have been cancelled\<close>
  unmapped :: "string list" \<comment> \<open>shared memory passed to \<^verbatim>\<open>munmap\<close>\<close>
  send_errors :: "int list" \<comment> \<open>processes for which an error of \<^verbatim>\<open>mq_send\<close> was printed\<close>

definition node_at :: "c_heap \<Rightarrow> nat \<Rightarrow> client_node c_result" where
  "node_at h a = (case h a of None \<Rightarrow> Inl Invalid_access | Some n \<Rightarrow> Inr n)"

text \<open>An assignment through a pointer, as in \<^verbatim>\<open>p->next = q\<close>.\<close>

definition assign :: "c_heap \<Rightarrow> nat \<Rightarrow> (client_node \<Rightarrow> client_node) \<Rightarrow> c_heap c_result" where
  "assign h a f = cbind (node_at h a) (\<lambda>n. Inr (h(a \<mapsto> f n)))"

section \<open>List operations\<close>

definition append_client :: "registry \<Rightarrow> nat \<Rightarrow> registry c_result" where
  "append_client s node =
     (case clients s of
        None \<Rightarrow>
          cbind (assign (c_heap s) node (\<lambda>n. n\<lparr>c_next := None, c_prev := None, c_tail := Some node\<rparr>)) (\<lambda>h.
            Inr (s\<lparr>c_heap := h, clients := Some node\<rparr>))
      | Some head \<Rightarrow>
          cbind (node_at (c_heap s) head) (\<lambda>hn.
          cbind (assign (c_heap s) node (\<lambda>n. n\<lparr>c_prev := c_tail hn, c_next := None, c_tail := Some node\<rparr>)) (\<lambda>h.
          case c_tail hn of
            None \<Rightarrow> Inl Invalid_access
          | Some t \<Rightarrow>
              cbind (assign h t (\<lambda>n. n\<lparr>c_next := Some node\<rparr>)) (\<lambda>h.
              cbind (assign h head (\<lambda>n. n\<lparr>c_tail := Some node\<rparr>)) (\<lambda>h.
                Inr (s\<lparr>c_heap := h\<rparr>))))))"

definition remove_client :: "registry \<Rightarrow> nat option \<Rightarrow> registry c_result" where
  "remove_client s node =
     (case node of
        None \<Rightarrow> Inr s
      | Some a \<Rightarrow>
          cbind (node_at (c_heap s) a) (\<lambda>n.
          if c_prev n = None \<and> c_next n = None then Inr (s\<lparr>clients := None\<rparr>)
          else
            cbind (case c_prev n of
                     None \<Rightarrow> Inr (c_heap s)
                   | Some p \<Rightarrow> assign (c_heap s) p (\<lambda>m. m\<lparr>c_next := c_next n\<rparr>)) (\<lambda>h.
            cbind (case c_next n of
                     Some q \<Rightarrow> assign h q (\<lambda>m. m\<lparr>c_prev := c_prev n\<rparr>)
                   | None \<Rightarrow>
                       (case clients s of
                          None \<Rightarrow> Inl Invalid_access
                        | Some head \<Rightarrow> assign h head (\<lambda>m. m\<lparr>c_tail := c_prev n\<rparr>))) (\<lambda>h.
              Inr (s\<lparr>c_heap := h\<rparr>)))))"

text \<open>The loop of \<^verbatim>\<open>find_client\<close>, with a budget for the length of the list.\<close>

fun find_from :: "nat \<Rightarrow> c_heap \<Rightarrow> int \<Rightarrow> nat option \<Rightarrow> nat option c_result" where
  "find_from 0 h pid l = Inl Nontermination"
| "find_from (Suc fuel) h pid l =
     (case l of
        None \<Rightarrow> Inr None
      | Some a \<Rightarrow> cbind (node_at h a) (\<lambda>n. if cl_pid (client n) \<noteq> pid then find_from fuel h pid (c_next n) else Inr (Some a)))"

definition find_client :: "nat \<Rightarrow> registry \<Rightarrow> int \<Rightarrow> nat option c_result" where
  "find_client fuel s pid = find_from fuel (c_heap s) pid (clients s)"

section \<open>Registration\<close>

text \<open>
  What the operating system answers while a client is registered: the two \<^verbatim>\<open>mq_open\<close> calls, \<^verbatim>\<open>shm_open\<close> with the size
  \<^verbatim>\<open>fstat\<close> reports, and \<^verbatim>\<open>malloc\<close>. \<open>stack_client\<close> is the uninitialised record of \<^verbatim>\<open>register_client\<close> on the stack.
\<close>

record os_answers =
  open_recv_q :: "int option"
  open_send_q :: "int option"
  open_shm_size :: "nat option"
  new_node :: "nat option"
  stack_client :: client

text \<open>\<^verbatim>\<open>None\<close> is \<^verbatim>\<open>exit(EXIT_FAILURE)\<close>.\<close>

definition init_worker_threads :: "client \<Rightarrow> client" where
  "init_worker_threads c = c\<lparr>stop_client_threads := False, num_requests_started := 0, num_requests_completed := 0\<rparr>"

definition open_shm :: "os_answers \<Rightarrow> tinyfile_registry_entry \<Rightarrow> client \<Rightarrow> client option" where
  "open_shm os entry c =
     (case open_shm_size os of
        None \<Rightarrow> None
      | Some sz \<Rightarrow> Some (c\<lparr>cl_shm_name := shm_name entry, cl_shm_size := sz\<rparr>))"

definition register_client ::
    "nat \<Rightarrow> os_answers \<Rightarrow> registry \<Rightarrow> tinyfile_registry_entry \<Rightarrow> (int \<times> registry) option c_result" where
  "register_client fuel os s entry =
     cbind (find_client fuel s (reg_pid entry)) (\<lambda>found.
     if found \<noteq> None then Inr (Some (0, s))
     else
       case open_recv_q os of
         None \<Rightarrow> Inr None
       | Some sq \<Rightarrow>
       (case open_send_q os of
         None \<Rightarrow> Inr None
       | Some rq \<Rightarrow>
       (case open_shm os entry ((stack_client os)\<lparr>cl_pid := reg_pid entry, send_q := sq, recv_q := rq\<rparr>) of
         None \<Rightarrow> Inr None
       | Some c \<Rightarrow>
       (case new_node os of
         None \<Rightarrow> Inl Invalid_access
       | Some node \<Rightarrow>
           cbind (append_client
                    (s\<lparr>c_heap := (c_heap s)(node \<mapsto> \<lparr>client = c, c_tail = None, c_next = None, c_prev = None\<rparr>)\<rparr>) node) (\<lambda>s.
           cbind (assign (c_heap s) node (\<lambda>n. n\<lparr>client := init_worker_threads (client n)\<rparr>)) (\<lambda>h.
             Inr (Some (0, s\<lparr>c_heap := h\<rparr>))))))))"

text \<open>
  The poison pill: \<^verbatim>\<open>mq_send\<close> to a closed descriptor fails, which is printed and ignored; to a full queue it blocks.
\<close>

definition send_pill :: "client \<Rightarrow> registry \<Rightarrow> registry c_result" where
  "send_pill c s =
     (if send_q c \<in> set (closed_queues s) then Inr (s\<lparr>send_errors := send_errors s @ [cl_pid c]\<rparr>)
      else if send_q c \<in> full_queues s then Inl Nontermination
      else Inr (s\<lparr>sent := sent s @ [(send_q c, TINYFILE_SERVER_CLOSE)]\<rparr>))"

text \<open>\<^verbatim>\<open>pthread_mutex_destroy\<close> and \<^verbatim>\<open>pthread_cancel\<close> of the ten workers, which nobody joins.\<close>

definition cleanup_worker_threads :: "nat \<Rightarrow> registry \<Rightarrow> registry" where
  "cleanup_worker_threads a s = s\<lparr>cancelled := cancelled s @ [a]\<rparr>"

text \<open>
  The wait \<^verbatim>\<open>while (num_requests_started != num_requests_completed)\<close> of \<^verbatim>\<open>unregister_client\<close> is a guard: the state is the
  one in which it ends, and one in which it does not end would spin for ever.
\<close>

definition unregister_client :: "nat \<Rightarrow> registry \<Rightarrow> int \<Rightarrow> bool \<Rightarrow> (int \<times> registry) c_result" where
  "unregister_client fuel s pid close =
     cbind (find_client fuel s pid) (\<lambda>found.
     case found of
       None \<Rightarrow> Inr (0, s)
     | Some a \<Rightarrow>
         cbind (node_at (c_heap s) a) (\<lambda>n.
         cbind (if close then send_pill (client n) s else Inr s) (\<lambda>s.
         cbind (remove_client s (Some a)) (\<lambda>s.
         cbind (node_at (c_heap s) a) (\<lambda>n.
         let s = s\<lparr>closed_queues := closed_queues s @ [send_q (client n), recv_q (client n)]\<rparr> in
         if num_requests_started (client n) \<noteq> num_requests_completed (client n) then Inl Nontermination
         else
           let s = cleanup_worker_threads a s;
               s = s\<lparr>unmapped := unmapped s @ [cl_shm_name (client n)]\<rparr> in
           Inr (0, s\<lparr>c_heap := (c_heap s)(a := None)\<rparr>))))))"

text \<open>One message in the loop of \<^verbatim>\<open>registry_handler\<close>.\<close>

definition registry_handler_step ::
    "nat \<Rightarrow> os_answers \<Rightarrow> registry \<Rightarrow> tinyfile_registry_entry \<Rightarrow> registry option c_result" where
  "registry_handler_step fuel os s entry =
     (case cmd entry of
        TINYFILE_CLIENT_REGISTER \<Rightarrow>
          cbind (register_client fuel os s entry) (\<lambda>r. Inr (case r of None \<Rightarrow> None | Some (_, s) \<Rightarrow> Some s))
      | TINYFILE_CLIENT_UNREGISTER \<Rightarrow>
          cbind (unregister_client fuel s (reg_pid entry) False) (\<lambda>(_, s). Inr (Some s))
      | TINYFILE_CLIENT_CLOSE \<Rightarrow>
          cbind (unregister_client fuel s (reg_pid entry) False) (\<lambda>(_, s). Inr (Some s))
      | TINYFILE_SERVER_CLOSE \<Rightarrow> Inr (Some s))"

text \<open>A worker thread of the client in node \<open>a\<close> counts the request that it has just received.\<close>

definition count_started :: "registry \<Rightarrow> nat \<Rightarrow> registry c_result" where
  "count_started s a =
     cbind (assign (c_heap s) a (\<lambda>n. n\<lparr>client := (client n)\<lparr>num_requests_started := num_requests_started (client n) + 1\<rparr>\<rparr>)) (\<lambda>h.
       Inr (s\<lparr>c_heap := h\<rparr>))"

text \<open>The loop of \<^verbatim>\<open>exit_server\<close>; \<open>l\<close> is \<^verbatim>\<open>client_list\<close>.\<close>

fun unregister_all :: "nat \<Rightarrow> registry \<Rightarrow> nat option \<Rightarrow> registry c_result" where
  "unregister_all 0 s l = Inl Nontermination"
| "unregister_all (Suc fuel) s l =
     (case l of
        None \<Rightarrow> Inr s
      | Some a \<Rightarrow>
          cbind (node_at (c_heap s) a) (\<lambda>n.
          cbind (unregister_client (Suc fuel) s (cl_pid (client n)) True) (\<lambda>(_, s).
          cbind (node_at (c_heap s) a) (\<lambda>n. unregister_all fuel s (c_next n)))))"

definition exit_server :: "nat \<Rightarrow> registry \<Rightarrow> registry c_result" where
  "exit_server fuel s =
     cbind (unregister_all fuel s (clients s)) (\<lambda>s. Inr (s\<lparr>stop_registry := True\<rparr>))"

section \<open>The list in the heap\<close>

text \<open>
  \<open>lseg h pv p as l q\<close>: from \<open>p\<close> the nodes \<open>as\<close> follow each other and then comes \<open>q\<close>; the back pointer of the first is \<open>pv\<close>,
  and \<open>l\<close> is the last node, or \<open>pv\<close> if there is none.
\<close>

fun lseg :: "c_heap \<Rightarrow> nat option \<Rightarrow> nat option \<Rightarrow> nat list \<Rightarrow> nat option \<Rightarrow> nat option \<Rightarrow> bool" where
  "lseg h pv p [] l q \<longleftrightarrow> p = q \<and> l = pv"
| "lseg h pv p (a # as) l q \<longleftrightarrow>
     p = Some a \<and> (\<exists>n. h a = Some n \<and> c_prev n = pv \<and> lseg h (Some a) (c_next n) as l q)"

text \<open>The registry holds the nodes \<open>as\<close>, and the first of them knows the last.\<close>

definition registered :: "registry \<Rightarrow> nat list \<Rightarrow> bool" where
  "registered s as \<longleftrightarrow> (\<exists>l. lseg (c_heap s) None (clients s) as l None) \<and> distinct as \<and>
     (as \<noteq> [] \<longrightarrow> map_option c_tail (c_heap s (hd as)) = Some (Some (last as)))"

definition pid_at :: "c_heap \<Rightarrow> nat \<Rightarrow> int" where
  "pid_at h a = (case h a of None \<Rightarrow> 0 | Some n \<Rightarrow> cl_pid (client n))"

lemma lseg_append: "lseg h pv p (as @ bs) l q \<longleftrightarrow> (\<exists>pm m. lseg h pv p as pm m \<and> lseg h pm m bs l q)"
  by (induction as arbitrary: pv p) auto

lemma lseg_last: "lseg h pv p as l q \<Longrightarrow> l = (if as = [] then pv else Some (last as))"
  by (induction as arbitrary: pv p) auto

lemma lseg_dom: "lseg h pv p as l q \<Longrightarrow> set as \<subseteq> dom h"
  by (induction as arbitrary: pv p) auto

lemma lseg_frame: "\<forall>a \<in> set as. h' a = h a \<Longrightarrow> lseg h' pv p as l q = lseg h pv p as l q"
  by (induction as arbitrary: pv p) auto

lemma lseg_fresh: "a \<notin> set as \<Longrightarrow> lseg (h(a := v)) pv p as l q = lseg h pv p as l q"
  by (rule lseg_frame) auto

text \<open>A node updated in fields that do not link.\<close>

lemma lseg_data:
  assumes "h a = Some n" "c_prev n' = c_prev n" "c_next n' = c_next n"
  shows "lseg (h(a \<mapsto> n')) pv p as l q = lseg h pv p as l q"
  using assms by (induction as arbitrary: pv p) auto

lemma lseg_set_next:
  assumes "lseg h pv p as (Some b) q" "as \<noteq> []" "distinct as" "h b = Some n"
  shows "lseg (h(b \<mapsto> n\<lparr>c_next := q'\<rparr>)) pv p as (Some b) q'"
proof -
  define bs where "bs = butlast as"
  have "last as = b" using lseg_last [OF assms(1)] assms(2) by simp
  then have as: "as = bs @ [b]" using append_butlast_last_id [OF assms(2)] by (simp add: bs_def)
  then have nb: "b \<notin> set bs" using assms(3) by simp
  obtain pm where pm: "lseg h pv p bs pm (Some b)" "c_prev n = pm"
    using assms(1,4) unfolding as lseg_append by auto
  have "lseg (h(b \<mapsto> n\<lparr>c_next := q'\<rparr>)) pv p bs pm (Some b)" using pm(1) nb by (simp add: lseg_fresh)
  moreover have "lseg (h(b \<mapsto> n\<lparr>c_next := q'\<rparr>)) pm (Some b) [b] (Some b) q'" using pm(2) by simp
  ultimately show ?thesis unfolding as lseg_append by blast
qed

lemma lseg_set_prev:
  assumes "lseg h pv p (c # as) l q" "c \<notin> set as" "h c = Some n"
  shows "lseg (h(c \<mapsto> n\<lparr>c_prev := pv'\<rparr>)) pv' p (c # as) l q"
proof -
  have "lseg (h(c \<mapsto> n\<lparr>c_prev := pv'\<rparr>)) (Some c) (c_next n) as l q"
    using assms by (simp add: lseg_fresh)
  then show ?thesis using assms(1) by simp
qed

section \<open>Looking up\<close>

lemma find_from_ok:
  assumes "lseg h pv p as l None" "length as < fuel"
  shows "find_from fuel h pid p = Inr (find (\<lambda>a. pid_at h a = pid) as)"
  using assms
proof (induction as arbitrary: pv p fuel)
  case Nil
  then show ?case by (cases fuel) simp_all
next
  case (Cons a as)
  then obtain n fuel' where n: "p = Some a" "h a = Some n" "lseg h (Some a) (c_next n) as l None" "fuel = Suc fuel'"
    by (cases fuel) auto
  show ?case
    using Cons.IH [OF n(3), of fuel'] Cons.prems(2) n by (simp add: node_at_def pid_at_def)
qed

lemma find_client_ok:
  "registered s as \<Longrightarrow> length as < fuel \<Longrightarrow> find_client fuel s pid = Inr (find (\<lambda>a. pid_at (c_heap s) a = pid) as)"
  by (auto simp: registered_def find_client_def intro: find_from_ok)

text \<open>A search that ends within a budget ends in the same way within a larger one.\<close>

lemma find_from_more: "find_from fuel h pid l = Inr x \<Longrightarrow> find_from (fuel + k) h pid l = Inr x"
  by (induction fuel arbitrary: l) (auto simp: cbind_eq_Inr_conv split: option.splits if_splits)

lemma register_client_more: "register_client fuel os s entry = Inr x \<Longrightarrow> register_client (fuel + k) os s entry = Inr x"
  by (auto simp: register_client_def find_client_def cbind_eq_Inr_conv find_from_more)

lemma unregister_client_more: "unregister_client fuel s pid close = Inr x \<Longrightarrow> unregister_client (fuel + k) s pid close = Inr x"
  unfolding unregister_client_def find_client_def by (auto simp: cbind_eq_Inr_conv [of "find_from _ _ _ _"] find_from_more)

section \<open>Appending and removing\<close>

text \<open>The client data of two heaps agree.\<close>

definition same_data :: "c_heap \<Rightarrow> c_heap \<Rightarrow> bool" where
  "same_data h h' \<longleftrightarrow> (\<forall>a. map_option client (h' a) = map_option client (h a))"

lemma same_data_refl [simp]: "same_data h h"
  by (simp add: same_data_def)

lemma same_data_upd: "same_data h h1 \<Longrightarrow> h1 a = Some n \<Longrightarrow> client n' = client n \<Longrightarrow> same_data h (h1(a \<mapsto> n'))"
  unfolding same_data_def by (metis fun_upd_apply option.simps(9))

lemma same_data_pid: "same_data h h' \<Longrightarrow> pid_at h' = pid_at h"
proof
  fix a
  assume "same_data h h'"
  then have "map_option client (h' a) = map_option client (h a)" by (simp add: same_data_def)
  then show "pid_at h' a = pid_at h a" by (cases "h a"; cases "h' a") (auto simp: pid_at_def)
qed

lemma registered_lseg:
  assumes "registered s as" "as \<noteq> []"
  shows "clients s = Some (hd as)" "lseg (c_heap s) None (Some (hd as)) as (Some (last as)) None"
    "\<exists>n. c_heap s (hd as) = Some n \<and> c_tail n = Some (last as)" "distinct as"
proof -
  obtain l where l: "lseg (c_heap s) None (clients s) as l None" using assms by (auto simp: registered_def)
  then show c: "clients s = Some (hd as)" using assms(2) by (cases as) auto
  then show "lseg (c_heap s) None (Some (hd as)) as (Some (last as)) None"
    using l lseg_last [OF l] assms(2) by simp
  show "\<exists>n. c_heap s (hd as) = Some n \<and> c_tail n = Some (last as)" "distinct as"
    using assms by (auto simp: registered_def)
qed

lemma append_client_ok:
  assumes r: "registered s as" and b: "c_heap s b = Some n0" "b \<notin> set as"
  shows "\<exists>s'. append_client s b = Inr s' \<and> registered s' (as @ [b]) \<and> same_data (c_heap s) (c_heap s') \<and> sent s' = sent s"
proof (cases "as = []")
  case True
  then have "clients s = None" using r by (auto simp: registered_def)
  then show ?thesis
    using b True by (auto simp: append_client_def assign_def node_at_def registered_def intro!: same_data_upd)
next
  case False
  note l = registered_lseg [OF r False]
  obtain hn where hn: "c_heap s (hd as) = Some hn" "c_tail hn = Some (last as)" using l(3) by auto
  define h1 where "h1 = (c_heap s)(b \<mapsto> n0\<lparr>c_prev := Some (last as), c_next := None, c_tail := Some b\<rparr>)"
  have s1: "lseg h1 None (Some (hd as)) as (Some (last as)) None" using l(2) b(2) by (simp add: h1_def lseg_fresh)
  obtain nl where nl: "h1 (last as) = Some nl" using lseg_dom [OF s1] False by (auto dest: last_in_set)
  define h2 where "h2 = h1(last as \<mapsto> nl\<lparr>c_next := Some b\<rparr>)"
  have bl: "b \<noteq> last as" "b \<noteq> hd as" using b(2) False by auto
  have "lseg h2 None (Some (hd as)) as (Some (last as)) (Some b)"
    unfolding h2_def by (rule lseg_set_next [OF s1 False l(4) nl])
  moreover have "lseg h2 (Some (last as)) (Some b) [b] (Some b) None" using bl by (simp add: h2_def h1_def)
  ultimately have s2: "lseg h2 None (Some (hd as)) (as @ [b]) (Some b) None" unfolding lseg_append by blast
  obtain m where m: "h2 (hd as) = Some m" using lseg_dom [OF s2] False by (cases as) auto
  define h3 where "h3 = h2(hd as \<mapsto> m\<lparr>c_tail := Some b\<rparr>)"
  have "lseg h3 None (Some (hd as)) (as @ [b]) (Some b) None" unfolding h3_def using s2 by (simp add: lseg_data [of h2 "hd as", OF m])
  then have reg: "registered (s\<lparr>c_heap := h3\<rparr>) (as @ [b])"
    using False l(1,4) b(2) by (auto simp: registered_def h3_def)
  have "append_client s b = Inr (s\<lparr>c_heap := h3\<rparr>)"
    using l(1) hn b(1) nl m
    by (simp add: append_client_def assign_def node_at_def flip: h1_def h2_def h3_def)
  moreover have "same_data (c_heap s) h1" unfolding h1_def using b(1) by (intro same_data_upd) auto
  then have "same_data (c_heap s) h2" unfolding h2_def using nl by (intro same_data_upd) auto
  then have "same_data (c_heap s) h3" unfolding h3_def using m by (intro same_data_upd) auto
  ultimately show ?thesis using reg by auto
qed

text \<open>Removing any client but the first of several.\<close>

lemma remove_client_ok:
  assumes r: "registered s (xs @ a # ys)" and ne: "xs \<noteq> [] \<or> ys = []"
  shows "\<exists>s'. remove_client s (Some a) = Inr s' \<and> registered s' (xs @ ys) \<and> same_data (c_heap s) (c_heap s')
           \<and> c_heap s' a = c_heap s a \<and> sent s' = sent s"
proof -
  note l = registered_lseg [OF r, simplified]
  obtain pm m where pm: "lseg (c_heap s) None (clients s) xs pm (Some a)" "c_heap s a = Some m" "c_prev m = pm"
      "lseg (c_heap s) (Some a) (c_next m) ys (Some (last (xs @ a # ys))) None"
    using l(1,2) by (auto simp: lseg_append)
  have dist: "a \<notin> set xs" "a \<notin> set ys" "distinct xs" "distinct ys" "set xs \<inter> set ys = {}" using l(4) by auto
  show ?thesis
  proof (cases "xs = []")
    case True
    then have "ys = []" using ne by simp
    then show ?thesis
      using True pm by (auto simp: remove_client_def node_at_def registered_def)
  next
    case False
    have pl: "pm = Some (last xs)" using lseg_last [OF pm(1)] False by simp
    have head: "clients s = Some (hd xs)" using l(1) False by simp
    obtain nb where nb: "c_heap s (last xs) = Some nb" using lseg_dom [OF pm(1)] False by (auto dest: last_in_set)
    define h1 where "h1 = (c_heap s)(last xs \<mapsto> nb\<lparr>c_next := c_next m\<rparr>)"
    have x1: "lseg h1 None (clients s) xs (Some (last xs)) (c_next m)"
      unfolding h1_def using lseg_set_next [OF pm(1) [unfolded pl] False dist(3) nb] .
    have lx: "last xs \<in> set xs" using False by simp
    have ly: "last xs \<notin> set ys" using lx dist(5) by auto
    have y1: "lseg h1 (Some a) (c_next m) ys (Some (last (xs @ a # ys))) None"
      unfolding h1_def using pm(4) ly by (simp add: lseg_fresh)
    have a1: "h1 a = c_heap s a" using lx dist(1) by (auto simp: h1_def)
    have d1: "same_data (c_heap s) h1" unfolding h1_def using nb by (intro same_data_upd) auto
    have fst: "\<not> (c_prev m = None \<and> c_next m = None)" using pl pm(3) by simp
    have as1: "assign (c_heap s) (last xs) (\<lambda>n. n\<lparr>c_next := c_next m\<rparr>) = Inr h1"
      using nb by (simp add: assign_def node_at_def h1_def)
    show ?thesis
    proof (cases ys)
      case Nil
      then have nx: "c_next m = None" using pm(4) by simp
      obtain hn where hn: "h1 (hd xs) = Some hn" using lseg_dom [OF x1] False by (auto dest: hd_in_set)
      define h2 where "h2 = h1(hd xs \<mapsto> hn\<lparr>c_tail := Some (last xs)\<rparr>)"
      have "lseg h2 None (clients s) xs (Some (last xs)) None"
        unfolding h2_def using x1 nx by (simp add: lseg_data [of h1 "hd xs", OF hn])
      then have "registered (s\<lparr>c_heap := h2\<rparr>) (xs @ ys)"
        using Nil dist(3) False by (auto simp: registered_def h2_def)
      moreover have "remove_client s (Some a) = Inr (s\<lparr>c_heap := h2\<rparr>)"
        using pm(2,3) pl fst as1 nx head hn by (simp add: remove_client_def node_at_def assign_def h2_def)
      moreover have "same_data (c_heap s) h2" unfolding h2_def using d1 hn by (intro same_data_upd) auto
      moreover have "hd xs \<noteq> a" using dist(1) False by auto
      ultimately show ?thesis using a1 by (auto simp: h2_def)
    next
      case (Cons c cs)
      have nx: "c_next m = Some c" using pm(4) by (simp add: Cons)
      obtain nc where nc: "h1 c = Some nc" using lseg_dom [OF y1] Cons by auto
      define h2 where "h2 = h1(c \<mapsto> nc\<lparr>c_prev := Some (last xs)\<rparr>)"
      have y2: "lseg h2 (Some (last xs)) (Some c) ys (Some (last (xs @ a # ys))) None"
        unfolding h2_def Cons using y1 nx nc dist(4) by (intro lseg_set_prev) (auto simp: Cons)
      have cx: "c \<notin> set xs" using dist(5) Cons by auto
      have x2: "lseg h2 None (clients s) xs (Some (last xs)) (Some c)"
        unfolding h2_def using x1 nx cx by (simp add: lseg_fresh)
      have "lseg h2 None (clients s) (xs @ ys) (Some (last (xs @ a # ys))) None"
        unfolding lseg_append using x2 y2 by blast
      moreover have "map_option c_tail (h2 (hd xs)) = Some (Some (last ys))"
      proof -
        have "hd xs \<noteq> c" using cx False by auto
        then have "map_option c_tail (h2 (hd xs)) = map_option c_tail (c_heap s (hd xs))"
          using nb by (auto simp: h2_def h1_def)
        then show ?thesis using l(3) False Cons by auto
      qed
      ultimately have "registered (s\<lparr>c_heap := h2\<rparr>) (xs @ ys)"
        using False l(4) Cons by (auto simp: registered_def)
      moreover have "remove_client s (Some a) = Inr (s\<lparr>c_heap := h2\<rparr>)"
        using pm(2,3) pl fst as1 nx nc by (simp add: remove_client_def node_at_def assign_def h2_def)
      moreover have "same_data (c_heap s) h2" unfolding h2_def using d1 nc by (intro same_data_upd) auto
      moreover have "c \<noteq> a" using dist(2) Cons by auto
      ultimately show ?thesis using a1 by (auto simp: h2_def)
    qed
  qed
qed

section \<open>Registration\<close>

lemma registered_frame:
  assumes "registered s as" "a \<notin> set as"
  shows "registered (s\<lparr>c_heap := (c_heap s)(a := v)\<rparr>) as"
  using assms by (cases as) (auto simp: registered_def lseg_fresh)

lemma registered_data:
  assumes "registered s as" "c_heap s a = Some n"
  shows "registered (s\<lparr>c_heap := (c_heap s)(a \<mapsto> n\<lparr>client := c\<rparr>)\<rparr>) as"
  using assms by (auto simp: registered_def lseg_data [of "c_heap s" a n])

lemma find_unique:
  assumes "distinct (map f as)" "b \<in> set as"
  shows "find (\<lambda>a. f a = f b) as = Some b"
  using assms by (induction as) (auto simp: image_iff)

lemma find_None: "\<forall>a \<in> set as. \<not> P a \<Longrightarrow> find P as = None"
  by (induction as) auto

text \<open>The clients the server knows, each once and under its own process id.\<close>

definition registry_ok :: "registry \<Rightarrow> nat list \<Rightarrow> bool" where
  "registry_ok s as \<longleftrightarrow> registered s as \<and> distinct (map (pid_at (c_heap s)) as)"

definition idle :: "c_heap \<Rightarrow> nat \<Rightarrow> bool" where
  "idle h a = (case h a of None \<Rightarrow> False
     | Some n \<Rightarrow> num_requests_started (client n) = num_requests_completed (client n))"

lemma find_registered:
  assumes "registry_ok s as" "length as < fuel"
  shows "a \<in> set as \<Longrightarrow> find_client fuel s (pid_at (c_heap s) a) = Inr (Some a)"
    "\<forall>a \<in> set as. pid_at (c_heap s) a \<noteq> pid \<Longrightarrow> find_client fuel s pid = Inr None"
  using find_client_ok [of s as fuel] find_unique [of "pid_at (c_heap s)" as a] find_None [of as "\<lambda>a. pid_at (c_heap s) a = pid"] assms
  by (auto simp: registry_ok_def)

text \<open>The data of a node, without its links.\<close>

definition data_at :: "c_heap \<Rightarrow> nat \<Rightarrow> client option" where
  "data_at h a = map_option client (h a)"

lemma pid_data_at: "data_at h a = Some c \<Longrightarrow> pid_at h a = cl_pid c"
  by (auto simp: data_at_def pid_at_def)

lemma pid_data_eq: "data_at h' a = data_at h a \<Longrightarrow> pid_at h' a = pid_at h a"
  by (cases "h a"; cases "h' a") (auto simp: data_at_def pid_at_def)

lemma pids_data_eq: "\<forall>a \<in> set as. data_at h' a = data_at h a \<Longrightarrow> map (pid_at h') as = map (pid_at h) as"
  by (intro map_cong refl pid_data_eq) blast

lemma registry_ok_dom:
  assumes "registry_ok s as" "a \<in> set as"
  shows "\<exists>n. c_heap s a = Some n"
proof -
  obtain l where "lseg (c_heap s) None (clients s) as l None" using assms(1) by (auto simp: registry_ok_def registered_def)
  from lseg_dom [OF this] assms(2) show ?thesis by blast
qed

lemma register_client_new:
  assumes ok: "registry_ok s as" and len: "length as < fuel"
    and os: "os = \<lparr>open_recv_q = Some sq, open_send_q = Some rq, open_shm_size = Some sz, new_node = Some b, stack_client = stk\<rparr>"
    and fresh: "c_heap s b = None" and new: "\<forall>a \<in> set as. pid_at (c_heap s) a \<noteq> reg_pid entry"
  shows "\<exists>s'. register_client fuel os s entry = Inr (Some (0, s')) \<and> registry_ok s' (as @ [b])
    \<and> data_at (c_heap s') b = Some \<lparr>cl_pid = reg_pid entry, send_q = sq, recv_q = rq, cl_shm_size = sz, cl_shm_name = shm_name entry,
        stop_client_threads = False, num_requests_started = 0, num_requests_completed = 0\<rparr>
    \<and> (\<forall>a. a \<noteq> b \<longrightarrow> data_at (c_heap s') a = data_at (c_heap s) a)"
proof -
  have reg: "registered s as" using ok by (simp add: registry_ok_def)
  have f0: "find_client fuel s (reg_pid entry) = Inr None" by (rule find_registered(2) [OF ok len new])
  define c where "c = stk\<lparr>cl_pid := reg_pid entry, send_q := sq, recv_q := rq, cl_shm_name := shm_name entry, cl_shm_size := sz\<rparr>"
  define s1 where "s1 = s\<lparr>c_heap := (c_heap s)(b \<mapsto> \<lparr>client = c, c_tail = None, c_next = None, c_prev = None\<rparr>)\<rparr>"
  have nb: "b \<notin> set as" using registry_ok_dom [OF ok, of b] fresh by auto
  have "registered s1 as" unfolding s1_def by (rule registered_frame [OF reg nb])
  moreover have "c_heap s1 b = Some \<lparr>client = c, c_tail = None, c_next = None, c_prev = None\<rparr>" by (simp add: s1_def)
  ultimately obtain s2 where s2: "append_client s1 b = Inr s2" "registered s2 (as @ [b])" "same_data (c_heap s1) (c_heap s2)"
    using append_client_ok [of s1 as b] nb by blast
  have data: "data_at (c_heap s2) x = data_at (c_heap s1) x" for x using s2(3) by (simp add: same_data_def data_at_def)
  obtain n where n: "c_heap s2 b = Some n" "client n = c" using data [of b] by (auto simp: s1_def data_at_def)
  define s3 where "s3 = s2\<lparr>c_heap := (c_heap s2)(b \<mapsto> n\<lparr>client := init_worker_threads c\<rparr>)\<rparr>"
  have call: "register_client fuel os s entry = Inr (Some (0, s3))"
    using f0 s2(1) n by (simp add: register_client_def os open_shm_def assign_def node_at_def s3_def flip: c_def s1_def)
  have r3: "registered s3 (as @ [b])" unfolding s3_def by (rule registered_data [OF s2(2) n(1)])
  have d3: "data_at (c_heap s3) a = data_at (c_heap s) a" if "a \<noteq> b" for a
    using that data [of a] by (simp add: data_at_def s3_def s1_def)
  have b3: "data_at (c_heap s3) b = Some (init_worker_threads c)" by (simp add: data_at_def s3_def)
  have pb: "pid_at (c_heap s3) b = reg_pid entry" using pid_data_at [OF b3] by (simp add: init_worker_threads_def c_def)
  have eq: "map (pid_at (c_heap s3)) as = map (pid_at (c_heap s)) as" by (rule pids_data_eq) (metis d3 nb)
  have "distinct (map (pid_at (c_heap s3)) as)" unfolding eq using ok by (simp add: registry_ok_def)
  moreover have "pid_at (c_heap s3) b \<notin> set (map (pid_at (c_heap s3)) as)" unfolding eq pb using new by auto
  ultimately have "distinct (map (pid_at (c_heap s3)) (as @ [b]))" by simp
  moreover have "init_worker_threads c = \<lparr>cl_pid = reg_pid entry, send_q = sq, recv_q = rq, cl_shm_size = sz, cl_shm_name = shm_name entry,
      stop_client_threads = False, num_requests_started = 0, num_requests_completed = 0\<rparr>"
    by (cases stk) (simp add: c_def init_worker_threads_def)
  ultimately show ?thesis using call r3 d3 b3 unfolding registry_ok_def by metis
qed

text \<open>Only the heap and the head of the list matter for the registered clients.\<close>

lemma registered_cong: "c_heap s' = c_heap s \<Longrightarrow> clients s' = clients s \<Longrightarrow> registered s' as = registered s as"
  unfolding registered_def by metis

lemma registry_ok_cong: "c_heap s' = c_heap s \<Longrightarrow> clients s' = clients s \<Longrightarrow> registry_ok s' as = registry_ok s as"
  unfolding registry_ok_def registered_def by metis

text \<open>The closing server is stuck in \<^verbatim>\<open>mq_send\<close>, or the pill has been sent or refused.\<close>

definition pill_blocks :: "registry \<Rightarrow> client \<Rightarrow> bool" where
  "pill_blocks s c \<longleftrightarrow> send_q c \<notin> set (closed_queues s) \<and> send_q c \<in> full_queues s"

lemma send_pill_cases:
  "pill_blocks s c \<Longrightarrow> send_pill c s = Inl Nontermination"
  "\<not> pill_blocks s c \<Longrightarrow> \<exists>s'. send_pill c s = Inr s' \<and> c_heap s' = c_heap s \<and> clients s' = clients s
     \<and> sent s' = sent s @ (if send_q c \<in> set (closed_queues s) then [] else [(send_q c, TINYFILE_SERVER_CLOSE)])
     \<and> closed_queues s' = closed_queues s \<and> cancelled s' = cancelled s"
  by (auto simp: pill_blocks_def send_pill_def)

lemma remove_client_rest:
  assumes "remove_client s a = Inr s'"
  shows "closed_queues s' = closed_queues s" "cancelled s' = cancelled s" "full_queues s' = full_queues s"
  using assms by (auto simp: remove_client_def cbind_eq_Inr_conv split: option.splits if_splits)

text \<open>The steps of \<^verbatim>\<open>unregister_client\<close> up to the wait, on a registered client that is not the first of several.\<close>

lemma unregister_client_steps:
  assumes ok: "registry_ok s (xs @ a # ys)" and ne: "xs \<noteq> [] \<or> ys = []" and n: "c_heap s a = Some n"
    and len: "length (xs @ a # ys) < fuel" and pill: "close \<longrightarrow> \<not> pill_blocks s (client n)"
  obtains s2 m where "registered s2 (xs @ ys)" "same_data (c_heap s) (c_heap s2)" "c_heap s2 a = Some m" "client m = client n"
    "sent s2 = sent s @ (if close \<and> send_q (client n) \<notin> set (closed_queues s) then [(send_q (client n), TINYFILE_SERVER_CLOSE)] else [])"
    "closed_queues s2 = closed_queues s" "cancelled s2 = cancelled s"
    "unregister_client fuel s (cl_pid (client n)) close =
       (if num_requests_started (client n) \<noteq> num_requests_completed (client n) then Inl Nontermination
        else Inr (0, s2\<lparr>c_heap := (c_heap s2)(a := None), closed_queues := closed_queues s2 @ [send_q (client n), recv_q (client n)],
               cancelled := cancelled s2 @ [a], unmapped := unmapped s2 @ [cl_shm_name (client n)]\<rparr>))"
proof -
  have pid: "pid_at (c_heap s) a = cl_pid (client n)" using n by (simp add: pid_at_def)
  have f: "find_client fuel s (cl_pid (client n)) = Inr (Some a)" using find_registered(1) [OF ok len, of a] pid by simp
  obtain s1 where s1: "(if close then send_pill (client n) s else Inr s) = Inr s1" "c_heap s1 = c_heap s" "clients s1 = clients s"
      "sent s1 = sent s @ (if close \<and> send_q (client n) \<notin> set (closed_queues s) then [(send_q (client n), TINYFILE_SERVER_CLOSE)] else [])"
      "closed_queues s1 = closed_queues s" "cancelled s1 = cancelled s"
  proof (cases close)
    case True
    with pill have "\<not> pill_blocks s (client n)" by blast
    from send_pill_cases(2) [OF this] obtain s' where s': "send_pill (client n) s = Inr s'" "c_heap s' = c_heap s" "clients s' = clients s"
        "sent s' = sent s @ (if send_q (client n) \<in> set (closed_queues s) then [] else [(send_q (client n), TINYFILE_SERVER_CLOSE)])"
        "closed_queues s' = closed_queues s" "cancelled s' = cancelled s" by blast
    show thesis by (rule that [of s']) (simp_all add: True s')
  next
    case False
    then show thesis by (intro that [of s]) simp_all
  qed
  have "registered s1 (xs @ a # ys)" using ok registered_cong [OF s1(2,3)] unfolding registry_ok_def by blast
  then obtain s2 where s2: "remove_client s1 (Some a) = Inr s2" "registered s2 (xs @ ys)" "same_data (c_heap s) (c_heap s2)"
      "c_heap s2 a = Some n" "sent s2 = sent s1"
    using remove_client_ok [OF _ ne] n s1(2) by metis
  note r = remove_client_rest [OF s2(1)]
  have "unregister_client fuel s (cl_pid (client n)) close =
       (if num_requests_started (client n) \<noteq> num_requests_completed (client n) then Inl Nontermination
        else Inr (0, s2\<lparr>c_heap := (c_heap s2)(a := None), closed_queues := closed_queues s2 @ [send_q (client n), recv_q (client n)],
               cancelled := cancelled s2 @ [a], unmapped := unmapped s2 @ [cl_shm_name (client n)]\<rparr>))"
    using f n s1(1) s2(1,4) by (simp add: unregister_client_def node_at_def Let_def cleanup_worker_threads_def)
  note call = this
  have "sent s2 = sent s @ (if close \<and> send_q (client n) \<notin> set (closed_queues s) then [(send_q (client n), TINYFILE_SERVER_CLOSE)] else [])"
    unfolding s2(5) by (rule s1(4))
  moreover have "closed_queues s2 = closed_queues s" "cancelled s2 = cancelled s" using r s1(5,6) by simp_all
  ultimately show thesis by (rule that [OF s2(2-4) refl _ _ _ call])
qed

lemma unregister_client_waits:
  assumes "registry_ok s (xs @ a # ys)" "xs \<noteq> [] \<or> ys = []" "c_heap s a = Some n" "length (xs @ a # ys) < fuel" "\<not> idle (c_heap s) a"
    "close \<longrightarrow> \<not> pill_blocks s (client n)"
  shows "unregister_client fuel s (cl_pid (client n)) close = Inl Nontermination"
  by (rule unregister_client_steps [OF assms(1-4,6)]) (use assms(3,5) in \<open>simp add: idle_def\<close>)


lemma unregister_client_known:
  assumes ok: "registry_ok s (xs @ a # ys)" and ne: "xs \<noteq> [] \<or> ys = []" and idle: "idle (c_heap s) a"
    and len: "length (xs @ a # ys) < fuel" and n: "c_heap s a = Some n" and pill: "close \<longrightarrow> \<not> pill_blocks s (client n)"
  shows "\<exists>s'. unregister_client fuel s (cl_pid (client n)) close = Inr (0, s') \<and> registry_ok s' (xs @ ys) \<and> c_heap s' a = None
    \<and> (\<forall>b. b \<noteq> a \<longrightarrow> data_at (c_heap s') b = data_at (c_heap s) b)
    \<and> sent s' = sent s @ (if close \<and> send_q (client n) \<notin> set (closed_queues s) then [(send_q (client n), TINYFILE_SERVER_CLOSE)] else [])
    \<and> closed_queues s' = closed_queues s @ [send_q (client n), recv_q (client n)] \<and> cancelled s' = cancelled s @ [a]"
proof (rule unregister_client_steps [OF ok ne n len pill])
  fix s2 m
  assume s2: "registered s2 (xs @ ys)" "same_data (c_heap s) (c_heap s2)" "c_heap s2 a = Some m" "client m = client n"
    "sent s2 = sent s @ (if close \<and> send_q (client n) \<notin> set (closed_queues s) then [(send_q (client n), TINYFILE_SERVER_CLOSE)] else [])"
    "closed_queues s2 = closed_queues s" "cancelled s2 = cancelled s"
    and call: "unregister_client fuel s (cl_pid (client n)) close =
       (if num_requests_started (client n) \<noteq> num_requests_completed (client n) then Inl Nontermination
        else Inr (0, s2\<lparr>c_heap := (c_heap s2)(a := None), closed_queues := closed_queues s2 @ [send_q (client n), recv_q (client n)],
               cancelled := cancelled s2 @ [a], unmapped := unmapped s2 @ [cl_shm_name (client n)]\<rparr>))"
  have reg: "registered s (xs @ a # ys)" and dp: "distinct (map (pid_at (c_heap s)) (xs @ a # ys))"
    using ok by (simp_all add: registry_ok_def)
  have da: "a \<notin> set (xs @ ys)" using reg by (auto simp: registered_def)
  define s3 where "s3 = s2\<lparr>c_heap := (c_heap s2)(a := None), closed_queues := closed_queues s2 @ [send_q (client n), recv_q (client n)],
               cancelled := cancelled s2 @ [a], unmapped := unmapped s2 @ [cl_shm_name (client n)]\<rparr>"
  have "registered (s2\<lparr>c_heap := (c_heap s2)(a := None)\<rparr>) (xs @ ys)" by (rule registered_frame [OF s2(1) da])
  then have r3: "registered s3 (xs @ ys)" by (simp add: s3_def registered_def)
  have d3: "data_at (c_heap s3) b = data_at (c_heap s) b" if "b \<noteq> a" for b
    using that s2(2) by (simp add: same_data_def data_at_def s3_def)
  have "map (pid_at (c_heap s3)) (xs @ ys) = map (pid_at (c_heap s)) (xs @ ys)" by (rule pids_data_eq) (metis d3 da)
  moreover have "distinct (map (pid_at (c_heap s)) (xs @ ys))" using dp by auto
  ultimately have "distinct (map (pid_at (c_heap s3)) (xs @ ys))" by metis
  then have "registry_ok s3 (xs @ ys)" using r3 by (simp add: registry_ok_def)
  moreover have "unregister_client fuel s (cl_pid (client n)) close = Inr (0, s3)" using call idle n by (simp add: idle_def s3_def)
  moreover have "c_heap s3 a = None" "sent s3 = sent s2" "closed_queues s3 = closed_queues s @ [send_q (client n), recv_q (client n)]"
    "cancelled s3 = cancelled s @ [a]"
    using s2(6,7) by (simp_all add: s3_def)
  ultimately show ?thesis using d3 s2(5) by metis
qed

text \<open>Two registered clients, for the witnesses.\<close>

definition example_client :: "int \<Rightarrow> client" where
  "example_client pid = \<lparr>cl_pid = pid, send_q = 3, recv_q = 4, cl_shm_size = 704, cl_shm_name = ''/shm'',
     stop_client_threads = False, num_requests_started = 2, num_requests_completed = 2\<rparr>"

definition example_registry :: registry where
  "example_registry = \<lparr>c_heap = [2 \<mapsto> \<lparr>client = example_client 11, c_tail = Some 3, c_next = Some 3, c_prev = None\<rparr>,
                                3 \<mapsto> \<lparr>client = example_client 12, c_tail = Some 3, c_next = None, c_prev = Some 2\<rparr>],
     clients = Some 2, sent = [], stop_registry = False, full_queues = {}, closed_queues = [], cancelled = [], unmapped = [], send_errors = []\<rparr>"

lemma example_registry_ok: "registry_ok example_registry [2, 3]"
  by (simp add: registry_ok_def registered_def example_registry_def example_client_def pid_at_def)

lemma example_idle: "idle (c_heap example_registry) 2" "idle (c_heap example_registry) 3"
  by (simp_all add: idle_def example_registry_def example_client_def)

lemma example_nodes:
  "c_heap example_registry 2 = Some \<lparr>client = example_client 11, c_tail = Some 3, c_next = Some 3, c_prev = None\<rparr>"
  "c_heap example_registry 3 = Some \<lparr>client = example_client 12, c_tail = Some 3, c_next = None, c_prev = Some 2\<rparr>"
  "c_heap example_registry 5 = None"
  by (simp_all add: example_registry_def)

text \<open>
  C23. \<^verbatim>\<open>register_client\<close>: a client the server does not know is appended to the list and found under its process id from then
  on, with its counters at zero whatever the record on the stack held, and every other client is still found; a client that is known
  already changes nothing.
\<close>

theorem register_client_correct:
  assumes ok: "registry_ok s as" and len: "Suc (length as) < fuel"
    and os: "os = \<lparr>open_recv_q = Some sq, open_send_q = Some rq, open_shm_size = Some sz, new_node = Some b, stack_client = stk\<rparr>"
    and fresh: "c_heap s b = None"
  shows "if \<exists>a \<in> set as. pid_at (c_heap s) a = reg_pid entry
         then register_client fuel os s entry = Inr (Some (0, s))
         else \<exists>s'. register_client fuel os s entry = Inr (Some (0, s')) \<and> registry_ok s' (as @ [b])
                \<and> find_client fuel s' (reg_pid entry) = Inr (Some b) \<and> idle (c_heap s') b
                \<and> data_at (c_heap s') b = Some \<lparr>cl_pid = reg_pid entry, send_q = sq, recv_q = rq, cl_shm_size = sz, cl_shm_name = shm_name entry,
                     stop_client_threads = False, num_requests_started = 0, num_requests_completed = 0\<rparr>
                \<and> (\<forall>a \<in> set as. find_client fuel s' (pid_at (c_heap s) a) = Inr (Some a))"
proof (cases "\<exists>a \<in> set as. pid_at (c_heap s) a = reg_pid entry")
  case True
  then obtain a where a: "a \<in> set as" "pid_at (c_heap s) a = reg_pid entry" by auto
  then have "find_client fuel s (reg_pid entry) = Inr (Some a)" using find_registered(1) [OF ok, of fuel a] len by simp
  then show ?thesis using True by (simp add: register_client_def)
next
  case False
  then obtain s' where s': "register_client fuel os s entry = Inr (Some (0, s'))" "registry_ok s' (as @ [b])"
      "data_at (c_heap s') b = Some \<lparr>cl_pid = reg_pid entry, send_q = sq, recv_q = rq, cl_shm_size = sz,
         cl_shm_name = shm_name entry, stop_client_threads = False, num_requests_started = 0, num_requests_completed = 0\<rparr>"
      "\<forall>a. a \<noteq> b \<longrightarrow> data_at (c_heap s') a = data_at (c_heap s) a"
    using register_client_new [OF ok _ os fresh, of fuel entry] len by auto
  note f = find_registered(1) [OF s'(2), of fuel]
  have "find_client fuel s' (reg_pid entry) = Inr (Some b)"
    using f [of b] len pid_data_at [OF s'(3)] by (simp add: init_worker_threads_def)
  moreover have "idle (c_heap s') b" using s'(3) by (auto simp: idle_def data_at_def init_worker_threads_def split: option.splits)
  moreover have "find_client fuel s' (pid_at (c_heap s) a) = Inr (Some a)" if "a \<in> set as" for a
  proof -
    have "a \<noteq> b" using registry_ok_dom [OF ok that] fresh by auto
    then have "pid_at (c_heap s') a = pid_at (c_heap s) a" using s'(4) pid_data_eq by blast
    then show ?thesis using f [of a] that len by simp
  qed
  ultimately show ?thesis using False s'(1-3) by auto
qed

theorem register_client_correct_witness:
  "\<exists>s'. register_client 4 \<lparr>open_recv_q = Some 6, open_send_q = Some 7, open_shm_size = Some 704, new_node = Some 5, stack_client = example_client 99\<rparr> example_registry
       \<lparr>cmd = TINYFILE_CLIENT_REGISTER, reg_pid = 13, send_q_name = ''/s'', recv_q_name = ''/r'', shm_name = ''/m''\<rparr> = Inr (Some (0, s'))
     \<and> registry_ok s' [2, 3, 5] \<and> find_client 4 s' 13 = Inr (Some 5)"
  using register_client_correct [OF example_registry_ok _ refl example_nodes(3), where fuel = 4 and sq = 6 and rq = 7
      and sz = 704 and stk = "example_client 99" and entry = "\<lparr>cmd = TINYFILE_CLIENT_REGISTER, reg_pid = 13, send_q_name = ''/s'', recv_q_name = ''/r'', shm_name = ''/m''\<rparr>"]
  by (simp add: pid_at_def example_nodes example_client_def) blast



text \<open>The first of several clients: the head of the list stays where it is.\<close>

lemma unregister_first_steps:
  assumes ok: "registry_ok s (a # b # ys)" and n: "c_heap s a = Some n" and fuel: "0 < fuel"
  shows "if num_requests_started (client n) \<noteq> num_requests_completed (client n)
    then unregister_client fuel s (cl_pid (client n)) False = Inl Nontermination
    else \<exists>s'. clients s' = Some a \<and> c_heap s' a = None \<and> unregister_client fuel s (cl_pid (client n)) False = Inr (0, s')"
proof -
  have reg: "registered s (a # b # ys)" using ok by (simp add: registry_ok_def)
  note l = registered_lseg [OF reg, simplified]
  obtain m where m: "c_next n = Some b" "c_prev n = None" "c_heap s b = Some m" "a \<noteq> b" using l(2,4) n by auto
  obtain k where k: "fuel = Suc k" using fuel by (cases fuel) auto
  let ?s = "s\<lparr>c_heap := (c_heap s)(b \<mapsto> m\<lparr>c_prev := None\<rparr>)\<rparr>"
  have "find_client fuel s (cl_pid (client n)) = Inr (Some a)"
    using l(1) n by (simp add: find_client_def k node_at_def)
  moreover have "remove_client s (Some a) = Inr ?s"
    using n m by (simp add: remove_client_def node_at_def assign_def)
  ultimately show ?thesis
    using n m l(1) by (simp add: unregister_client_def node_at_def Let_def cleanup_worker_threads_def)
qed

text \<open>
  C36. Unregistering the first of several clients: \<^verbatim>\<open>remove_client\<close> does not move \<^verbatim>\<open>clients\<close> on, so after the node has been freed
  every later \<^verbatim>\<open>find_client\<close>, and with it every registration, reads freed memory.
\<close>

theorem unregister_first_client_dangles:
  assumes ok: "registry_ok s (a # b # ys)" and idle: "idle (c_heap s) a" and n: "c_heap s a = Some n" and fuel: "0 < fuel"
  shows "\<exists>s'. unregister_client fuel s (cl_pid (client n)) False = Inr (0, s')
           \<and> (\<forall>pid. find_client fuel s' pid = Inl Invalid_access)"
proof -
  obtain s' where "clients s' = Some a" "c_heap s' a = None" "unregister_client fuel s (cl_pid (client n)) False = Inr (0, s')"
    using unregister_first_steps [OF ok n fuel] idle n by (auto simp: idle_def)
  moreover obtain k where "fuel = Suc k" using fuel by (cases fuel) auto
  ultimately show ?thesis by (auto simp: find_client_def node_at_def)
qed

theorem unregister_first_client_dangles_witness:
  "\<exists>s'. unregister_client 3 example_registry 11 False = Inr (0, s') \<and> (\<forall>pid. find_client 3 s' pid = Inl Invalid_access)"
  using unregister_first_client_dangles [OF example_registry_ok example_idle(1) example_nodes(1), of 3]
  by (simp add: example_client_def)

text \<open>
  C38. A worker that has received a request and has not counted it yet is not waited for: \<^verbatim>\<open>unregister_client\<close> finds the counters equal and frees the node, and
  the worker goes on with freed memory. A worker that has counted its request in time is waited for: \<^verbatim>\<open>unregister_client\<close> does not get past its loop
  while the counters differ.
\<close>

theorem unregister_races_with_worker:
  assumes "registry_ok s (xs @ a # ys)" "xs \<noteq> [] \<or> ys = []" "idle (c_heap s) a" "length (xs @ a # ys) < fuel"
  shows "(\<exists>s'. unregister_client fuel s (pid_at (c_heap s) a) False = Inr (0, s') \<and> count_started s' a = Inl Invalid_access)
    \<and> (\<exists>s'. count_started s a = Inr s' \<and> unregister_client fuel s' (pid_at (c_heap s) a) False = Inl Nontermination)"
proof
  obtain n where n: "c_heap s a = Some n" using registry_ok_dom [OF assms(1), of a] by auto
  then have pid: "pid_at (c_heap s) a = cl_pid (client n)" by (simp add: pid_at_def)
  obtain s' where "unregister_client fuel s (cl_pid (client n)) False = Inr (0, s')" "c_heap s' a = None"
    using unregister_client_known [OF assms n, of False] by blast
  then show "\<exists>s'. unregister_client fuel s (pid_at (c_heap s) a) False = Inr (0, s') \<and> count_started s' a = Inl Invalid_access"
    by (auto simp: count_started_def assign_def node_at_def pid)
  define c where "c = (client n)\<lparr>num_requests_started := num_requests_started (client n) + 1\<rparr>"
  define s1 where "s1 = s\<lparr>c_heap := (c_heap s)(a \<mapsto> n\<lparr>client := c\<rparr>)\<rparr>"
  have cs: "count_started s a = Inr s1" using n by (simp add: count_started_def assign_def node_at_def c_def s1_def)
  have ok: "registry_ok s1 (xs @ a # ys)"
  proof -
    have "pid_at (c_heap s1) = pid_at (c_heap s)" using n by (auto simp: pid_at_def fun_eq_iff s1_def c_def)
    then show ?thesis using assms(1) registered_data [OF _ n] by (simp add: registry_ok_def s1_def)
  qed
  have n1: "c_heap s1 a = Some (n\<lparr>client := c\<rparr>)" by (simp add: s1_def)
  have "\<not> idle (c_heap s1) a" using assms(3) n by (simp add: idle_def s1_def c_def)
  from unregister_client_waits [OF ok assms(2) n1 assms(4) this, of False]
  have "unregister_client fuel s1 (pid_at (c_heap s) a) False = Inl Nontermination" by (simp add: pid c_def)
  then show "\<exists>s'. count_started s a = Inr s' \<and> unregister_client fuel s' (pid_at (c_heap s) a) False = Inl Nontermination"
    using cs by blast
qed

theorem unregister_races_with_worker_witness:
  "(\<exists>s'. unregister_client 3 example_registry 12 False = Inr (0, s') \<and> count_started s' 3 = Inl Invalid_access)
   \<and> (\<exists>s'. count_started example_registry 3 = Inr s' \<and> unregister_client 3 s' 12 False = Inl Nontermination)"
  using unregister_races_with_worker [of example_registry "[2]" 3 "[]" 3] example_registry_ok example_idle
  by (simp add: example_nodes pid_at_def example_client_def)

text \<open>
  \<^verbatim>\<open>exit_server\<close> reads \<^verbatim>\<open>client_list->next\<close> after \<^verbatim>\<open>unregister_client\<close> has freed the node: with any client registered, the clean exit of
  the server uses freed memory.
\<close>

theorem exit_server_uses_freed_node:
  assumes ok: "registry_ok s (a # as)" and idle: "idle (c_heap s) a" and fuel: "0 < fuel"
    and pill: "\<And>n. c_heap s a = Some n \<Longrightarrow> \<not> pill_blocks s (client n)"
  shows "exit_server fuel s = Inl Invalid_access"
proof -
  have reg: "registered s (a # as)" using ok by (simp add: registry_ok_def)
  note l = registered_lseg [OF reg, simplified]
  obtain n where n: "c_heap s a = Some n" "c_prev n = None" "c_tail n = Some (last (a # as))" using l(2,3) by auto
  obtain k where k: "fuel = Suc k" using fuel by (cases fuel) auto
  obtain s0 where s0: "send_pill (client n) s = Inr s0" "c_heap s0 = c_heap s" "clients s0 = clients s"
    using send_pill_cases(2) [OF pill [OF n(1)]] by auto
  have f: "find_client fuel s (cl_pid (client n)) = Inr (Some a)"
    using l(1) n by (simp add: find_client_def k node_at_def)
  have "\<exists>s'. remove_client s0 (Some a) = Inr s' \<and> c_heap s' a = Some n"
  proof (cases as)
    case Nil
    then show ?thesis using l(2) n s0 by (auto simp: remove_client_def node_at_def)
  next
    case (Cons b bs)
    then obtain m where "c_next n = Some b" "c_heap s b = Some m" "a \<noteq> b" using l(2,4) n by auto
    then show ?thesis using n s0 by (simp add: remove_client_def node_at_def assign_def)
  qed
  then obtain s' where s': "remove_client s0 (Some a) = Inr s'" "c_heap s' a = Some n" by blast
  have "\<exists>s'. unregister_client fuel s (cl_pid (client n)) True = Inr (0, s') \<and> c_heap s' a = None"
    using f s' s0(1) n idle by (simp add: unregister_client_def node_at_def idle_def Let_def cleanup_worker_threads_def)
  then show ?thesis
    using l(1) n by (auto simp: exit_server_def k node_at_def)
qed

theorem exit_server_uses_freed_node_witness: "exit_server 3 example_registry = Inl Invalid_access"
  by (rule exit_server_uses_freed_node [OF example_registry_ok example_idle(1)]) (simp_all add: pill_blocks_def example_registry_def)

end
