(* ===== verification/Request_Queue.thy ===== *)
theory Request_Queue
  imports TF_Types "HOL-Library.Multiset"
begin

text \<open>
  The queue of pending requests in the client library (\<^verbatim>\<open>api.c\<close>): a singly linked list in the heap, ordered by
  priority, from which a worker thread feeds the message queue of the server. Addresses are
  numbers, \<^verbatim>\<open>None\<close> is \<^verbatim>\<open>NULL\<close>, and a freed node leaves the heap, so that using it is a fault. Each
  operation runs under the mutex of the queue and is one atomic step.
\<close>

section \<open>State\<close>

record request_q =
  request :: tinyfile_request
  q_next :: "nat option"

type_synonym q_heap = "nat \<rightharpoonup> request_q"

record request_q_params =
  q_heap :: q_heap
  queue :: "nat option"
  stop_worker :: bool

definition deref :: "q_heap \<Rightarrow> nat \<Rightarrow> request_q c_result" where
  "deref h a = (case h a of None \<Rightarrow> Inl Invalid_access | Some n \<Rightarrow> Inr n)"

section \<open>Operations\<close>

text \<open>
  The search loop of \<^verbatim>\<open>request_q_enqueue\<close>: \<^verbatim>\<open>prev\<close> and \<^verbatim>\<open>curr\<close> at its end. The budget is for the length of the list.
\<close>

fun find_position ::
    "nat \<Rightarrow> q_heap \<Rightarrow> u32 \<Rightarrow> nat option \<Rightarrow> nat option \<Rightarrow> (nat option \<times> nat option) c_result" where
  "find_position 0 h p prev cur = Inl Nontermination"
| "find_position (Suc fuel) h p prev cur =
     (case cur of
        None \<Rightarrow> Inr (prev, cur)
      | Some a \<Rightarrow>
          cbind (deref h a) (\<lambda>n.
            if priority (request n) \<ge> p then find_position fuel h p cur (q_next n)
            else Inr (prev, cur)))"

text \<open>
  \<open>mem\<close> is what \<^verbatim>\<open>malloc\<close> returned; the code does not test it before it writes through it.
\<close>

definition request_q_enqueue ::
    "nat \<Rightarrow> nat option \<Rightarrow> request_q_params \<Rightarrow> tinyfile_request \<Rightarrow> request_q_params c_result" where
  "request_q_enqueue fuel mem s req =
     (case mem of
        None \<Rightarrow> Inl Invalid_access
      | Some entry \<Rightarrow>
          cbind (find_position fuel (q_heap s) (priority req) None (queue s)) (\<lambda>(prev, cur).
          let h = (q_heap s)(entry \<mapsto> \<lparr>request = req, q_next = cur\<rparr>) in
          case prev of
            None \<Rightarrow> Inr (s\<lparr>q_heap := h, queue := Some entry\<rparr>)
          | Some p \<Rightarrow>
              cbind (deref h p) (\<lambda>n. Inr (s\<lparr>q_heap := h(p \<mapsto> n\<lparr>q_next := Some entry\<rparr>)\<rparr>))))"

text \<open>\<^verbatim>\<open>Some r\<close> is the return value \<open>0\<close> with \<open>r\<close> in \<^verbatim>\<open>*request\<close>; \<^verbatim>\<open>None\<close> is \<^verbatim>\<open>-1\<close>.\<close>

definition request_q_dequeue :: "request_q_params \<Rightarrow> (tinyfile_request option \<times> request_q_params) c_result" where
  "request_q_dequeue s =
     (case queue s of
        None \<Rightarrow> Inr (None, s)
      | Some head \<Rightarrow>
          cbind (deref (q_heap s) head) (\<lambda>n.
            Inr (Some (request n), s\<lparr>queue := q_next n, q_heap := (q_heap s)(head := None)\<rparr>)))"

definition async_req_q_init :: "request_q_params \<Rightarrow> request_q_params" where
  "async_req_q_init s = s\<lparr>queue := None, stop_worker := False\<rparr>"

text \<open>The loop of \<^verbatim>\<open>async_req_q_destroy\<close> that frees the nodes.\<close>

fun free_nodes :: "nat \<Rightarrow> q_heap \<Rightarrow> nat option \<Rightarrow> q_heap c_result" where
  "free_nodes 0 h head = Inl Nontermination"
| "free_nodes (Suc fuel) h head =
     (case head of
        None \<Rightarrow> Inr h
      | Some a \<Rightarrow> cbind (deref h a) (\<lambda>n. free_nodes fuel (h(a := None)) (q_next n)))"

text \<open>
  \<^verbatim>\<open>async_req_q_destroy\<close> up to the unlock, and its second half, which stops the worker. The worker runs
  until then, so its operations may come between the two.
\<close>

definition async_req_q_free :: "nat \<Rightarrow> request_q_params \<Rightarrow> request_q_params c_result" where
  "async_req_q_free fuel s =
     cbind (free_nodes fuel (q_heap s) (queue s)) (\<lambda>h. Inr (s\<lparr>q_heap := h\<rparr>))"

definition async_req_q_stop :: "request_q_params \<Rightarrow> request_q_params" where
  "async_req_q_stop s = s\<lparr>stop_worker := True\<rparr>"

text \<open>
  One pass of the loop of \<^verbatim>\<open>request_q_handler\<close>: \<^verbatim>\<open>None\<close> when the worker ends, else the request it hands to
  \<^verbatim>\<open>mq_send\<close>, if there is one.
\<close>

definition request_q_handler_step ::
    "request_q_params \<Rightarrow> (tinyfile_request option option \<times> request_q_params) c_result" where
  "request_q_handler_step s =
     (if stop_worker s then Inr (None, s)
      else cbind (request_q_dequeue s) (\<lambda>(r, s). Inr (Some r, s)))"

section \<open>The list in the heap\<close>

text \<open>\<open>chain h p xs\<close>: from \<open>p\<close> the heap holds the nodes \<open>xs\<close>, given as address and request, and then \<^verbatim>\<open>NULL\<close>.\<close>

fun chain :: "q_heap \<Rightarrow> nat option \<Rightarrow> (nat \<times> tinyfile_request) list \<Rightarrow> bool" where
  "chain h p [] \<longleftrightarrow> p = None"
| "chain h p ((a, r) # xs) \<longleftrightarrow>
     p = Some a \<and> (\<exists>n. h a = Some n \<and> request n = r \<and> chain h (q_next n) xs)"

lemma chain_fresh: "a \<notin> fst ` set xs \<Longrightarrow> chain (h(a := v)) p xs = chain h p xs"
  by (induction h p xs rule: chain.induct) auto

lemma chain_dom: "chain h p xs \<Longrightarrow> fst ` set xs \<subseteq> dom h"
  by (induction h p xs rule: chain.induct) auto

text \<open>The requests of a queue, by priority and, within a priority, in the order of arrival.\<close>

definition prio_sorted :: "tinyfile_request list \<Rightarrow> bool" where
  "prio_sorted rs \<longleftrightarrow> sorted_wrt (\<lambda>r r'. priority r' \<le> priority r) rs"

definition queue_holds :: "request_q_params \<Rightarrow> tinyfile_request list \<Rightarrow> bool" where
  "queue_holds s rs \<longleftrightarrow>
     (\<exists>xs. chain (q_heap s) (queue s) xs \<and> distinct (map fst xs) \<and> map snd xs = rs) \<and> prio_sorted rs"

definition prio_insert :: "tinyfile_request \<Rightarrow> tinyfile_request list \<Rightarrow> tinyfile_request list" where
  "prio_insert r rs = takeWhile (\<lambda>x. priority r \<le> priority x) rs @ r # dropWhile (\<lambda>x. priority r \<le> priority x) rs"

section \<open>Enqueueing\<close>

lemma prio_sorted_insert: "prio_sorted rs \<Longrightarrow> prio_sorted (prio_insert r rs)"
proof (induction rs)
  case Nil
  then show ?case by (simp add: prio_sorted_def prio_insert_def)
next
  case (Cons x rs)
  have IH: "prio_sorted (prio_insert r rs)" using Cons by (simp add: prio_sorted_def)
  show ?case
  proof (cases "priority r \<le> priority x")
    case True
    then have "prio_insert r (x # rs) = x # prio_insert r rs" by (simp add: prio_insert_def)
    moreover have "set (prio_insert r rs) = insert r (set rs)"
      unfolding prio_insert_def by (metis list.simps(15) set_append sup.commute takeWhile_dropWhile_id Un_insert_right)
    ultimately show ?thesis using IH True Cons.prems by (auto simp: prio_sorted_def)
  next
    case False
    then have "prio_insert r (x # rs) = r # x # rs" by (simp add: prio_insert_def)
    then show ?thesis using False Cons.prems by (auto simp: prio_sorted_def intro: order_trans)
  qed
qed

text \<open>The search splits the list where the new request belongs.\<close>

lemma find_position_ok:
  assumes "chain h cur xs" "length xs < fuel"
  shows "find_position fuel h p prev cur =
    Inr (case takeWhile (\<lambda>x. p \<le> priority (snd x)) xs of [] \<Rightarrow> prev | ys \<Rightarrow> Some (fst (last ys)),
         case dropWhile (\<lambda>x. p \<le> priority (snd x)) xs of [] \<Rightarrow> None | y # _ \<Rightarrow> Some (fst y))"
  using assms
proof (induction h cur xs arbitrary: fuel prev rule: chain.induct)
  case (1 h p)
  then show ?case by (cases fuel) simp_all
next
  case (2 h cur a r xs)
  then obtain n fuel' where n: "cur = Some a" "h a = Some n" "request n = r" "chain h (q_next n) xs" "fuel = Suc fuel'"
    by (cases fuel) (auto split: option.splits)
  have IH: "find_position fuel' h p (Some a) (q_next n) =
    Inr (case takeWhile (\<lambda>x. p \<le> priority (snd x)) xs of [] \<Rightarrow> Some a | ys \<Rightarrow> Some (fst (last ys)),
         case dropWhile (\<lambda>x. p \<le> priority (snd x)) xs of [] \<Rightarrow> None | y # _ \<Rightarrow> Some (fst y))"
    using 2(1) [OF n(4)] 2(3) n(5) by simp
  show ?case
    using n IH by (auto simp: deref_def split: list.splits)
qed

text \<open>Linking a node behind the last node of \<open>ys\<close>.\<close>

lemma chain_link:
  assumes "chain h p (ys @ zs)" "ys \<noteq> []" "distinct (map fst (ys @ zs))" "a \<notin> fst ` set (ys @ zs)"
    "q = (case zs of [] \<Rightarrow> None | z # _ \<Rightarrow> Some (fst z))"
  shows "\<exists>n. h (fst (last ys)) = Some n \<and>
    chain ((h(a \<mapsto> \<lparr>request = r, q_next = q\<rparr>))(fst (last ys) \<mapsto> n\<lparr>q_next := Some a\<rparr>)) p (ys @ (a, r) # zs)"
  using assms
proof (induction ys arbitrary: p)
  case (Cons y ys)
  obtain b s where y: "y = (b, s)" by fastforce
  obtain n where n: "p = Some b" "h b = Some n" "request n = s" "chain h (q_next n) (ys @ zs)"
    using Cons.prems(1) by (auto simp: y split: option.splits)
  have ab: "a \<noteq> b" "b \<notin> fst ` set (ys @ zs)" "a \<notin> fst ` set (ys @ zs)" "distinct (map fst (ys @ zs))"
    using Cons.prems(3,4) by (auto simp: y)
  show ?case
  proof (cases "ys = []")
    case True
    have "chain h q zs" using n(4) True Cons.prems(5) by (cases zs) (auto split: option.splits)
    define h' where "h' = (h(a \<mapsto> \<lparr>request = r, q_next = q\<rparr>))(fst (last (y # ys)) \<mapsto> n\<lparr>q_next := Some a\<rparr>)"
    have "chain h' q zs" using \<open>chain h q zs\<close> ab by (simp add: h'_def True y chain_fresh)
    moreover have "h' b = Some (n\<lparr>q_next := Some a\<rparr>)" "h' a = Some \<lparr>request = r, q_next = q\<rparr>"
      using ab(1) by (simp_all add: h'_def True y)
    ultimately have "h (fst (last (y # ys))) = Some n" "chain h' p ((y # ys) @ (a, r) # zs)"
      using n by (simp_all add: True y)
    then show ?thesis unfolding h'_def by blast
  next
    case False
    then obtain m where m: "h (fst (last ys)) = Some m"
        "chain ((h(a \<mapsto> \<lparr>request = r, q_next = q\<rparr>))(fst (last ys) \<mapsto> m\<lparr>q_next := Some a\<rparr>)) (q_next n) (ys @ (a, r) # zs)"
      using Cons.IH [OF n(4) _ ab(4,3) Cons.prems(5)] by blast
    have "fst (last ys) \<noteq> b" using False ab(2) last_in_set [of ys] by force
    moreover define h' where
      "h' = (h(a \<mapsto> \<lparr>request = r, q_next = q\<rparr>))(fst (last (y # ys)) \<mapsto> m\<lparr>q_next := Some a\<rparr>)"
    ultimately have "h' b = h b" "chain h' (q_next n) (ys @ (a, r) # zs)" using m(2) ab(1) False by simp_all
    then have "h (fst (last (y # ys))) = Some m" "chain h' p ((y # ys) @ (a, r) # zs)"
      using m(1) n False by (simp_all add: y)
    then show ?thesis unfolding h'_def by blast
  qed
qed simp

lemma request_q_enqueue_ok:
  assumes q: "queue_holds s rs" and fuel: "length rs < fuel" and mem: "q_heap s a = None"
  shows "\<exists>s'. request_q_enqueue fuel (Some a) s req = Inr s' \<and> queue_holds s' (prio_insert req rs)
           \<and> dom (q_heap s') = insert a (dom (q_heap s)) \<and> stop_worker s' = stop_worker s"
proof -
  obtain xs where xs: "chain (q_heap s) (queue s) xs" "distinct (map fst xs)" "map snd xs = rs" and so: "prio_sorted rs"
    using q by (auto simp: queue_holds_def)
  let ?P = "\<lambda>x. priority req \<le> priority (snd x)"
  define ys where "ys = takeWhile ?P xs"
  define zs where "zs = dropWhile ?P xs"
  define c where "c = (case zs of [] \<Rightarrow> None | z # _ \<Rightarrow> Some (fst z))"
  have a: "a \<notin> fst ` set xs" using chain_dom [OF xs(1)] mem by auto
  have split: "ys @ zs = xs" by (simp add: ys_def zs_def)
  have fp: "find_position fuel (q_heap s) (priority req) None (queue s) =
      Inr (case ys of [] \<Rightarrow> None | ys \<Rightarrow> Some (fst (last ys)), c)"
    using find_position_ok [OF xs(1)] fuel xs(3) by (auto simp: c_def ys_def zs_def)
  have ins: "map snd (ys @ (a, req) # zs) = prio_insert req rs"
    by (simp add: prio_insert_def xs(3) [symmetric] takeWhile_map dropWhile_map comp_def ys_def zs_def)
  have "distinct (map fst (ys @ zs))" using xs(2) by (simp only: split)
  then have dist: "distinct (map fst (ys @ (a, req) # zs))"
    using a unfolding split [symmetric] by (simp add: image_Un)
  have fin: "queue_holds s' (prio_insert req rs)" if "chain (q_heap s') (queue s') (ys @ (a, req) # zs)" for s' :: request_q_params
    using that dist ins prio_sorted_insert [OF so, of req] unfolding queue_holds_def by blast
  show ?thesis
  proof (cases "ys = []")
    case True
    then have zs: "zs = xs" using split by simp
    have "c = queue s" using xs(1) unfolding c_def zs by (cases xs) (auto split: option.splits)
    define h' where "h' = (q_heap s)(a \<mapsto> \<lparr>request = req, q_next = c\<rparr>)"
    let ?s = "s\<lparr>q_heap := h', queue := Some a\<rparr>"
    have "chain h' c xs" "h' a = Some \<lparr>request = req, q_next = c\<rparr>"
      using xs(1) a \<open>c = queue s\<close> by (simp_all add: h'_def chain_fresh)
    then have "queue_holds ?s (prio_insert req rs)" by (intro fin) (simp add: True zs)
    moreover have "request_q_enqueue fuel (Some a) s req = Inr ?s"
      using fp True by (simp add: request_q_enqueue_def h'_def)
    ultimately show ?thesis by (auto simp: h'_def)
  next
    case False
    have "chain (q_heap s) (queue s) (ys @ zs)" "a \<notin> fst ` set (ys @ zs)"
      unfolding split using xs(1) a by auto
    then obtain n where n: "q_heap s (fst (last ys)) = Some n"
        "chain (((q_heap s)(a \<mapsto> \<lparr>request = req, q_next = c\<rparr>))(fst (last ys) \<mapsto> n\<lparr>q_next := Some a\<rparr>)) (queue s) (ys @ (a, req) # zs)"
      using chain_link [OF _ False \<open>distinct (map fst (ys @ zs))\<close> _ c_def] by blast
    have ne: "fst (last ys) \<noteq> a" using mem n(1) by auto
    let ?s = "s\<lparr>q_heap := ((q_heap s)(a \<mapsto> \<lparr>request = req, q_next = c\<rparr>))(fst (last ys) \<mapsto> n\<lparr>q_next := Some a\<rparr>)\<rparr>"
    have "request_q_enqueue fuel (Some a) s req = Inr ?s"
      using fp False n(1) ne by (auto simp: request_q_enqueue_def deref_def Let_def split: list.splits)
    moreover have "queue_holds ?s (prio_insert req rs)" using n(2) by (intro fin) simp
    ultimately show ?thesis using n(1) by auto
  qed
qed

section \<open>Dequeueing and destruction\<close>

lemma queue_holds_Nil: "queue_holds s [] \<longleftrightarrow> queue s = None"
  by (auto simp: queue_holds_def prio_sorted_def)

lemma queue_holds_Cons:
  assumes "queue_holds s (r # rs)"
  obtains a n where "queue s = Some a" "q_heap s a = Some n" "request n = r"
    "queue_holds (s\<lparr>queue := q_next n, q_heap := (q_heap s)(a := None)\<rparr>) rs"
proof -
  from assms have so: "prio_sorted (r # rs)"
    and ex: "\<exists>xs. chain (q_heap s) (queue s) xs \<and> distinct (map fst xs) \<and> map snd xs = r # rs"
    unfolding queue_holds_def by simp_all
  from ex obtain xs where xs: "chain (q_heap s) (queue s) xs" "distinct (map fst xs)" "map snd xs = r # rs" by metis
  then obtain a ys where ys: "xs = (a, r) # ys" "map snd ys = rs" by (cases xs) auto
  obtain n where n: "queue s = Some a" "q_heap s a = Some n" "request n = r" "chain (q_heap s) (q_next n) ys"
    using xs(1) ys(1) by auto
  have "chain ((q_heap s)(a := None)) (q_next n) ys"
    using n(4) xs(2) ys(1) by (simp add: chain_fresh)
  then have "queue_holds (s\<lparr>queue := q_next n, q_heap := (q_heap s)(a := None)\<rparr>) rs"
    using xs(2) so ys by (auto simp: queue_holds_def prio_sorted_def)
  then show thesis using that n by blast
qed

lemma request_q_dequeue_ok:
  assumes "queue_holds s rs"
  shows "case rs of
           [] \<Rightarrow> request_q_dequeue s = Inr (None, s)
         | r # rs' \<Rightarrow> \<exists>s'. request_q_dequeue s = Inr (Some r, s') \<and> queue_holds s' rs' \<and> dom (q_heap s') \<subseteq> dom (q_heap s)
                       \<and> stop_worker s' = stop_worker s"
proof (cases rs)
  case Nil
  then show ?thesis using assms by (simp add: queue_holds_Nil request_q_dequeue_def)
next
  case (Cons r rs')
  then obtain a n where n: "queue s = Some a" "q_heap s a = Some n" "request n = r"
      "queue_holds (s\<lparr>queue := q_next n, q_heap := (q_heap s)(a := None)\<rparr>) rs'"
    using assms queue_holds_Cons by blast
  let ?s = "s\<lparr>queue := q_next n, q_heap := (q_heap s)(a := None)\<rparr>"
  have "request_q_dequeue s = Inr (Some r, ?s)"
    using n by (simp add: request_q_dequeue_def deref_def)
  then show ?thesis using Cons n(4) by auto
qed

lemma free_nodes_ok:
  assumes "chain h p xs" "distinct (map fst xs)" "length xs < fuel"
  shows "free_nodes fuel h p = Inr (\<lambda>a. if a \<in> fst ` set xs then None else h a)"
  using assms
proof (induction xs arbitrary: h p fuel)
  case Nil
  then show ?case by (cases fuel) simp_all
next
  case (Cons x xs)
  obtain a r where x: "x = (a, r)" by fastforce
  obtain n fuel' where n: "p = Some a" "h a = Some n" "chain h (q_next n) xs" "fuel = Suc fuel'"
    using Cons.prems(1,3) by (cases fuel) (auto simp: x)
  have "chain (h(a := None)) (q_next n) xs" using n(3) Cons.prems(2) by (simp add: chain_fresh x)
  then have "free_nodes fuel' (h(a := None)) (q_next n) = Inr (\<lambda>b. if b \<in> fst ` set xs then None else (h(a := None)) b)"
    using Cons.IH Cons.prems(2,3) n(4) by (simp add: x)
  moreover have "(\<lambda>b. if b \<in> fst ` set xs then None else (h(a := None)) b) = (\<lambda>b. if b \<in> fst ` set (x # xs) then None else h b)"
    by (auto simp: x)
  ultimately show ?case using n by (simp add: deref_def)
qed

section \<open>The queue as an interface\<close>

text \<open>Enqueueing a list of requests one after the other, and dequeueing until the queue is empty.\<close>

primrec enqueue_all :: "('s \<Rightarrow> tinyfile_request \<Rightarrow> 's c_result) \<Rightarrow> tinyfile_request list \<Rightarrow> 's \<Rightarrow> 's c_result" where
  "enqueue_all enq [] s = Inr s"
| "enqueue_all enq (r # rs) s = cbind (enq s r) (enqueue_all enq rs)"

primrec dequeue_all ::
    "('s \<Rightarrow> (tinyfile_request option \<times> 's) c_result) \<Rightarrow> nat \<Rightarrow> 's \<Rightarrow> (tinyfile_request list \<times> 's) c_result" where
  "dequeue_all deq 0 s = Inr ([], s)"
| "dequeue_all deq (Suc n) s =
     cbind (deq s) (\<lambda>(r, s). case r of
         None \<Rightarrow> Inr ([], s)
       | Some r \<Rightarrow> cbind (dequeue_all deq n s) (\<lambda>(rs, s). Inr (r # rs, s)))"

text \<open>
  What the rest of the client library relies on: a queue that keeps requests by priority and, within a priority, by
  arrival. \<open>bound\<close> limits its length.
\<close>

locale priority_queue =
  fixes enq :: "'s \<Rightarrow> tinyfile_request \<Rightarrow> 's c_result"
    and deq :: "'s \<Rightarrow> (tinyfile_request option \<times> 's) c_result"
    and holds :: "'s \<Rightarrow> tinyfile_request list \<Rightarrow> bool"
    and bound :: nat
  assumes enq_ok: "holds s rs \<Longrightarrow> length rs < bound \<Longrightarrow> \<exists>s'. enq s r = Inr s' \<and> holds s' (prio_insert r rs)"
    and deq_empty: "holds s [] \<Longrightarrow> deq s = Inr (None, s)"
    and deq_first: "holds s (r # rs) \<Longrightarrow> \<exists>s'. deq s = Inr (Some r, s') \<and> holds s' rs"
begin

lemma length_prio_insert: "length (prio_insert r rs) = Suc (length rs)"
  unfolding prio_insert_def by (metis add_Suc_right length_Cons length_append takeWhile_dropWhile_id)

lemma enqueue_all_ok:
  "holds s rs0 \<Longrightarrow> length rs0 + length rs \<le> bound \<Longrightarrow>
     \<exists>s'. enqueue_all enq rs s = Inr s' \<and> holds s' (foldl (\<lambda>q r. prio_insert r q) rs0 rs)"
proof (induction rs arbitrary: s rs0)
  case (Cons r rs)
  obtain s1 where s1: "enq s r = Inr s1" "holds s1 (prio_insert r rs0)"
    using enq_ok [OF Cons.prems(1)] Cons.prems(2) by auto
  show ?case using Cons.IH [OF s1(2)] s1(1) Cons.prems(2) by (simp add: length_prio_insert)
qed simp

lemma dequeue_all_ok:
  "holds s rs \<Longrightarrow> length rs \<le> n \<Longrightarrow> \<exists>s'. dequeue_all deq n s = Inr (rs, s') \<and> holds s' []"
proof (induction n arbitrary: s rs)
  case (Suc n)
  show ?case
  proof (cases rs)
    case Nil
    then show ?thesis using deq_empty Suc.prems(1) by simp
  next
    case (Cons r rs')
    obtain s1 where s1: "deq s = Inr (Some r, s1)" "holds s1 rs'"
      using deq_first Suc.prems(1) Cons by blast
    obtain s2 where "dequeue_all deq n s1 = Inr (rs', s2)" "holds s2 []"
      using Suc.IH [OF s1(2)] Suc.prems(2) Cons by auto
    then show ?thesis using s1(1) Cons by simp
  qed
qed simp

end

text \<open>\<^verbatim>\<open>malloc\<close>: memory that is not in use.\<close>

locale allocator =
  fixes alloc :: "q_heap \<Rightarrow> nat option"
  assumes alloc_fresh: "finite (dom h) \<Longrightarrow> \<exists>a. alloc h = Some a \<and> h a = None"

definition heap_queue_holds :: "request_q_params \<Rightarrow> tinyfile_request list \<Rightarrow> bool" where
  "heap_queue_holds s rs \<longleftrightarrow> queue_holds s rs \<and> finite (dom (q_heap s))"

definition enqueue_with :: "(q_heap \<Rightarrow> nat option) \<Rightarrow> nat \<Rightarrow> request_q_params \<Rightarrow> tinyfile_request \<Rightarrow> request_q_params c_result" where
  "enqueue_with alloc fuel s r = request_q_enqueue fuel (alloc (q_heap s)) s r"

sublocale allocator \<subseteq> heap_queue: priority_queue "enqueue_with alloc fuel" request_q_dequeue heap_queue_holds fuel for fuel
proof
  fix s rs r
  assume h: "heap_queue_holds s rs" and len: "length rs < fuel"
  obtain a where a: "alloc (q_heap s) = Some a" "q_heap s a = None"
    using alloc_fresh h by (auto simp: heap_queue_holds_def)
  have "queue_holds s rs" using h by (simp add: heap_queue_holds_def)
  from request_q_enqueue_ok [OF this len a(2), of r]
  show "\<exists>s'. enqueue_with alloc fuel s r = Inr s' \<and> heap_queue_holds s' (prio_insert r rs)"
    using h a(1) by (auto simp: heap_queue_holds_def enqueue_with_def)
next
  fix s
  assume "heap_queue_holds s []"
  then show "request_q_dequeue s = Inr (None, s)"
    using request_q_dequeue_ok [of s "[]"] by (simp add: heap_queue_holds_def)
next
  fix s r rs
  assume "heap_queue_holds s (r # rs)"
  then show "\<exists>s'. request_q_dequeue s = Inr (Some r, s') \<and> heap_queue_holds s' rs"
    using request_q_dequeue_ok [of s "r # rs"] by (auto simp: heap_queue_holds_def intro: finite_subset)
qed

text \<open>An allocator that hands out the lowest free address.\<close>

definition lowest_free :: "q_heap \<Rightarrow> nat option" where
  "lowest_free h = Some (LEAST a. h a = None)"

lemma lowest_free_fresh: "finite (dom h) \<Longrightarrow> \<exists>a. lowest_free h = Some a \<and> h a = None"
proof -
  assume "finite (dom h)"
  then obtain a where "h a = None" using ex_new_if_finite [OF infinite_UNIV_nat] by (auto simp: dom_def)
  then show ?thesis unfolding lowest_free_def by (auto intro: LeastI)
qed

interpretation lowest: allocator lowest_free
  by unfold_locales (rule lowest_free_fresh)

section \<open>Order of service\<close>

text \<open>The key by which requests leave the queue.\<close>

definition service_key :: "tinyfile_request \<Rightarrow> int" where
  "service_key r = - int (unat (priority r))"

lemma prio_le_key: "priority r \<le> priority x \<longleftrightarrow> service_key x \<le> service_key r"
  by (simp add: service_key_def word_le_def)

lemma prio_sorted_key: "prio_sorted rs \<longleftrightarrow> sorted (map service_key rs)"
  by (simp add: prio_sorted_def prio_le_key sorted_map)

lemma filter_prio_insert:
  assumes "prio_sorted q"
  shows "filter (\<lambda>x. k = service_key x) (prio_insert r q) = filter (\<lambda>x. k = service_key x) (q @ [r])"
  using assms
proof (induction q)
  case (Cons x q)
  have IH: "filter (\<lambda>x. k = service_key x) (prio_insert r q) = filter (\<lambda>x. k = service_key x) (q @ [r])"
    using Cons by (simp add: prio_sorted_def)
  show ?case
  proof (cases "priority r \<le> priority x")
    case True
    then have "prio_insert r (x # q) = x # prio_insert r q" by (simp add: prio_insert_def)
    then show ?thesis using IH by (cases "k = service_key x") simp_all
  next
    case False
    then have "\<forall>y \<in> set (x # q). service_key r < service_key y"
      using Cons.prems by (auto simp: prio_sorted_def prio_le_key)
    then have "k = service_key r \<Longrightarrow> filter (\<lambda>x. k = service_key x) (x # q) = []" by (auto simp: filter_empty_conv)
    moreover have "prio_insert r (x # q) = r # x # q" using False by (simp add: prio_insert_def)
    ultimately show ?thesis by (cases "k = service_key r") (auto split: if_splits)
  qed
qed (simp add: prio_insert_def)

lemma mset_prio_insert: "mset (prio_insert r q) = add_mset r (mset q)"
  unfolding prio_insert_def by simp (metis mset_append takeWhile_dropWhile_id union_commute)

lemma foldl_prio_insert: "foldl (\<lambda>q r. prio_insert r q) [] rs = sort_key service_key rs"
proof -
  let ?q = "foldl (\<lambda>q r. prio_insert r q) []"
  have "mset (?q rs) = mset rs \<and> prio_sorted (?q rs) \<and>
      (\<forall>k. filter (\<lambda>x. k = service_key x) (?q rs) = filter (\<lambda>x. k = service_key x) rs)"
  proof (induction rs rule: rev_induct)
    case Nil
    then show ?case by (simp add: prio_sorted_def)
  next
    case (snoc r rs)
    then show ?case by (simp add: mset_prio_insert prio_sorted_insert filter_prio_insert)
  qed
  then show ?thesis
    by (intro properties_for_sort_key [symmetric]) (auto simp: prio_sorted_key)
qed

context allocator
begin

lemma fill_then_drain:
  assumes s: "queue s = None" "finite (dom (q_heap s))" and fuel: "length rs \<le> fuel"
  shows "\<exists>s1 s2. enqueue_all (enqueue_with alloc fuel) rs s = Inr s1
           \<and> dequeue_all request_q_dequeue (length rs) s1 = Inr (sort_key service_key rs, s2) \<and> queue s2 = None"
proof -
  have h: "heap_queue_holds s []" using s by (simp add: heap_queue_holds_def queue_holds_Nil)
  then obtain s1 where s1: "enqueue_all (enqueue_with alloc fuel) rs s = Inr s1" "heap_queue_holds s1 (sort_key service_key rs)"
    using heap_queue.enqueue_all_ok [OF h, of rs fuel] fuel by (auto simp: foldl_prio_insert)
  then show ?thesis
    using heap_queue.dequeue_all_ok [OF s1(2), of "length rs"] by (auto simp: heap_queue_holds_def queue_holds_Nil)
qed

end

text \<open>
  C7. Order of service: requests enqueued one after the other into an empty queue, with any allocator that hands out
  unused memory, are dequeued by decreasing priority and first come, first served within a priority (a
  stable sort), none lost and none duplicated, and the queue is empty again. No node is touched
  after it has been freed.
\<close>

theorem request_q_serves_by_priority:
  assumes alloc: "\<forall>h :: q_heap. finite (dom h) \<longrightarrow> (\<exists>a. alloc h = Some a \<and> h a = None)"
    and s: "queue s = None" "finite (dom (q_heap s))" and fuel: "length rs \<le> fuel"
  shows "\<exists>s1 s2. enqueue_all (enqueue_with alloc fuel) rs s = Inr s1
           \<and> dequeue_all request_q_dequeue (length rs) s1 = Inr (sort_key service_key rs, s2) \<and> queue s2 = None"
proof -
  have "allocator alloc" by unfold_locales (use alloc in blast)
  from allocator.fill_then_drain [OF this s fuel] show ?thesis .
qed

theorem request_q_serves_by_priority_witness:
  "\<exists>s1 s2. enqueue_all (enqueue_with lowest_free 3)
       [\<lparr>service = 0, priority = 1, request_id = 0, entry_idx = 0, req_pid = 7\<rparr>,
        \<lparr>service = 0, priority = 5, request_id = 1, entry_idx = 1, req_pid = 7\<rparr>,
        \<lparr>service = 0, priority = 1, request_id = 2, entry_idx = 2, req_pid = 7\<rparr>]
       \<lparr>q_heap = Map.empty, queue = None, stop_worker = False\<rparr> = Inr s1
     \<and> dequeue_all request_q_dequeue 3 s1 =
         Inr ([\<lparr>service = 0, priority = 5, request_id = 1, entry_idx = 1, req_pid = 7\<rparr>,
               \<lparr>service = 0, priority = 1, request_id = 0, entry_idx = 0, req_pid = 7\<rparr>,
               \<lparr>service = 0, priority = 1, request_id = 2, entry_idx = 2, req_pid = 7\<rparr>], s2)
     \<and> queue s2 = None"
proof -
  define a b c where "a = \<lparr>service = 0, priority = 1, request_id = 0, entry_idx = 0, req_pid = 7\<rparr>"
    and "b = \<lparr>service = 0, priority = 5, request_id = 1, entry_idx = 1, req_pid = 7\<rparr>"
    and "c = \<lparr>service = 0, priority = 1, request_id = 2, entry_idx = 2, req_pid = 7\<rparr>"
  have "service_key a = -1" "service_key b = -5" "service_key c = -1"
    by (simp_all add: service_key_def a_def b_def c_def)
  then have "sort_key service_key [a, b, c] = [b, a, c]" by simp
  moreover have "length [a, b, c] = 3" by simp
  ultimately show ?thesis
    using request_q_serves_by_priority [of lowest_free "\<lparr>q_heap = Map.empty, queue = None, stop_worker = False\<rparr>" "[a, b, c]" 3]
      lowest_free_fresh
    unfolding a_def [symmetric] b_def [symmetric] c_def [symmetric] by (simp del: list.size)
qed

text \<open>
  \<^verbatim>\<open>async_req_q_destroy\<close> frees the nodes but leaves \<^verbatim>\<open>queue\<close> pointing at the first of them, and it stops the worker only
  after it has released the mutex: with a request still queued, the next pass of the worker
  reads freed memory.
\<close>

theorem destroy_leaves_dangling_queue:
  assumes "queue_holds s (r # rs)" "length (r # rs) < fuel" "\<not> stop_worker s"
  shows "\<exists>s'. async_req_q_free fuel s = Inr s' \<and> request_q_handler_step s' = Inl Invalid_access"
proof -
  from assms(1) have "\<exists>xs. chain (q_heap s) (queue s) xs \<and> distinct (map fst xs) \<and> map snd xs = r # rs"
    unfolding queue_holds_def by simp
  then obtain xs where xs: "chain (q_heap s) (queue s) xs" "distinct (map fst xs)" "map snd xs = r # rs" by metis
  have len: "length xs < fuel" using assms(2) xs(3) by (metis length_map)
  obtain a ys where a: "xs = (a, r) # ys" using xs(3) by (cases xs) auto
  then have "queue s = Some a" using xs(1) by simp
  then show ?thesis
    using free_nodes_ok [OF xs(1,2) len] assms(3) a
    by (simp add: async_req_q_free_def request_q_handler_step_def request_q_dequeue_def deref_def)
qed

theorem destroy_leaves_dangling_queue_witness:
  "\<exists>s'. async_req_q_free 2
       \<lparr>q_heap = [1 \<mapsto> \<lparr>request = \<lparr>service = 0, priority = 1, request_id = 0, entry_idx = 0, req_pid = 7\<rparr>, q_next = None\<rparr>],
        queue = Some 1, stop_worker = False\<rparr> = Inr s'
     \<and> request_q_handler_step s' = Inl Invalid_access"
proof -
  define r where "r = \<lparr>service = 0, priority = 1, request_id = 0, entry_idx = 0, req_pid = 7\<rparr>"
  have "queue_holds \<lparr>q_heap = [1 \<mapsto> \<lparr>request = r, q_next = None\<rparr>], queue = Some 1, stop_worker = False\<rparr> [r]"
    unfolding queue_holds_def by (auto simp: prio_sorted_def intro!: exI [of _ "[(1, r)]"])
  then show ?thesis
    unfolding r_def [symmetric] by (rule destroy_leaves_dangling_queue) simp_all
qed

end
