(* ===== verification/Message_Queue.thy ===== *)
theory Message_Queue
  imports TF_Prelude "HOL-Library.Multiset"
begin

text \<open>
  POSIX message queues, as far as the sources use them: a queue holds at most \<^verbatim>\<open>mq_maxmsg\<close> messages, \<^verbatim>\<open>mq_send\<close> blocks on a
  full queue, and \<^verbatim>\<open>mq_receive\<close> takes the oldest of the messages with the highest priority.
\<close>

type_synonym 'm mq = "(nat \<times> 'm) list" \<comment> \<open>priority and message, in the order of delivery\<close>

text \<open>\<^verbatim>\<open>attr.mq_maxmsg\<close>, the same in \<^verbatim>\<open>api.c\<close> and in \<^verbatim>\<open>server.c\<close>.\<close>

definition mq_maxmsg :: nat where "mq_maxmsg = 10"

definition mq_insert :: "nat \<Rightarrow> 'm \<Rightarrow> 'm mq \<Rightarrow> 'm mq" where
  "mq_insert p m q = takeWhile (\<lambda>x. p \<le> fst x) q @ (p, m) # dropWhile (\<lambda>x. p \<le> fst x) q"

text \<open>\<^verbatim>\<open>None\<close>: the caller is blocked.\<close>

definition mq_send :: "nat \<Rightarrow> 'm \<Rightarrow> 'm mq \<Rightarrow> 'm mq option" where
  "mq_send p m q = (if length q < mq_maxmsg then Some (mq_insert p m q) else None)"

fun mq_receive :: "'m mq \<Rightarrow> ('m \<times> 'm mq) option" where
  "mq_receive [] = None"
| "mq_receive ((p, m) # q) = Some (m, q)"

lemma set_mq_insert [simp]: "set (mq_insert p m q) = insert (p, m) (set q)"
proof -
  have "set q = set (takeWhile (\<lambda>x. p \<le> fst x) q) \<union> set (dropWhile (\<lambda>x. p \<le> fst x) q)"
    by (metis set_append takeWhile_dropWhile_id)
  then show ?thesis by (auto simp: mq_insert_def)
qed

lemma mset_mq_insert [simp]: "mset (mq_insert p m q) = add_mset (p, m) (mset q)"
  unfolding mq_insert_def by simp (metis mset_append takeWhile_dropWhile_id union_commute)

lemma length_mq_insert [simp]: "length (mq_insert p m q) = Suc (length q)"
  by (metis mset_mq_insert size_add_mset size_mset)

end
