(* ===== verification/Client_API.thy ===== *)
theory Client_API
  imports Request_Queue Message_Queue
begin

text \<open>
  The client library (\<^verbatim>\<open>api.c\<close>) between initialisation and exit: the entries in shared memory, the search for a free
  one, resizing, polling for a result and the calls \<^verbatim>\<open>tinyfile_sync\<close>, \<^verbatim>\<open>tinyfile_async\<close>, \<^verbatim>\<open>tinyfile_async_wait\<close> and
  \<^verbatim>\<open>tinyfile_async_join\<close>. An access under the mutex of an entry is one step. What the rest of the world does while a
  thread sleeps or waits for a message is an argument, a function on the state.
\<close>

section \<open>State\<close>

text \<open>
  \<open>shm\<close> is the contents of the shared memory object, of which the client maps \<^verbatim>\<open>shm_size\<close> bytes; \<open>shm_map\<close> numbers the
  mappings, so that a pointer into one that has been unmapped can be told from a valid one.
\<close>

record api =
  INIT :: bool
  global_request_id :: u32
  getpid :: int
  shm_size :: u64
  shm :: "tinyfile_shared_entry list"
  shm_map :: nat
  shm_resize_lock :: bool \<comment> \<open>held\<close>
  request_queue :: request_q_params
  client_send_q :: "tinyfile_request mq"
  peer_shm_size :: nat \<comment> \<open>\<^verbatim>\<open>shm_size\<close> in the server's record of this client\<close>

text \<open>The conversion of an \<^verbatim>\<open>int\<close> to \<^verbatim>\<open>size_t\<close>, and a number of bytes as a number of entries.\<close>

definition size_t :: "u32 \<Rightarrow> u64" where "size_t n = scast n"

definition entries_in :: "u64 \<Rightarrow> nat" where
  "entries_in sz = unat (sz div sizeof_shared_entry)"

definition free_entry :: "tinyfile_arg \<Rightarrow> tinyfile_shared_entry" where
  "free_entry a = \<lparr>used = 0, completed = 0, arg = a\<rparr>"

text \<open>The bytes that \<^verbatim>\<open>ftruncate\<close> adds are zero.\<close>

definition zero_entry :: tinyfile_shared_entry where
  "zero_entry = free_entry \<lparr>source_file_path = [], compressed_file_path = []\<rparr>"

definition entry_at :: "api \<Rightarrow> nat \<Rightarrow> tinyfile_shared_entry c_result" where
  "entry_at s idx = (if idx < entries_in (shm_size s) \<and> idx < length (shm s) then Inr (shm s ! idx) else Inl Invalid_access)"

definition tinyfile_set_shm_size :: "u64 \<Rightarrow> params \<Rightarrow> params" where
  "tinyfile_set_shm_size sms_size p = p\<lparr>TINYFILE_SHM_SIZE := ucast sms_size, TINYFILE_SHM_MAX_SIZE := ucast sms_size\<rparr>"

section \<open>Resizing\<close>

text \<open>
  The answers \<^verbatim>\<open>resize_shm\<close> gets: whether \<^verbatim>\<open>shm_open\<close> and \<^verbatim>\<open>mmap\<close> succeed, the stack garbage in the request, and what the
  server does between the request and its response.
\<close>

record resize_env =
  reopen_ok :: bool
  remap_ok :: bool
  stack_request :: tinyfile_request
  serve_resize :: "tinyfile_request \<Rightarrow> api \<Rightarrow> api \<times> tinyfile_response"

definition new_shm_size :: "params \<Rightarrow> api \<Rightarrow> u64" where
  "new_shm_size p s =
    (let num_entries = size_t (TINYFILE_SHM_SIZE p) div sizeof_shared_entry in
     (shm_size s div sizeof_shared_entry + num_entries) * sizeof_shared_entry)"

text \<open>
  The worker that \<^verbatim>\<open>pthread_join\<close> waits for ends after at most one more message. The two early returns keep the lock and
  leave the worker stopped.
\<close>

definition resize_shm :: "params \<Rightarrow> resize_env \<Rightarrow> api \<Rightarrow> (int \<times> api) c_result" where
  "resize_shm p env s =
    (let new_size = new_shm_size p s in
     if new_size > size_t (TINYFILE_SHM_MAX_SIZE p) then Inr (0, s)
     else
       let s = s\<lparr>request_queue := (request_queue s)\<lparr>stop_worker := True\<rparr>\<rparr> in
       if shm_resize_lock s then Inl Nontermination
       else
         let s = s\<lparr>shm_resize_lock := True\<rparr> in
         if \<not> reopen_ok env then Inr (TINYFILE_RESIZE_SHM_ERROR, s)
         else
           let s = s\<lparr>shm := take (entries_in new_size) (shm s) @ replicate (entries_in new_size - length (shm s)) zero_entry\<rparr> in
           if new_size = 0 \<or> \<not> remap_ok env then Inr (TINYFILE_RESIZE_SHM_ERROR, s)
           else
             case serve_resize env ((stack_request env)\<lparr>request_id := -1\<rparr>) s of (s, response) \<Rightarrow>
             if resp_request_id response = -1 then
               let s = s\<lparr>shm_map := shm_map s + 1, shm_size := new_size\<rparr>;
                   s = s\<lparr>shm_resize_lock := False\<rparr> in
               Inr (0, s\<lparr>request_queue := (request_queue s)\<lparr>stop_worker := False\<rparr>\<rparr>)
             else Inr (TINYFILE_RESIZE_SHM_ERROR, s\<lparr>shm_resize_lock := False\<rparr>))"

section \<open>Requests\<close>

text \<open>
  One pass of the loop of \<^verbatim>\<open>find_shared_entry\<close>, over the entry \<open>idx\<close> of \<open>n\<close>: whether the entry was free and has been taken,
  and the index for the next pass otherwise. The result of \<^verbatim>\<open>resize_shm\<close> is ignored.
\<close>

definition look_entry :: "params \<Rightarrow> resize_env \<Rightarrow> tinyfile_arg \<Rightarrow> nat \<Rightarrow> nat \<Rightarrow> api \<Rightarrow> (bool \<times> nat \<times> api) c_result" where
  "look_entry p env a n idx s =
     cbind (if idx = n div 2 then resize_shm p env s else Inr (0, s)) (\<lambda>(_, s).
     cbind (entry_at s idx) (\<lambda>e.
     if used e = 0 then
       Inr (True, idx, s\<lparr>shm := (shm s)[idx := e\<lparr>arg := a, used := 1, completed := 0\<rparr>]\<rparr>)
     else if n = 0 then Inl Division_by_zero
     else Inr (False, Suc idx mod n, s)))"

text \<open>
  The loop with a budget. \<open>n\<close> is the number of entries when the function was entered; resizing in between does not change it.
\<close>

fun find_entry_loop ::
    "nat \<Rightarrow> params \<Rightarrow> resize_env \<Rightarrow> tinyfile_arg \<Rightarrow> nat \<Rightarrow> nat \<Rightarrow> api \<Rightarrow> (nat \<times> api) c_result" where
  "find_entry_loop 0 p env a n idx s = Inl Nontermination"
| "find_entry_loop (Suc fuel) p env a n idx s =
     cbind (look_entry p env a n idx s) (\<lambda>(found, idx, s).
     if found then Inr (idx, s) else find_entry_loop fuel p env a n idx s)"

definition find_shared_entry ::
    "nat \<Rightarrow> params \<Rightarrow> resize_env \<Rightarrow> tinyfile_arg \<Rightarrow> api \<Rightarrow> (nat \<times> api) c_result" where
  "find_shared_entry fuel p env a s = find_entry_loop fuel p env a (entries_in (shm_size s)) 0 s"

text \<open>The return value, and the request when it is \<open>0\<close>. \<^verbatim>\<open>priority\<close> is unsigned, so \<^verbatim>\<open>priority < 0\<close> is never true.\<close>

definition prepare_request ::
    "nat \<Rightarrow> params \<Rightarrow> resize_env \<Rightarrow> tinyfile_arg \<Rightarrow> tinyfile_service \<Rightarrow> u32 \<Rightarrow> api \<Rightarrow>
     (int \<times> tinyfile_request option \<times> api) c_result" where
  "prepare_request fuel p env a srv prio s =
     (if prio < 0 \<or> prio > 31 then Inr (TINYFILE_PRIORITY_ERROR, None, s)
      else
        let rid = global_request_id s;
            s = s\<lparr>global_request_id := rid + 1\<rparr> in
        cbind (find_shared_entry fuel p env a s) (\<lambda>(idx, s).
          Inr (0, Some \<lparr>service = srv, priority = prio, request_id = rid, entry_idx = idx, req_pid = getpid s\<rparr>, s)))"

text \<open>
  \<^verbatim>\<open>is_request_done\<close> in two steps: the pointer to the entry is computed under the resize lock, and used after the lock
  has been released. \<^verbatim>\<open>Some\<close> is the return value \<open>1\<close> with \<^verbatim>\<open>*out\<close>.
\<close>

definition locate_entry :: "nat \<Rightarrow> api \<Rightarrow> (nat \<times> nat) c_result" where
  "locate_entry idx s = (if shm_resize_lock s then Inl Nontermination else Inr (shm_map s, idx))"

definition check_entry :: "nat \<times> nat \<Rightarrow> api \<Rightarrow> (tinyfile_arg option \<times> api) c_result" where
  "check_entry entry s =
     (if fst entry \<noteq> shm_map s then Inl Invalid_access
      else
        cbind (entry_at s (snd entry)) (\<lambda>e.
        if completed e = 1 then
          Inr (Some (arg e), s\<lparr>shm := (shm s)[snd entry := e\<lparr>used := 0, completed := 0\<rparr>]\<rparr>)
        else Inr (None, s)))"

definition is_request_done :: "nat \<Rightarrow> api \<Rightarrow> (tinyfile_arg option \<times> api) c_result" where
  "is_request_done idx s = cbind (locate_entry idx s) (\<lambda>entry. check_entry entry s)"

text \<open>
  \<^verbatim>\<open>recv_response\<close>: the first argument is what the rest of the world does during each \<^verbatim>\<open>usleep\<close>, given the number of
  microseconds; a run that needs more of them does not end.
\<close>

fun recv_response :: "(u32 \<Rightarrow> api \<Rightarrow> api) list \<Rightarrow> u32 \<Rightarrow> nat \<Rightarrow> api \<Rightarrow> (tinyfile_arg \<times> api) c_result" where
  "recv_response world backoff idx s =
     cbind (is_request_done idx s) (\<lambda>(out, s).
     case out of
       Some a \<Rightarrow> Inr (a, s)
     | None \<Rightarrow>
         (case world of
            [] \<Rightarrow> Inl Nontermination
          | w # world \<Rightarrow> recv_response world (backoff * 2) idx (w (backoff * 2) s)))"

declare recv_response.simps [simp del]

definition api_enqueue :: "nat \<Rightarrow> nat option \<Rightarrow> tinyfile_request \<Rightarrow> api \<Rightarrow> api c_result" where
  "api_enqueue fuel mem req s =
     cbind (request_q_enqueue fuel mem (request_queue s) req) (\<lambda>q. Inr (s\<lparr>request_queue := q\<rparr>))"

definition tinyfile_async ::
    "nat \<Rightarrow> params \<Rightarrow> resize_env \<Rightarrow> nat option \<Rightarrow> tinyfile_arg \<Rightarrow> tinyfile_service \<Rightarrow> u32 \<Rightarrow> api \<Rightarrow>
     (int \<times> nat option \<times> api) c_result" where
  "tinyfile_async fuel p env mem a srv prio s =
     cbind (prepare_request fuel p env a srv prio s) (\<lambda>(error, req, s).
     case req of
       None \<Rightarrow> Inr (error, None, s)
     | Some req \<Rightarrow> cbind (api_enqueue fuel mem req s) (\<lambda>s. Inr (0, Some (entry_idx req), s)))"

definition tinyfile_async_wait ::
    "(u32 \<Rightarrow> api \<Rightarrow> api) list \<Rightarrow> nat \<Rightarrow> api \<Rightarrow> (int \<times> tinyfile_arg \<times> api) c_result" where
  "tinyfile_async_wait world idx s = cbind (recv_response world 1 idx s) (\<lambda>(out, s). Inr (0, out, s))"

definition tinyfile_sync ::
    "nat \<Rightarrow> params \<Rightarrow> resize_env \<Rightarrow> nat option \<Rightarrow> (u32 \<Rightarrow> api \<Rightarrow> api) list \<Rightarrow>
     tinyfile_arg \<Rightarrow> tinyfile_service \<Rightarrow> u32 \<Rightarrow> api \<Rightarrow> (int \<times> tinyfile_arg option \<times> api) c_result" where
  "tinyfile_sync fuel p env mem world a srv prio s =
     cbind (prepare_request fuel p env a srv prio s) (\<lambda>(error, req, s).
     case req of
       None \<Rightarrow> Inr (error, None, s)
     | Some req \<Rightarrow>
         cbind (api_enqueue fuel mem req s) (\<lambda>s.
         cbind (recv_response world 1 (entry_idx req) s) (\<lambda>(out, s). Inr (0, Some out, s))))"

text \<open>
  The loop of \<^verbatim>\<open>tinyfile_async_join\<close> over \<open>n\<close> requests. The first argument is what the rest of the world does during each
  iteration.
\<close>

fun join_loop ::
    "(api \<Rightarrow> api) list \<Rightarrow> nat list \<Rightarrow> nat \<Rightarrow> nat \<Rightarrow> nat \<Rightarrow> bool list \<Rightarrow> tinyfile_arg list \<Rightarrow> api \<Rightarrow>
     (tinyfile_arg list \<times> api) c_result" where
  "join_loop world entry_idxs n i ndone requests_done outs s =
     (if ndone < n then
        (case world of
           [] \<Rightarrow> Inl Nontermination
         | w # world \<Rightarrow>
             cbind (if \<not> requests_done ! i then
                      if i < length entry_idxs \<and> i < length outs then
                        cbind (is_request_done (entry_idxs ! i) s) (\<lambda>(out, s).
                        Inr (case out of
                               None \<Rightarrow> (ndone, requests_done, outs, s)
                             | Some a \<Rightarrow> (Suc ndone, requests_done[i := True], outs[i := a], s)))
                      else Inl Invalid_access
                    else Inr (ndone, requests_done, outs, s)) (\<lambda>(ndone, requests_done, outs, s).
               join_loop world entry_idxs n (Suc i mod n) ndone requests_done outs (w s)))
      else Inr (outs, s))"

declare join_loop.simps [simp del]

definition tinyfile_async_join ::
    "(api \<Rightarrow> api) list \<Rightarrow> nat list \<Rightarrow> int \<Rightarrow> tinyfile_arg list \<Rightarrow> api \<Rightarrow> (int \<times> tinyfile_arg list \<times> api) c_result" where
  "tinyfile_async_join world entry_idxs num_requests outs s =
     (if num_requests \<le> 0 then Inr (-1, outs, s)
      else
        cbind (join_loop world entry_idxs (nat num_requests) 0 0 (replicate (nat num_requests) False) outs s) (\<lambda>(outs, s).
          Inr (0, outs, s)))"

section \<open>Sizes\<close>

lemma find_entry_loop_Suc [simp]:
  "find_entry_loop (Suc fuel) p env a n idx s =
     cbind (if idx = n div 2 then resize_shm p env s else Inr (0, s)) (\<lambda>(_, s).
     cbind (entry_at s idx) (\<lambda>e.
     if used e = 0 then Inr (idx, s\<lparr>shm := (shm s)[idx := e\<lparr>arg := a, used := 1, completed := 0\<rparr>]\<rparr>)
     else if n = 0 then Inl Division_by_zero
     else find_entry_loop fuel p env a n (Suc idx mod n) s))"
  by (simp add: look_entry_def cbind_def split: sum.splits)

declare find_entry_loop.simps(2) [simp del]

lemma unat_size_t: "unat n < 2 ^ 31 \<Longrightarrow> unat (size_t n) = unat n"
proof -
  assume n: "unat n < 2 ^ 31"
  define k where "k = unat n"
  have k: "n = word_of_nat k" "k < 2 ^ 31" using n by (simp_all add: k_def)
  then have "size_t n = word_of_nat k"
    by (simp add: size_t_def signed_of_nat signed_take_bit_int_eq_self)
  then show ?thesis using k(2) unfolding k_def [symmetric] by (simp add: unat_of_nat take_bit_nat_eq_self_iff)
qed

lemma entries_in_nat: "entries_in sz = unat sz div 352"
  by (simp add: entries_in_def unat_div sizeof_shared_entry_def)

text \<open>Parameters for which the sizes are positive as signed integers and an entry fits.\<close>

definition params_ok :: "params \<Rightarrow> bool" where
  "params_ok p \<longleftrightarrow> 352 \<le> unat (TINYFILE_SHM_SIZE p) \<and> unat (TINYFILE_SHM_SIZE p) < 2 ^ 31
     \<and> unat (TINYFILE_SHM_MAX_SIZE p) < 2 ^ 31"

definition step_entries :: "params \<Rightarrow> nat" where
  "step_entries p = unat (TINYFILE_SHM_SIZE p) div 352"

text \<open>The client maps the whole object, a positive number of entries, and nobody holds the resize lock.\<close>

definition api_ok :: "api \<Rightarrow> bool" where
  "api_ok s \<longleftrightarrow> unat (shm_size s) = 352 * length (shm s) \<and> shm s \<noteq> [] \<and> unat (shm_size s) < 2 ^ 31
     \<and> \<not> shm_resize_lock s"

lemma entries_in_ok: "api_ok s \<Longrightarrow> entries_in (shm_size s) = length (shm s)"
  by (simp add: api_ok_def entries_in_nat)

lemma entry_at_ok: "api_ok s \<Longrightarrow> idx < length (shm s) \<Longrightarrow> entry_at s idx = Inr (shm s ! idx)"
  by (simp add: entry_at_def entries_in_ok)

lemma unat_new_shm_size:
  assumes "params_ok p" "unat (shm_size s) < 2 ^ 31"
  shows "unat (new_shm_size p s) = 352 * (unat (shm_size s) div 352 + step_entries p)"
proof -
  define k where "k = unat (shm_size s) div 352 + step_entries p"
  have "k \<le> 2 ^ 31 div 352 + 2 ^ 31 div 352"
    unfolding k_def step_entries_def using assms(1,2) unfolding params_ok_def
    by (intro add_mono div_le_mono) simp_all
  then have k: "352 * k < 2 ^ 64" by simp
  have "unat (size_t (TINYFILE_SHM_SIZE p)) = unat (TINYFILE_SHM_SIZE p)"
    using assms(1) by (intro unat_size_t) (simp add: params_ok_def)
  then have "unat (shm_size s div 352 + size_t (TINYFILE_SHM_SIZE p) div 352 :: u64) = k"
    using k by (subst unat_add_lem [THEN iffD1]) (simp_all add: unat_div k_def step_entries_def)
  then show ?thesis
    using k unfolding k_def [symmetric] new_shm_size_def Let_def sizeof_shared_entry_def
    by (subst unat_mult_lem [THEN iffD1]) (simp_all add: mult.commute)
qed

lemma set_shm_size_fixes:
  assumes "352 \<le> unat sz" "unat sz < 2 ^ 31"
    "shm_size s = sizeof_shared_entry * (size_t (TINYFILE_SHM_SIZE (tinyfile_set_shm_size sz p)) div sizeof_shared_entry)"
  shows "new_shm_size (tinyfile_set_shm_size sz p) s > size_t (TINYFILE_SHM_MAX_SIZE (tinyfile_set_shm_size sz p))"
proof -
  let ?p = "tinyfile_set_shm_size sz p"
  have sz: "unat (ucast sz :: u32) = unat sz"
    using assms(2) by (simp add: unsigned_ucast_eq take_bit_nat_eq_self_iff)
  have ok: "params_ok ?p" using assms(1,2) sz by (simp add: params_ok_def tinyfile_set_shm_size_def)
  define n where "n = unat sz div 352"
  have n: "1 \<le> n" "unat sz < 352 * (n + 1)" "352 * n \<le> unat sz" using assms(1) by (auto simp: n_def)
  have t: "unat (size_t (TINYFILE_SHM_SIZE ?p)) = unat sz" "unat (size_t (TINYFILE_SHM_MAX_SIZE ?p)) = unat sz"
    using assms(2) sz by (simp_all add: unat_size_t tinyfile_set_shm_size_def)
  have "unat (sizeof_shared_entry * (size_t (TINYFILE_SHM_SIZE ?p) div sizeof_shared_entry)) = 352 * n"
    using n(3) assms(2) t(1)
    by (subst unat_mult_lem [THEN iffD1]) (simp_all add: sizeof_shared_entry_def unat_div n_def)
  then have shm: "unat (shm_size s) = 352 * n" by (simp add: assms(3))
  have "step_entries ?p = n" using sz by (simp add: step_entries_def tinyfile_set_shm_size_def n_def)
  then have "unat (new_shm_size ?p s) = 352 * (n + n)"
    using unat_new_shm_size [OF ok, of s] shm n(3) assms(2) by simp
  then show ?thesis using t(2) n(1,2) by (simp add: word_less_nat_alt)
qed

text \<open>
  \<^verbatim>\<open>tinyfile_set_shm_size\<close> does what its comment says, it avoids a resize: with a size of at least one entry and less
  than 2 GiB, \<^verbatim>\<open>resize_shm\<close> on the memory that \<^verbatim>\<open>create_shm\<close> makes for it returns at once, whatever the system would
  answer.
\<close>

theorem set_shm_size_avoids_resize:
  assumes "352 \<le> unat sz" "unat sz < 2 ^ 31"
    "shm_size s = sizeof_shared_entry * (size_t (TINYFILE_SHM_SIZE (tinyfile_set_shm_size sz p)) div sizeof_shared_entry)"
  shows "resize_shm (tinyfile_set_shm_size sz p) env s = Inr (0, s)"
  using set_shm_size_fixes [OF assms] by (simp add: resize_shm_def)

definition example_api :: "tinyfile_shared_entry list \<Rightarrow> api" where
  "example_api m = \<lparr>INIT = True, global_request_id = 0, getpid = 7, shm_size = of_nat (352 * length m), shm = m, shm_map = 0,
      shm_resize_lock = False, request_queue = \<lparr>q_heap = Map.empty, queue = None, stop_worker = False\<rparr>, client_send_q = [], peer_shm_size = 352 * length m\<rparr>"

definition failing_env :: resize_env where
  "failing_env = \<lparr>reopen_ok = False, remap_ok = False,
     stack_request = \<lparr>service = 0, priority = 0, request_id = 0, entry_idx = 0, req_pid = 0\<rparr>,
     serve_resize = (\<lambda>_ s. (s, \<lparr>resp_request_id = 0, resp_entry_idx = 0, resp_arg = arg zero_entry\<rparr>))\<rparr>"

theorem set_shm_size_avoids_resize_witness:
  "resize_shm (tinyfile_set_shm_size 704 default_params) failing_env (example_api [zero_entry, zero_entry])
     = Inr (0, example_api [zero_entry, zero_entry])"
  by (rule set_shm_size_avoids_resize)
     (simp_all add: tinyfile_set_shm_size_def size_t_def sizeof_shared_entry_def example_api_def)

section \<open>What the library relies on when it resizes\<close>

text \<open>
  The contract of the other side of a resize: the system calls succeed, and the server confirms; when it knows the size that the client
  has mapped, it sets up the entries behind that as free ones (with \<open>junk\<close> in the argument) and its workers still finish what
  they have taken on (\<open>served\<close>), which neither takes nor frees an entry. It does not touch what belongs to the client alone.
\<close>

locale resize_server =
  fixes env :: resize_env and served :: "tinyfile_shared_entry list \<Rightarrow> tinyfile_shared_entry list" and junk :: tinyfile_arg
  assumes reopen: "reopen_ok env" and remap: "remap_ok env"
    and served_used: "map used (served m) = map used m"
    and confirms: "serve_resize env req s = (s', r) \<Longrightarrow> resp_request_id r = -1"
    and entries: "serve_resize env req s = (s', r) \<Longrightarrow> peer_shm_size s = unat (shm_size s) \<Longrightarrow>
      shm s' = served (take (entries_in (shm_size s)) (shm s) @ replicate (length (shm s) - entries_in (shm_size s)) (free_entry junk))"
    and remembers: "serve_resize env req s = (s', r) \<Longrightarrow> peer_shm_size s' = 352 * length (shm s)"
    and keeps_client: "serve_resize env req s = (s', r) \<Longrightarrow>
      shm_size s' = shm_size s \<and> shm_resize_lock s' = shm_resize_lock s \<and> shm_map s' = shm_map s
      \<and> request_queue s' = request_queue s \<and> global_request_id s' = global_request_id s \<and> getpid s' = getpid s"

text \<open>What \<^verbatim>\<open>find_shared_entry\<close> writes into the entry it has found.\<close>

definition claim :: "tinyfile_arg \<Rightarrow> nat \<Rightarrow> api \<Rightarrow> api" where
  "claim a i s = s\<lparr>shm := (shm s)[i := (shm s ! i)\<lparr>arg := a, used := 1, completed := 0\<rparr>]\<rparr>"

text \<open>The two sides have mapped the same number of bytes.\<close>

definition agreed :: "api \<Rightarrow> bool" where
  "agreed s \<longleftrightarrow> peer_shm_size s = unat (shm_size s)"

text \<open>A resize that has an effect, in terms of the state before and after.\<close>

definition resized ::
    "(tinyfile_shared_entry list \<Rightarrow> tinyfile_shared_entry list) \<Rightarrow> tinyfile_arg \<Rightarrow> params \<Rightarrow> api \<Rightarrow> api \<Rightarrow> bool" where
  "resized served junk p s s' \<longleftrightarrow> shm_map s' = Suc (shm_map s) \<and> \<not> stop_worker (request_queue s')
     \<and> 352 * length (shm s') \<le> unat (TINYFILE_SHM_MAX_SIZE p)
     \<and> shm s' = served (shm s @ replicate (step_entries p) (free_entry junk))"

context resize_server
begin

lemma length_served [simp]: "length (served m) = length m"
  by (metis served_used length_map)

lemma resize_shm_ok:
  assumes p: "params_ok p" and s: "api_ok s" and ag: "agreed s"
  shows "\<exists>s'. resize_shm p env s = Inr (0, s') \<and> api_ok s' \<and> agreed s' \<and> (s' = s \<or> resized served junk p s s')
    \<and> (resized served junk p s s' \<longleftrightarrow> 352 * (length (shm s) + step_entries p) \<le> unat (TINYFILE_SHM_MAX_SIZE p))
    \<and> queue (request_queue s') = queue (request_queue s) \<and> q_heap (request_queue s') = q_heap (request_queue s)
    \<and> global_request_id s' = global_request_id s \<and> getpid s' = getpid s"
proof -
  define k where "k = length (shm s) + step_entries p"
  have sz: "unat (shm_size s) = 352 * length (shm s)" "unat (shm_size s) < 2 ^ 31" "\<not> shm_resize_lock s" "shm s \<noteq> []"
    using s by (simp_all add: api_ok_def)
  have new: "unat (new_shm_size p s) = 352 * k"
    using unat_new_shm_size [OF p sz(2)] sz(1) by (simp add: k_def)
  have cmp: "new_shm_size p s > size_t (TINYFILE_SHM_MAX_SIZE p) \<longleftrightarrow> \<not> 352 * k \<le> unat (TINYFILE_SHM_MAX_SIZE p)"
    using p new by (simp add: word_less_nat_alt params_ok_def unat_size_t not_le)
  show ?thesis
  proof (cases "new_shm_size p s > size_t (TINYFILE_SHM_MAX_SIZE p)")
    case True
    then show ?thesis using s ag cmp by (simp add: resize_shm_def resized_def k_def)
  next
    case False
    have max: "352 * k \<le> unat (TINYFILE_SHM_MAX_SIZE p)" "unat (TINYFILE_SHM_MAX_SIZE p) < 2 ^ 31"
      using False cmp p by (simp_all add: params_ok_def)
    have "0 < k" using sz(4) by (simp add: k_def)
    then have ne: "new_shm_size p s \<noteq> 0" using new by auto
    define s1 where "s1 = s\<lparr>request_queue := (request_queue s)\<lparr>stop_worker := True\<rparr>, shm_resize_lock := True,
      shm := shm s @ replicate (step_entries p) zero_entry\<rparr>"
    obtain s2 r where s2: "serve_resize env ((stack_request env)\<lparr>request_id := -1\<rparr>) s1 = (s2, r)" by fastforce
    have "peer_shm_size s1 = unat (shm_size s1)" using ag by (simp add: s1_def agreed_def)
    note c = confirms [OF s2] entries [OF s2 this] keeps_client [OF s2] remembers [OF s2]
    have trunc: "take (entries_in (new_shm_size p s)) (shm s) @ replicate (entries_in (new_shm_size p s) - length (shm s)) zero_entry
        = shm s @ replicate (step_entries p) zero_entry"
      using new by (simp add: entries_in_nat k_def)
    define s3 where "s3 = s2\<lparr>shm_map := shm_map s2 + 1, shm_size := new_shm_size p s, shm_resize_lock := False,
      request_queue := (request_queue s2)\<lparr>stop_worker := False\<rparr>\<rparr>"
    have "resize_shm p env s = Inr (0, s3)"
      using False sz(3) reopen remap ne s2 c(1) by (simp add: resize_shm_def Let_def trunc s1_def s3_def)
    moreover have u: "shm s3 = served (shm s @ replicate (step_entries p) (free_entry junk))"
      using c(2) entries_in_ok [OF s] by (simp add: s1_def s3_def)
    then have len: "length (shm s3) = k" by (simp add: k_def)
    moreover have "agreed s3" using c(4) new by (simp add: agreed_def s3_def s1_def k_def)
    moreover have "api_ok s3"
      using len new max \<open>0 < k\<close> by (auto simp: api_ok_def s3_def)
    moreover have "resized served junk p s s3" using u len max c(3) by (simp add: resized_def s3_def s1_def)
    ultimately show ?thesis using c(3) max(1) by (auto simp: s3_def s1_def k_def)
  qed
qed

lemma resized_used:
  assumes "s' = s \<or> resized served junk p s s'" "j < length (shm s)"
  shows "j < length (shm s')" "used (shm s' ! j) = used (shm s ! j)"
proof -
  have "\<exists>xs. map used (shm s') = map used (shm s) @ xs" using assms(1) served_used by (auto simp: resized_def)
  then obtain xs where xs: "map used (shm s') = map used (shm s) @ xs" by blast
  then have "length (shm s') = length (shm s) + length xs" by (metis length_append length_map)
  then show j: "j < length (shm s')" using assms(2) by simp
  have "map used (shm s') ! j = map used (shm s) ! j" using xs assms(2) by (simp add: nth_append)
  then show "used (shm s' ! j) = used (shm s ! j)" using j assms(2) by simp
qed

lemma resized_length: "s' = s \<or> resized served junk p s s' \<Longrightarrow> length (shm s) \<le> length (shm s')"
  using resized_used(1) [of s' s p "length (shm s) - 1"] by (cases "shm s") auto

text \<open>Past the middle of the memory the search is a plain scan.\<close>

lemma scan_upper:
  assumes "api_ok s" "n \<le> length (shm s)" "n div 2 < idx" "idx \<le> i" "i < n" "i - idx < fuel"
    "\<forall>j. idx \<le> j \<and> j < i \<longrightarrow> used (shm s ! j) \<noteq> 0" "used (shm s ! i) = 0"
  shows "find_entry_loop fuel p env a n idx s = Inr (i, claim a i s)"
  using assms
proof (induction fuel arbitrary: idx)
  case (Suc fuel)
  have at: "entry_at s idx = Inr (shm s ! idx)" using Suc.prems by (intro entry_at_ok) auto
  show ?case
  proof (cases "idx = i")
    case True
    then show ?thesis using Suc.prems at by (simp add: claim_def)
  next
    case False
    then have "Suc idx mod n = Suc idx" "used (shm s ! idx) \<noteq> 0" using Suc.prems(4,5,7) by auto
    then show ?thesis using Suc.IH [of "Suc idx"] Suc.prems False at by simp
  qed
qed simp

text \<open>In the lower half nothing happens until the middle, where the memory may grow once.\<close>

lemma scan_lower:
  assumes p: "params_ok p" and "api_ok s" "agreed s" "n \<le> length (shm s)" "idx \<le> n div 2" "idx \<le> i" "i < n" "i - idx < fuel"
    "\<forall>j. idx \<le> j \<and> j < i \<longrightarrow> used (shm s ! j) \<noteq> 0" "used (shm s ! i) = 0"
  shows "\<exists>s1. find_entry_loop fuel p env a n idx s = Inr (i, claim a i s1)
    \<and> (if i < n div 2 then s1 = s else resize_shm p env s = Inr (0, s1))"
  using assms(2-)
proof (induction fuel arbitrary: idx)
  case (Suc fuel)
  have at: "entry_at s idx = Inr (shm s ! idx)" using Suc.prems by (intro entry_at_ok) auto
  show ?case
  proof (cases "idx = n div 2")
    case True
    obtain s1 where s1: "resize_shm p env s = Inr (0, s1)" "api_ok s1" "s1 = s \<or> resized served junk p s s1"
      using resize_shm_ok [OF p Suc.prems(1,2)] by blast
    note used = resized_used [OF s1(3)]
    have n: "n \<le> length (shm s1)" using resized_length [OF s1(3)] Suc.prems(3) by simp
    have at1: "entry_at s1 idx = Inr (shm s1 ! idx)" using s1(2) n Suc.prems(5,6) by (intro entry_at_ok) auto
    have free: "used (shm s1 ! i) = 0" "\<forall>j. idx \<le> j \<and> j < i \<longrightarrow> used (shm s1 ! j) \<noteq> 0"
      using used(2) Suc.prems(3,6,8,9) by auto
    have "find_entry_loop (Suc fuel) p env a n idx s = Inr (i, claim a i s1)"
    proof (cases "idx = i")
      case True
      then show ?thesis using \<open>idx = n div 2\<close> s1(1) at1 free(1) by (simp add: claim_def)
    next
      case False
      then have "Suc idx mod n = Suc idx" "used (shm s1 ! idx) \<noteq> 0" using Suc.prems(5,6) free(2) by auto
      then show ?thesis
        using \<open>idx = n div 2\<close> s1(1) at1 scan_upper [OF s1(2) n, of "Suc idx" i fuel p a] free False Suc.prems(5,6,7)
        by simp
    qed
    then show ?thesis using True Suc.prems(5) s1(1) by auto
  next
    case False
    then have lt: "idx < n div 2" using Suc.prems(4) by simp
    show ?thesis
    proof (cases "idx = i")
      case True
      then show ?thesis using lt at Suc.prems(9) by (auto simp: claim_def)
    next
      case False
      then have "Suc idx mod n = Suc idx" "used (shm s ! idx) \<noteq> 0" using Suc.prems(5,6,8) by auto
      then show ?thesis using Suc.IH [of "Suc idx"] Suc.prems False at lt by simp
    qed
  qed
qed simp

text \<open>When every entry is in use the search goes round and round, even if the memory grows meanwhile.\<close>

lemma search_spins:
  assumes p: "params_ok p" and "api_ok s" "agreed s" "n \<le> length (shm s)" "idx < n" "\<forall>j < n. used (shm s ! j) \<noteq> 0"
  shows "find_entry_loop fuel p env a n idx s = Inl Nontermination"
  using assms(2-)
proof (induction fuel arbitrary: idx s)
  case (Suc fuel)
  obtain s1 where s1: "(if idx = n div 2 then resize_shm p env s else Inr (0, s)) = Inr (0, s1)" "api_ok s1" "agreed s1" "s1 = s \<or> resized served junk p s s1"
  proof (cases "idx = n div 2")
    case True
    then show ?thesis using resize_shm_ok [OF p Suc.prems(1,2)] that by auto
  next
    case False
    then show ?thesis using that [of s] Suc.prems(1,2) by simp
  qed
  note used = resized_used [OF s1(4)]
  have n: "n \<le> length (shm s1)" using resized_length [OF s1(4)] Suc.prems(3) by simp
  have all: "\<forall>j < n. used (shm s1 ! j) \<noteq> 0" using used(2) Suc.prems(3,5) by simp
  have "find_entry_loop fuel p env a n (Suc idx mod n) s1 = Inl Nontermination"
    using Suc.prems(4) by (intro Suc.IH [OF s1(2,3) n _ all]) simp
  moreover have "entry_at s1 idx = Inr (shm s1 ! idx)" using s1(2) n Suc.prems(4) by (intro entry_at_ok) auto
  ultimately show ?case using s1(1) all Suc.prems(4) by simp
qed simp

lemma find_shared_entry_ok:
  assumes "params_ok p" "api_ok s" "agreed s" "i < length (shm s)" "i < fuel" "\<forall>j < i. used (shm s ! j) \<noteq> 0" "used (shm s ! i) = 0"
  shows "\<exists>s1. find_shared_entry fuel p env a s = Inr (i, claim a i s1)
    \<and> (if i < length (shm s) div 2 then s1 = s else resize_shm p env s = Inr (0, s1))"
  using scan_lower [OF assms(1-3) order_refl, of 0 i fuel a] assms entries_in_ok [OF assms(2)]
  by (simp add: find_shared_entry_def)

end

section \<open>Waiting for a result\<close>

text \<open>An entry that can be polled, and what collecting its result leaves behind.\<close>

definition pollable :: "nat \<Rightarrow> api \<Rightarrow> bool" where
  "pollable idx s \<longleftrightarrow> \<not> shm_resize_lock s \<and> idx < entries_in (shm_size s) \<and> idx < length (shm s)"

definition release :: "nat \<Rightarrow> api \<Rightarrow> api" where
  "release idx s = s\<lparr>shm := (shm s)[idx := (shm s ! idx)\<lparr>used := 0, completed := 0\<rparr>]\<rparr>"

lemma is_request_done_eq:
  "pollable idx s \<Longrightarrow> is_request_done idx s =
     (if completed (shm s ! idx) = 1 then Inr (Some (arg (shm s ! idx)), release idx s) else Inr (None, s))"
  by (simp add: is_request_done_def locate_entry_def check_entry_def entry_at_def pollable_def release_def)

text \<open>The state after the sleeps \<open>world\<close>, as long as no poll has found a result.\<close>

fun after_sleeps :: "(u32 \<Rightarrow> api \<Rightarrow> api) list \<Rightarrow> u32 \<Rightarrow> api \<Rightarrow> api" where
  "after_sleeps [] backoff s = s"
| "after_sleeps (w # world) backoff s = after_sleeps world (backoff * 2) (w (backoff * 2) s)"

lemma recv_response_first:
  assumes "\<forall>k \<le> n. pollable idx (after_sleeps (take k world) b s)" "n \<le> length world"
    "\<forall>k < n. completed (shm (after_sleeps (take k world) b s) ! idx) \<noteq> 1"
    "completed (shm (after_sleeps (take n world) b s) ! idx) = 1"
  shows "recv_response world b idx s =
    Inr (arg (shm (after_sleeps (take n world) b s) ! idx), release idx (after_sleeps (take n world) b s))"
  using assms
proof (induction n arbitrary: world b s)
  case 0
  then show ?case by (subst recv_response.simps) (simp add: is_request_done_eq)
next
  case (Suc n)
  obtain w ws where ws: "world = w # ws" using Suc.prems(2) by (cases world) auto
  have now: "pollable idx s" "completed (shm s ! idx) \<noteq> 1"
    using Suc.prems(1) [rule_format, of 0] Suc.prems(3) [rule_format, of 0] by simp_all
  have "recv_response ws (b * 2) idx (w (b * 2) s) =
    Inr (arg (shm (after_sleeps (take n ws) (b * 2) (w (b * 2) s)) ! idx), release idx (after_sleeps (take n ws) (b * 2) (w (b * 2) s)))"
    using Suc.prems(1) [rule_format, of "Suc k" for k] Suc.prems(2) Suc.prems(3) [rule_format, of "Suc k" for k] Suc.prems(4)
    by (intro Suc.IH) (auto simp: ws)
  then show ?case
    using now by (subst recv_response.simps) (simp add: is_request_done_eq ws)
qed

text \<open>
  C18. Waiting: \<^verbatim>\<open>tinyfile_async_wait\<close> returns at the first poll at which the server has marked the entry done, whatever else has happened
  while it slept, with the argument the server left in the entry, and gives the entry back for re-use. It never
  returns before.
\<close>

theorem async_wait_returns_result:
  assumes "\<forall>k \<le> n. pollable idx (after_sleeps (take k world) 1 s)" "n \<le> length world"
    "\<forall>k < n. completed (shm (after_sleeps (take k world) 1 s) ! idx) \<noteq> 1"
    "completed (shm (after_sleeps (take n world) 1 s) ! idx) = 1"
  shows "tinyfile_async_wait world idx s =
    Inr (0, arg (shm (after_sleeps (take n world) 1 s) ! idx), release idx (after_sleeps (take n world) 1 s))"
  using recv_response_first [OF assms] by (simp add: tinyfile_async_wait_def)

theorem async_wait_returns_result_witness:
  "tinyfile_async_wait [\<lambda>_ s. s, \<lambda>_ s. s\<lparr>shm := [(shm s ! 0)\<lparr>completed := 1\<rparr>]\<rparr>] 0 (example_api [zero_entry\<lparr>used := 1\<rparr>]) =
    Inr (0, arg zero_entry, example_api [zero_entry])"
proof -
  let ?w = "[\<lambda>_ s. s, \<lambda>_ s. s\<lparr>shm := [(shm s ! 0)\<lparr>completed := 1\<rparr>]\<rparr>] :: (u32 \<Rightarrow> api \<Rightarrow> api) list"
  have two: "(\<forall>k \<le> 2. P k) \<longleftrightarrow> P 0 \<and> P 1 \<and> P 2" "(\<forall>k < 2. P k) \<longleftrightarrow> P 0 \<and> P 1" for P :: "nat \<Rightarrow> bool"
    by (auto simp: numeral_2_eq_2 le_Suc_eq less_Suc_eq)
  show ?thesis
    using async_wait_returns_result [of 2 0 ?w "example_api [zero_entry\<lparr>used := 1\<rparr>]"]
    by (simp add: two pollable_def release_def example_api_def zero_entry_def free_entry_def entries_in_nat)
qed

text \<open>
  The world while a group of requests is joined. An entry is awaited while its result has not been collected: it is in use and holds the argument \<open>A\<close> of
  the request, and from the time it is done the result \<open>R\<close>. A step of the world is harmless if it leaves the entry of an awaited request to that
  request, and finishes a request if it marks its entry done, should it still be awaited.
\<close>

definition awaits :: "(nat \<Rightarrow> tinyfile_arg) \<Rightarrow> (nat \<Rightarrow> tinyfile_arg) \<Rightarrow> nat \<Rightarrow> api \<Rightarrow> bool" where
  "awaits A R idx s \<longleftrightarrow> pollable idx s \<and> used (shm s ! idx) \<noteq> 0
     \<and> arg (shm s ! idx) = (if completed (shm s ! idx) = 1 then R idx else A idx)"

definition harmless :: "(nat \<Rightarrow> tinyfile_arg) \<Rightarrow> (nat \<Rightarrow> tinyfile_arg) \<Rightarrow> nat set \<Rightarrow> (api \<Rightarrow> api) \<Rightarrow> bool" where
  "harmless A R idxs w \<longleftrightarrow> (\<forall>s. \<forall>idx \<in> idxs. awaits A R idx s \<longrightarrow> awaits A R idx (w s)
     \<and> (completed (shm s ! idx) = 1 \<longrightarrow> completed (shm (w s) ! idx) = 1))"

definition finishes :: "(nat \<Rightarrow> tinyfile_arg) \<Rightarrow> (nat \<Rightarrow> tinyfile_arg) \<Rightarrow> nat \<Rightarrow> (api \<Rightarrow> api) \<Rightarrow> bool" where
  "finishes A R idx w \<longleftrightarrow> (\<forall>s. awaits A R idx s \<longrightarrow> completed (shm (w s) ! idx) = 1)"

lemma harmlessD:
  "harmless A R idxs w \<Longrightarrow> idx \<in> idxs \<Longrightarrow> awaits A R idx s \<Longrightarrow> awaits A R idx (w s)"
  "harmless A R idxs w \<Longrightarrow> idx \<in> idxs \<Longrightarrow> awaits A R idx s \<Longrightarrow> completed (shm s ! idx) = 1 \<Longrightarrow> completed (shm (w s) ! idx) = 1"
  by (simp_all add: harmless_def)

lemma release_other:
  "idx \<noteq> i \<Longrightarrow> shm (release i s) ! idx = shm s ! idx" "awaits A R idx s \<Longrightarrow> idx \<noteq> i \<Longrightarrow> awaits A R idx (release i s)"
  by (simp_all add: release_def awaits_def pollable_def)

text \<open>The state of the join loop: the requests that are done have their result, the others are awaited.\<close>

definition joining ::
    "(nat \<Rightarrow> tinyfile_arg) \<Rightarrow> (nat \<Rightarrow> tinyfile_arg) \<Rightarrow> nat list \<Rightarrow> nat \<Rightarrow> nat \<Rightarrow> bool list \<Rightarrow> tinyfile_arg list \<Rightarrow> api \<Rightarrow> bool" where
  "joining A R es i ndone rd outs s \<longleftrightarrow> distinct es \<and> i < length es \<and> length rd = length es \<and> length outs = length es
     \<and> ndone = card {j. j < length es \<and> rd ! j}
     \<and> (\<forall>j < length es. if rd ! j then outs ! j = R (es ! j) else awaits A R (es ! j) s)"

lemma joining_all_done:
  assumes "joining A R es i ndone rd outs s" "\<not> ndone < length es"
  shows "outs = map R es"
proof -
  have c: "card {j. j < length es \<and> rd ! j} = ndone" "\<forall>j < length es. if rd ! j then outs ! j = R (es ! j) else awaits A R (es ! j) s"
    and len: "length outs = length es" using assms(1) by (auto simp: joining_def)
  have "{j. j < length es \<and> rd ! j} = {..<length es}"
    using assms(2) c(1) by (intro card_subset_eq) (auto simp: card_le_Suc_iff not_less intro: antisym card_mono [of "{..<length es}", simplified])
  then have "\<forall>j < length es. rd ! j" by blast
  then show ?thesis using c(2) len by (intro nth_equalityI) auto
qed

text \<open>One iteration keeps it; a request whose entry is done is collected when its turn comes.\<close>

lemma join_step:
  assumes j: "joining A R es i ndone rd outs s" and w: "harmless A R (set es) w" and n: "ndone < length es"
  shows "\<exists>ndone' rd' outs' s'. join_loop (w # world) es (length es) i ndone rd outs s =
        join_loop world es (length es) (Suc i mod length es) ndone' rd' outs' (w s')
      \<and> joining A R es (Suc i mod length es) ndone' rd' outs' (w s')
      \<and> (rd ! i \<or> completed (shm s ! (es ! i)) = 1 \<longrightarrow> rd' ! i)
      \<and> (\<forall>k < length es. k \<noteq> i \<longrightarrow> rd' ! k = rd ! k)
      \<and> (\<forall>k < length es. k \<noteq> i \<and> \<not> rd ! k \<longrightarrow> shm s' ! (es ! k) = shm s ! (es ! k))
      \<and> (\<forall>k < length es. \<not> rd' ! k \<longrightarrow> awaits A R (es ! k) s')"
proof -
  have es: "distinct es" "i < length es" "length rd = length es" "length outs = length es"
      "ndone = card {j. j < length es \<and> rd ! j}"
      "\<And>j. j < length es \<Longrightarrow> if rd ! j then outs ! j = R (es ! j) else awaits A R (es ! j) s"
    using j by (auto simp: joining_def)
  have i': "Suc i mod length es < length es" using es(2) by (intro mod_less_divisor) auto
  have keep: "joining A R es (Suc i mod length es) ndone rd outs (w s)"
    using es i' harmlessD(1) [OF w nth_mem] by (simp add: joining_def)
  show ?thesis
  proof (cases "rd ! i")
    case True
    then have "join_loop (w # world) es (length es) i ndone rd outs s =
        join_loop world es (length es) (Suc i mod length es) ndone rd outs (w s)"
      using n by (subst join_loop.simps) simp
    then show ?thesis using True keep es(6) by (intro exI [of _ ndone] exI [of _ rd] exI [of _ outs] exI [of _ s]) auto
  next
    case False
    then have aw: "awaits A R (es ! i) s" using es(2,6) by auto
    then have poll: "pollable (es ! i) s" by (simp add: awaits_def)
    show ?thesis
    proof (cases "completed (shm s ! (es ! i)) = 1")
      case f: False
      then have "join_loop (w # world) es (length es) i ndone rd outs s =
          join_loop world es (length es) (Suc i mod length es) ndone rd outs (w s)"
        using n False es(2,4) by (subst join_loop.simps) (simp add: is_request_done_eq [OF poll])
      then show ?thesis using False f keep es(6) by (intro exI [of _ ndone] exI [of _ rd] exI [of _ outs] exI [of _ s]) auto
    next
      case True
      let ?rd = "rd[i := True]" and ?outs = "outs[i := arg (shm s ! (es ! i))]" and ?s = "release (es ! i) s"
      have loop: "join_loop (w # world) es (length es) i ndone rd outs s =
          join_loop world es (length es) (Suc i mod length es) (Suc ndone) ?rd ?outs (w ?s)"
        using n False True es(2,4) by (subst join_loop.simps) (simp add: is_request_done_eq [OF poll])
      have other: "awaits A R (es ! k) ?s" "shm ?s ! (es ! k) = shm s ! (es ! k)" if "k < length es" "k \<noteq> i" "\<not> rd ! k" for k
        using that es(1,2) es(6) [of k] release_other(1) [of "es ! k" "es ! i" s] release_other(2) [of A R "es ! k" s "es ! i"] by (auto simp: nth_eq_iff_index_eq)
      have "{k. k < length es \<and> ?rd ! k} = insert i {k. k < length es \<and> rd ! k}"
        using es(2,3) by (auto simp: nth_list_update)
      then have card: "Suc ndone = card {k. k < length es \<and> ?rd ! k}" using False es(5) by simp
      have "joining A R es (Suc i mod length es) (Suc ndone) ?rd ?outs (w ?s)"
        using es(1-4) i' card aw True es(6) other harmlessD(1) [OF w nth_mem]
        by (auto simp: joining_def nth_list_update awaits_def)
      moreover have "\<forall>k < length es. \<not> ?rd ! k \<longrightarrow> awaits A R (es ! k) ?s"
        using other(1) es(2,3) by (auto simp: nth_list_update split: if_splits)
      ultimately show ?thesis
        using loop other(2) es(2,3) by (intro exI [of _ "Suc ndone"] exI [of _ ?rd] exI [of _ ?outs] exI [of _ ?s]) auto
    qed
  qed
qed

text \<open>Once all entries are done, a round over the requests that are left collects them.\<close>

lemma join_collects:
  assumes "joining A R es i ndone rd outs s" "\<forall>w \<in> set world. harmless A R (set es) w" "m \<le> length world"
    "\<forall>k < length es. \<not> rd ! k \<longrightarrow> completed (shm s ! (es ! k)) = 1"
    "\<forall>k < length es. \<not> rd ! k \<longrightarrow> (\<exists>l < m. k = (i + l) mod length es)"
  shows "\<exists>s'. join_loop world es (length es) i ndone rd outs s = Inr (map R es, s')"
  using assms
proof (induction m arbitrary: world i ndone rd outs s)
  case 0
  have "{k. k < length es \<and> rd ! k} = {..<length es}" using "0.prems"(5) by auto
  then have "\<not> ndone < length es" using "0.prems"(1) by (simp add: joining_def)
  then show ?case using joining_all_done [OF "0.prems"(1)] by (subst join_loop.simps) simp
next
  case (Suc m)
  show ?case
  proof (cases "ndone < length es")
    case False
    then show ?thesis using joining_all_done [OF Suc.prems(1)] by (subst join_loop.simps) simp
  next
    case True
    obtain w ws where ws: "world = w # ws" using Suc.prems(3) by (cases world) auto
    have w: "harmless A R (set es) w" using Suc.prems(2) ws by simp
    obtain ndone' rd' outs' s' where st: "join_loop (w # ws) es (length es) i ndone rd outs s =
        join_loop ws es (length es) (Suc i mod length es) ndone' rd' outs' (w s')"
      "joining A R es (Suc i mod length es) ndone' rd' outs' (w s')"
      "rd ! i \<or> completed (shm s ! (es ! i)) = 1 \<longrightarrow> rd' ! i"
      "\<forall>k < length es. k \<noteq> i \<longrightarrow> rd' ! k = rd ! k"
      "\<forall>k < length es. k \<noteq> i \<and> \<not> rd ! k \<longrightarrow> shm s' ! (es ! k) = shm s ! (es ! k)"
      "\<forall>k < length es. \<not> rd' ! k \<longrightarrow> awaits A R (es ! k) s'"
      using join_step [OF Suc.prems(1) w True, of ws] by metis
    have i: "i < length es" using Suc.prems(1) by (simp add: joining_def)
    have di: "rd' ! i" using st(3) Suc.prems(4) i by blast
    have left: "k \<noteq> i \<and> \<not> rd ! k" if "k < length es" "\<not> rd' ! k" for k using that di st(4) by blast
    have "\<forall>k < length es. \<not> rd' ! k \<longrightarrow> completed (shm (w s') ! (es ! k)) = 1"
      using left st(5,6) Suc.prems(4) harmlessD(2) [OF w nth_mem] by metis
    moreover have "\<exists>l < m. k = (Suc i mod length es + l) mod length es" if k: "k < length es" "\<not> rd' ! k" for k
    proof -
      obtain l where l: "l < Suc m" "k = (i + l) mod length es" using Suc.prems(5) left [OF k] k(1) by blast
      then obtain l' where "l = Suc l'" using left [OF k] i by (cases l) auto
      then have "l' < m" "k = (Suc i mod length es + l') mod length es" using l by (simp_all add: mod_add_left_eq)
      then show ?thesis by blast
    qed
    ultimately have "\<exists>s''. join_loop ws es (length es) (Suc i mod length es) ndone' rd' outs' (w s') = Inr (map R es, s'')"
      using Suc.prems(2,3) ws by (intro Suc.IH [OF st(2)]) auto
    then show ?thesis using st(1) ws by simp
  qed
qed

lemma round_covers:
  assumes "k < n" "i < (n :: nat)"
  shows "\<exists>l < n. k = (i + l) mod n"
proof -
  have "k = (i + (if i \<le> k then k - i else k + n - i)) mod n" "(if i \<le> k then k - i else k + n - i) < n" using assms by auto
  then show ?thesis by blast
qed

lemma join_waits:
  assumes "joining A R es i ndone rd outs s" "\<forall>w \<in> set world. harmless A R (set es) w"
    and "\<forall>k < length es. \<not> rd ! k \<longrightarrow> completed (shm s ! (es ! k)) = 1 \<or> (\<exists>w \<in> set world. finishes A R (es ! k) w)"
    and "\<forall>w \<in> set world'. harmless A R (set es) w" "length es \<le> length world'"
  shows "\<exists>s'. join_loop (world @ world') es (length es) i ndone rd outs s = Inr (map R es, s')"
  using assms(1-3)
proof (induction world arbitrary: i ndone rd outs s)
  case Nil
  have "i < length es" using Nil.prems(1) by (simp add: joining_def)
  then show ?case using join_collects [OF Nil.prems(1) assms(4,5)] Nil.prems(3) round_covers by simp
next
  case (Cons w world)
  have w: "harmless A R (set es) w" using Cons.prems(2) by simp
  show ?case
  proof (cases "ndone < length es")
    case False
    then show ?thesis using joining_all_done [OF Cons.prems(1)] by (subst join_loop.simps) simp
  next
    case True
    obtain ndone' rd' outs' s' where st: "join_loop (w # world @ world') es (length es) i ndone rd outs s =
        join_loop (world @ world') es (length es) (Suc i mod length es) ndone' rd' outs' (w s')"
      "joining A R es (Suc i mod length es) ndone' rd' outs' (w s')"
      "rd ! i \<or> completed (shm s ! (es ! i)) = 1 \<longrightarrow> rd' ! i"
      "\<forall>k < length es. k \<noteq> i \<longrightarrow> rd' ! k = rd ! k"
      "\<forall>k < length es. k \<noteq> i \<and> \<not> rd ! k \<longrightarrow> shm s' ! (es ! k) = shm s ! (es ! k)"
      "\<forall>k < length es. \<not> rd' ! k \<longrightarrow> awaits A R (es ! k) s'"
      using join_step [OF Cons.prems(1) w True, of "world @ world'"] by metis
    have "completed (shm (w s') ! (es ! k)) = 1 \<or> (\<exists>v \<in> set world. finishes A R (es ! k) v)"
      if k: "k < length es" "\<not> rd' ! k" for k
    proof -
      have aw: "awaits A R (es ! k) s'" using st(6) k by blast
      have rd: "\<not> rd ! k" using st(3,4) k by (cases "k = i") auto
      consider "completed (shm s ! (es ! k)) = 1" | "finishes A R (es ! k) w" | "\<exists>v \<in> set world. finishes A R (es ! k) v"
        using Cons.prems(3) k(1) rd by auto
      then show ?thesis
      proof cases
        case 1
        then have "k \<noteq> i" using st(3) k(2) by auto
        then have "completed (shm s' ! (es ! k)) = 1" using 1 st(5) k(1) rd by simp
        then show ?thesis using harmlessD(2) [OF w nth_mem [OF k(1)] aw] by simp
      next
        case 2
        then show ?thesis using aw by (simp add: finishes_def)
      qed blast
    qed
    then show ?thesis using Cons.IH [OF st(2)] Cons.prems(2) st(1) by auto
  qed
qed

text \<open>
  C19. Joining a group of requests: if the rest of the world leaves the entries of the group that have not been collected to their requests, and
  finishes each of the requests at some time (one after the other, in any order, some perhaps while others have been collected already),
  \<^verbatim>\<open>tinyfile_async_join\<close> returns \<open>0\<close> at the latest one round over the group after the last of them, with the results in the order of
  the requests.
\<close>

theorem async_join_collects_all:
  assumes "distinct entry_idxs" "entry_idxs \<noteq> []" "length outs = length entry_idxs"
    "\<forall>idx \<in> set entry_idxs. awaits A R idx s"
    "\<forall>w \<in> set world. harmless A R (set entry_idxs) w" "\<forall>idx \<in> set entry_idxs. \<exists>w \<in> set world. finishes A R idx w"
    "\<forall>w \<in> set world'. harmless A R (set entry_idxs) w" "length entry_idxs \<le> length world'"
  shows "\<exists>s'. tinyfile_async_join (world @ world') entry_idxs (int (length entry_idxs)) outs s = Inr (0, map R entry_idxs, s')"
proof -
  have j: "joining A R entry_idxs 0 0 (replicate (length entry_idxs) False) outs s"
    using assms(1-4) by (simp add: joining_def)
  have "\<forall>k < length entry_idxs. \<not> replicate (length entry_idxs) False ! k \<longrightarrow> completed (shm s ! (entry_idxs ! k)) = 1
      \<or> (\<exists>w \<in> set world. finishes A R (entry_idxs ! k) w)"
    using assms(6) by simp
  from join_waits [OF j assms(5) this assms(7,8)] show ?thesis
    using assms(2) by (auto simp: tinyfile_async_join_def)
qed

text \<open>A step that finishes the request of one entry in use and does nothing else.\<close>

definition finish_entry :: "nat \<Rightarrow> tinyfile_arg \<Rightarrow> api \<Rightarrow> api" where
  "finish_entry idx a s =
    (if idx < length (shm s) \<and> used (shm s ! idx) \<noteq> 0 then s\<lparr>shm := (shm s)[idx := (shm s ! idx)\<lparr>arg := a, completed := 1\<rparr>]\<rparr> else s)"

lemma finish_entry_ok: "harmless A R idxs (finish_entry idx (R idx))" "finishes A R idx (finish_entry idx (R idx))"
  by (auto simp: harmless_def finishes_def awaits_def pollable_def finish_entry_def nth_list_update)

lemma id_harmless: "harmless A R idxs id"
  by (simp add: harmless_def)

theorem async_join_collects_all_witness:
  "\<exists>s'. tinyfile_async_join ([finish_entry 1 \<lparr>source_file_path = ''b'', compressed_file_path = ''c''\<rparr>, id, id, id,
       finish_entry 0 \<lparr>source_file_path = ''b'', compressed_file_path = ''c''\<rparr>] @ [id, id]) [1, 0] (int (length [1 :: nat, 0]))
       [arg zero_entry, arg zero_entry] (example_api [zero_entry\<lparr>used := 1\<rparr>, zero_entry\<lparr>used := 1\<rparr>])
     = Inr (0, map (\<lambda>_. \<lparr>source_file_path = ''b'', compressed_file_path = ''c''\<rparr>) [1 :: nat, 0], s')"
  by (rule async_join_collects_all [where A = "\<lambda>_. arg zero_entry"])
     (auto simp: awaits_def pollable_def example_api_def zero_entry_def free_entry_def entries_in_nat
        id_harmless intro: finish_entry_ok [where R = "\<lambda>_. \<lparr>source_file_path = ''b'', compressed_file_path = ''c''\<rparr>", simplified])

section \<open>When resizing fails\<close>

text \<open>
  A failed \<^verbatim>\<open>shm_open\<close> or \<^verbatim>\<open>mmap\<close> in \<^verbatim>\<open>resize_shm\<close> is fatal although the caller ignores it: the error return keeps the resize
  lock and leaves the request worker stopped, so every later poll for a result blocks for ever and no queued
  request is sent any more.
\<close>

theorem resize_error_blocks_client:
  assumes "\<not> new_shm_size p s > size_t (TINYFILE_SHM_MAX_SIZE p)" "\<not> shm_resize_lock s"
    "\<not> reopen_ok env \<or> \<not> remap_ok env"
  shows "\<exists>s'. resize_shm p env s = Inr (TINYFILE_RESIZE_SHM_ERROR, s')
    \<and> is_request_done idx s' = Inl Nontermination
    \<and> request_q_handler_step (request_queue s') = Inr (None, request_queue s')"
  using assms by (auto simp: resize_shm_def Let_def is_request_done_def locate_entry_def request_q_handler_step_def)

theorem resize_error_blocks_client_witness:
  "\<exists>s'. resize_shm default_params failing_env (example_api [zero_entry, zero_entry]) = Inr (TINYFILE_RESIZE_SHM_ERROR, s')
    \<and> is_request_done 0 s' = Inl Nontermination
    \<and> request_q_handler_step (request_queue s') = Inr (None, request_queue s')"
  by (rule resize_error_blocks_client)
     (simp_all add: new_shm_size_def default_params_def size_t_def sizeof_shared_entry_def example_api_def failing_env_def)

end
