(* ===== verification/Server_Worker.thy ===== *)
theory Server_Worker
  imports Compress_Service Client_List Client_API
begin

text \<open>
  The worker threads of the server (\<^verbatim>\<open>server.c\<close>): a pass of \<^verbatim>\<open>service_worker\<close>, starting and joining the threads, and \<^verbatim>\<open>resize_shm\<close>, the other side of
  the client's resize. With it the contract on which the client library relies is discharged, and the
  search for a free entry is settled for the two sides together.
\<close>

section \<open>Worker threads\<close>

definition start_worker_threads :: "client \<Rightarrow> client" where
  "start_worker_threads c = c\<lparr>stop_client_threads := False\<rparr>"

definition join_worker_threads :: "client \<Rightarrow> client" where
  "join_worker_threads c = c\<lparr>stop_client_threads := True\<rparr>"

text \<open>
  One pass of the loop of \<^verbatim>\<open>service_worker\<close>. The result says whether the thread goes on, and whether it has started a thread that
  runs \<^verbatim>\<open>resize_shm\<close>. The absolute timeout is in the past (\<^verbatim>\<open>ts.tv_sec = 0\<close>), so an empty queue ends the receive at once.
\<close>

datatype worker_outcome = Worker_ends | Worker_waits | Worker_resizes | Worker_served

definition service_worker_step ::
    "io \<Rightarrow> client \<Rightarrow> tinyfile_request mq \<Rightarrow> tinyfile_shared_entry list \<Rightarrow> server_os \<Rightarrow>
     (worker_outcome \<times> client \<times> tinyfile_request mq \<times> tinyfile_shared_entry list \<times> server_os) c_result" where
  "service_worker_step io c q m st =
     (if stop_client_threads c then Inr (Worker_ends, c, q, m, st)
      else
        case mq_receive q of
          None \<Rightarrow> Inr (Worker_waits, c, q, m, st)
        | Some (req, q) \<Rightarrow>
            if request_id req = -1 then Inr (Worker_resizes, c, q, m, st)
            else
              let c = c\<lparr>num_requests_started := num_requests_started c + 1\<rparr> in
              cbind (handle_request io req m st) (\<lambda>(m, st).
                Inr (Worker_served, c\<lparr>num_requests_completed := num_requests_completed c + 1\<rparr>, q, m, st)))"

section \<open>Resizing\<close>

text \<open>
  \<open>m\<close> is the object after the client's \<^verbatim>\<open>ftruncate\<close>, \<open>drain\<close> what the workers still write to it before they are joined, and \<open>junk\<close>
  the stack garbage in a fresh entry and in the response. Old and new mapping are of the same object, so the
  \<^verbatim>\<open>memcpy\<close> between them changes nothing.
\<close>

definition server_resize_shm ::
    "(tinyfile_shared_entry list \<Rightarrow> tinyfile_shared_entry list) \<Rightarrow> tinyfile_arg \<Rightarrow> client \<Rightarrow> tinyfile_shared_entry list \<Rightarrow>
     client \<times> tinyfile_shared_entry list \<times> tinyfile_response" where
  "server_resize_shm drain junk c m =
    (let old = cl_shm_size c div 352;
         m = take old m @ replicate (length m - old) (free_entry junk);
         c = join_worker_threads c;
         m = drain m;
         response = \<lparr>resp_request_id = -1, resp_entry_idx = 0, resp_arg = junk\<rparr>;
         c = c\<lparr>cl_shm_size := 352 * length m\<rparr> in
     (start_worker_threads c, m, response))"

text \<open>
  The other side of a resize as the client sees it, when the system calls succeed. The server works with the size in its own record of the client,
  which it sets to the size of the object.
\<close>

definition with_server ::
    "(tinyfile_shared_entry list \<Rightarrow> tinyfile_shared_entry list) \<Rightarrow> tinyfile_arg \<Rightarrow> client \<Rightarrow> resize_env" where
  "with_server drain junk c = \<lparr>reopen_ok = True, remap_ok = True,
     stack_request = \<lparr>service = 0, priority = 0, request_id = 0, entry_idx = 0, req_pid = 0\<rparr>,
     serve_resize = (\<lambda>req s.
       case server_resize_shm drain junk (c\<lparr>cl_shm_size := peer_shm_size s\<rparr>) (shm s) of (c', m, r) \<Rightarrow>
         (s\<lparr>shm := m, peer_shm_size := cl_shm_size c'\<rparr>, r))\<rparr>"

text \<open>What the workers write while they are joined: they finish the requests \<open>reqs\<close> they have received.\<close>

fun drain_requests ::
    "io \<Rightarrow> server_os \<Rightarrow> tinyfile_request list \<Rightarrow> tinyfile_shared_entry list \<Rightarrow> tinyfile_shared_entry list" where
  "drain_requests io st [] m = m"
| "drain_requests io st (req # reqs) m =
     (case handle_request io req m st of Inl _ \<Rightarrow> m | Inr (m, st) \<Rightarrow> drain_requests io st reqs m)"

section \<open>The contract of a resize\<close>

lemma handle_request_entry:
  assumes "handle_request io req m st = Inr (m', st')"
  shows "\<exists>a. m' = m[entry_idx req := (m ! entry_idx req)\<lparr>arg := a, completed := 1\<rparr>] \<and> entry_idx req < length m"
  using assms
  by (auto simp: handle_request_def Let_def cbind_eq_Inr_conv split: if_splits intro: exI [of _ "arg (m ! entry_idx req)"])

lemma handle_request_used: "handle_request io req m st = Inr (m', st') \<Longrightarrow> map used m' = map used m"
  using handle_request_entry [of io req m st m' st'] by (auto simp: map_update list_update_same_conv)

lemma drain_requests_used: "map used (drain_requests io st reqs m) = map used m"
  by (induction io st reqs m rule: drain_requests.induct) (auto split: sum.splits dest: handle_request_used)

lemma drain_requests_other: "idx \<notin> entry_idx ` set reqs \<Longrightarrow> drain_requests io st reqs m ! idx = m ! idx"
proof (induction io st reqs m rule: drain_requests.induct)
  case (2 io st req reqs m)
  then show ?case using handle_request_entry [of io req m st] by (auto split: sum.splits)
qed simp

locale draining =
  fixes drain :: "tinyfile_shared_entry list \<Rightarrow> tinyfile_shared_entry list"
  assumes drain_used: "map used (drain m) = map used m"

context draining
begin

lemma length_drain [simp]: "length (drain m) = length m"
  by (metis drain_used length_map)

end

sublocale draining \<subseteq> with_server: resize_server "with_server drain junk c" drain junk for junk c
proof
  fix req s s' r
  assume call: "serve_resize (with_server drain junk c) req s = (s', r)"
  then obtain c' m where m: "server_resize_shm drain junk (c\<lparr>cl_shm_size := peer_shm_size s\<rparr>) (shm s) = (c', m, r)"
      "s' = s\<lparr>shm := m, peer_shm_size := cl_shm_size c'\<rparr>"
    by (auto simp: with_server_def split: prod.splits)
  define old where "old = peer_shm_size s div 352"
  have eq: "m = drain (take old (shm s) @ replicate (length (shm s) - old) (free_entry junk))" "resp_request_id r = -1"
      "cl_shm_size c' = 352 * length m"
    using m(1) by (auto simp: server_resize_shm_def start_worker_threads_def Let_def old_def)
  show "resp_request_id r = -1" by (rule eq(2))
  show "shm_size s' = shm_size s \<and> shm_resize_lock s' = shm_resize_lock s \<and> shm_map s' = shm_map s
      \<and> request_queue s' = request_queue s \<and> global_request_id s' = global_request_id s \<and> getpid s' = getpid s"
    by (simp add: m(2))
  show "peer_shm_size s' = 352 * length (shm s)" using eq(1,3) by (cases "length (shm s) \<le> old") (simp_all add: m(2))
  assume "peer_shm_size s = unat (shm_size s)"
  then show "shm s' = drain (take (entries_in (shm_size s)) (shm s) @ replicate (length (shm s) - entries_in (shm_size s)) (free_entry junk))"
    by (simp add: m(2) eq(1) old_def entries_in_nat)
qed (simp_all add: with_server_def drain_used)

interpretation workers: draining "drain_requests io st reqs" for io st reqs
  by unfold_locales (rule drain_requests_used)

text \<open>
  C10. The resize protocol, both sides: when the two sides agree on the size of the memory, and with the server's workers finishing any requests
  \<open>reqs\<close> they have already taken, the client's \<^verbatim>\<open>resize_shm\<close> returns \<open>0\<close>, lock free and worker running; the memory grows by one step
  exactly when the result stays within the maximum. The old entries are then as they were, with what \<^verbatim>\<open>handle_request\<close> has done to those
  of \<open>reqs\<close> and nothing else, the new ones are free, and the two sides agree on the new size.
\<close>

theorem resize_handshake:
  assumes "params_ok p" "api_ok s" "agreed s"
  shows "\<exists>s'. resize_shm p (with_server (drain_requests io st reqs) junk c) s = Inr (0, s') \<and> api_ok s' \<and> agreed s'
    \<and> (if 352 * (length (shm s) + step_entries p) \<le> unat (TINYFILE_SHM_MAX_SIZE p)
       then shm s' = drain_requests io st reqs (shm s @ replicate (step_entries p) (free_entry junk))
         \<and> (\<forall>j < length (shm s). j \<notin> entry_idx ` set reqs \<longrightarrow> shm s' ! j = shm s ! j)
         \<and> map used (shm s') = map used (shm s) @ replicate (step_entries p) 0
         \<and> unat (shm_size s') \<le> unat (TINYFILE_SHM_MAX_SIZE p)
         \<and> \<not> stop_worker (request_queue s')
       else s' = s)"
proof -
  let ?drain = "drain_requests io st reqs"
  obtain s' where s': "resize_shm p (with_server ?drain junk c) s = Inr (0, s')" "api_ok s'" "agreed s'"
      "s' = s \<or> resized ?drain junk p s s'"
      "resized ?drain junk p s s' \<longleftrightarrow> 352 * (length (shm s) + step_entries p) \<le> unat (TINYFILE_SHM_MAX_SIZE p)"
    using workers.with_server.resize_shm_ok [OF assms] by blast
  have "(\<forall>j < length (shm s). j \<notin> entry_idx ` set reqs \<longrightarrow> shm s' ! j = shm s ! j)
      \<and> map used (shm s') = map used (shm s) @ replicate (step_entries p) 0" if "resized ?drain junk p s s'"
    using that by (simp add: resized_def drain_requests_other drain_requests_used nth_append free_entry_def)
  then show ?thesis using s' by (auto simp: resized_def api_ok_def)
qed

definition example_client_record :: client where
  "example_client_record = \<lparr>cl_pid = 7, send_q = 1, recv_q = 2, cl_shm_size = 704, cl_shm_name = ''/m'', stop_client_threads = False,
     num_requests_started = 0, num_requests_completed = 0\<rparr>"

abbreviation "busy_server \<equiv> with_server
  (drain_requests example_io (example_os ''a'' [65]) [\<lparr>service = 5, priority = 1, request_id = 0, entry_idx = 0, req_pid = 7\<rparr>])
  (arg zero_entry) example_client_record"

lemma example_api_ok: "m \<noteq> [] \<Longrightarrow> length m < 1000 \<Longrightarrow> api_ok (example_api m)"
  by (simp add: api_ok_def example_api_def unat_of_nat take_bit_nat_eq_self_iff del: of_nat_mult)

lemma default_params_ok: "params_ok default_params"
  by (simp add: params_ok_def default_params_def)

lemma example_agreed: "length m < 1000 \<Longrightarrow> agreed (example_api m)"
  by (simp add: agreed_def example_api_def unat_of_nat take_bit_nat_eq_self_iff del: of_nat_mult)

theorem resize_handshake_witness:
  "\<exists>s'. resize_shm default_params busy_server (example_api [zero_entry\<lparr>used := 1\<rparr>, zero_entry]) = Inr (0, s') \<and> agreed s'
    \<and> shm s' = [zero_entry\<lparr>used := 1, completed := 1\<rparr>, zero_entry, zero_entry, zero_entry]"
proof -
  have "step_entries default_params = 2" by (simp add: step_entries_def default_params_def)
  moreover have "shm (example_api m) = m" for m by (simp add: example_api_def)
  moreover have "free_entry (arg zero_entry) = zero_entry" by (simp add: zero_entry_def free_entry_def)
  moreover have "unat (TINYFILE_SHM_MAX_SIZE default_params) = 1048576" by (simp add: default_params_def)
  ultimately show ?thesis
    using resize_handshake [OF default_params_ok example_api_ok example_agreed, of "[zero_entry\<lparr>used := 1\<rparr>, zero_entry]" example_io "example_os ''a'' [65]"
      "[\<lparr>service = 5, priority = 1, request_id = 0, entry_idx = 0, req_pid = 7\<rparr>]" "arg zero_entry" example_client_record]
    by (auto simp: numeral_2_eq_2 handle_request_def TINYFILE_COMPRESS_def)
qed

section \<open>Submitting a request\<close>

text \<open>
  C8. \<^verbatim>\<open>tinyfile_async\<close> with a free entry among those mapped and a valid priority: it ends, takes the first free entry and stores the argument
  there. When that entry is in the upper half and the maximum allows it, the memory has grown by a step, with what the server's workers have written
  meanwhile to the entries of requests \<open>reqs\<close> they had taken; every other entry is as it was. The request is numbered with
  the counter and queued by priority.
\<close>

theorem tinyfile_async_correct:
  assumes "params_ok p" "api_ok s" "agreed s" "i < length (shm s)" "\<forall>j < i. used (shm s ! j) \<noteq> 0" "used (shm s ! i) = 0"
    "prio \<le> 31" "queue_holds (request_queue s) rs" "q_heap (request_queue s) mem = None"
    "i < fuel" "length rs < fuel"
  shows "\<exists>s'. tinyfile_async fuel p (with_server (drain_requests io st reqs) junk c) (Some mem) a srv prio s = Inr (0, Some i, s')
    \<and> shm s' = (if length (shm s) div 2 \<le> i \<and> 352 * (length (shm s) + step_entries p) \<le> unat (TINYFILE_SHM_MAX_SIZE p)
         then drain_requests io st reqs (shm s @ replicate (step_entries p) (free_entry junk)) else shm s)
           [i := \<lparr>used = 1, completed = 0, arg = a\<rparr>]
    \<and> (\<forall>j < length (shm s). j \<noteq> i \<longrightarrow> used (shm s' ! j) = used (shm s ! j) \<and> (j \<notin> entry_idx ` set reqs \<longrightarrow> shm s' ! j = shm s ! j))
    \<and> queue_holds (request_queue s') (prio_insert
        \<lparr>service = srv, priority = prio, request_id = global_request_id s, entry_idx = i, req_pid = getpid s\<rparr> rs)
    \<and> global_request_id s' = global_request_id s + 1 \<and> api_ok s' \<and> agreed s'"
proof -
  let ?drain = "drain_requests io st reqs"
  let ?env = "with_server ?drain junk c"
  let ?s = "s\<lparr>global_request_id := global_request_id s + 1\<rparr>"
  let ?req = "\<lparr>service = srv, priority = prio, request_id = global_request_id s, entry_idx = i, req_pid = getpid s\<rparr>"
  have ok: "api_ok ?s" "agreed ?s" using assms(2,3) by (simp_all add: api_ok_def agreed_def)
  obtain s1 where s1: "find_shared_entry fuel p ?env a ?s = Inr (i, claim a i s1)"
      "if i < length (shm ?s) div 2 then s1 = ?s else resize_shm p ?env ?s = Inr (0, s1)"
    using workers.with_server.find_shared_entry_ok [OF assms(1) ok, of i fuel io st reqs junk c a] assms(4-6,10) by auto
  obtain s2 where s2: "resize_shm p ?env ?s = Inr (0, s2)" "api_ok s2" "agreed s2" "s2 = ?s \<or> resized ?drain junk p ?s s2"
      "resized ?drain junk p ?s s2 \<longleftrightarrow> 352 * (length (shm ?s) + step_entries p) \<le> unat (TINYFILE_SHM_MAX_SIZE p)"
      "queue (request_queue s2) = queue (request_queue ?s)" "q_heap (request_queue s2) = q_heap (request_queue ?s)"
      "global_request_id s2 = global_request_id ?s" "getpid s2 = getpid ?s"
    using workers.with_server.resize_shm_ok [OF assms(1) ok] by blast
  have f: "api_ok s1" "agreed s1" "queue (request_queue s1) = queue (request_queue s)"
      "q_heap (request_queue s1) = q_heap (request_queue s)" "global_request_id s1 = global_request_id s + 1" "getpid s1 = getpid s"
    using s1(2) s2 ok by (auto split: if_splits)
  have shm1: "shm s1 = (if length (shm s) div 2 \<le> i \<and> 352 * (length (shm s) + step_entries p) \<le> unat (TINYFILE_SHM_MAX_SIZE p)
      then ?drain (shm s @ replicate (step_entries p) (free_entry junk)) else shm s)"
    using s1(2) s2(1,4,5) by (auto simp: resized_def not_less split: if_splits)
  note used = drain_requests_used [of io st reqs "shm s @ replicate (step_entries p) (free_entry junk)"]
  have len: "length (shm s) \<le> length (shm s1)" unfolding shm1 by simp
  have old: "used (shm s1 ! j) = used (shm s ! j) \<and> (j \<notin> entry_idx ` set reqs \<longrightarrow> shm s1 ! j = shm s ! j)" if "j < length (shm s)" for j
    using that arg_cong [OF used, of "\<lambda>us. us ! j"] unfolding shm1 by (simp add: drain_requests_other nth_append)
  have prep: "prepare_request fuel p ?env a srv prio s = Inr (0, Some ?req, claim a i s1)"
    using assms(7) s1(1) f(6) by (simp add: prepare_request_def Let_def claim_def not_less)
  have qh: "queue_holds (request_queue (claim a i s1)) rs" "q_heap (request_queue (claim a i s1)) mem = None"
    using assms(8,9) f(3,4) by (simp_all add: queue_holds_def claim_def)
  obtain q where q: "request_q_enqueue fuel (Some mem) (request_queue (claim a i s1)) ?req = Inr q" "queue_holds q (prio_insert ?req rs)"
    using request_q_enqueue_ok [OF qh(1) assms(11) qh(2)] by blast
  let ?s' = "(claim a i s1)\<lparr>request_queue := q\<rparr>"
  have "tinyfile_async fuel p ?env (Some mem) a srv prio s = Inr (0, Some i, ?s')"
    using prep q(1) by (simp add: tinyfile_async_def api_enqueue_def)
  moreover have "shm ?s' = (shm s1)[i := \<lparr>used = 1, completed = 0, arg = a\<rparr>]" by (cases "shm s1 ! i") (simp add: claim_def)
  moreover have "\<forall>j < length (shm s). j \<noteq> i \<longrightarrow> used (shm ?s' ! j) = used (shm s ! j) \<and> (j \<notin> entry_idx ` set reqs \<longrightarrow> shm ?s' ! j = shm s ! j)"
    using old by (simp add: claim_def)
  moreover have "api_ok ?s'" "agreed ?s'" using f(1,2) by (simp_all add: api_ok_def agreed_def claim_def)
  ultimately show ?thesis using q(2) f(5) unfolding shm1 [symmetric] by (intro exI [of _ ?s']) (simp add: claim_def)
qed

theorem tinyfile_async_correct_witness:
  "\<exists>s'. tinyfile_async 5 default_params busy_server (Some 0) \<lparr>source_file_path = ''b'', compressed_file_path = []\<rparr> TINYFILE_COMPRESS 3
        (example_api [zero_entry\<lparr>used := 1\<rparr>, zero_entry]) = Inr (0, Some 1, s')
    \<and> shm s' = [zero_entry\<lparr>used := 1, completed := 1\<rparr>,
        \<lparr>used = 1, completed = 0, arg = \<lparr>source_file_path = ''b'', compressed_file_path = []\<rparr>\<rparr>, zero_entry, zero_entry]"
proof -
  have s: "shm (example_api m) = m" "request_queue (example_api m) = \<lparr>q_heap = Map.empty, queue = None, stop_worker = False\<rparr>" for m
    by (simp_all add: example_api_def)
  have d: "step_entries default_params = 2" "unat (TINYFILE_SHM_MAX_SIZE default_params) = 1048576"
    by (simp_all add: step_entries_def default_params_def)
  have r: "replicate 2 x = [x, x]" for x :: tinyfile_shared_entry by (simp add: numeral_2_eq_2)
  have "queue_holds \<lparr>q_heap = Map.empty, queue = None, stop_worker = False\<rparr> []" by (simp add: queue_holds_Nil)
  then show ?thesis
    using tinyfile_async_correct [OF default_params_ok example_api_ok example_agreed, of "[zero_entry\<lparr>used := 1\<rparr>, zero_entry]" 1 3 "[]" 0 5
        example_io "example_os ''a'' [65]" "[\<lparr>service = 5, priority = 1, request_id = 0, entry_idx = 0, req_pid = 7\<rparr>]" "arg zero_entry"
        example_client_record "\<lparr>source_file_path = ''b'', compressed_file_path = []\<rparr>" TINYFILE_COMPRESS]
    by (auto simp: s d r zero_entry_def free_entry_def handle_request_def TINYFILE_COMPRESS_def)
qed

text \<open>A priority above 31 is refused before anything else happens.\<close>

lemma invalid_priority_refused:
  assumes "prio > 31"
  shows "tinyfile_async fuel p env mem a srv prio s = Inr (TINYFILE_PRIORITY_ERROR, None, s)"
    "tinyfile_sync fuel p env mem world a srv prio s = Inr (TINYFILE_PRIORITY_ERROR, None, s)"
  using assms by (simp_all add: tinyfile_async_def tinyfile_sync_def prepare_request_def)

text \<open>
  C39. With every mapped entry taken (and the two sides agreed on the size of the memory), a request never returns unless another thread collects a result: the search goes round the
  entries it knew when it began, and does not look at those a resize adds meanwhile.
\<close>

theorem full_memory_hangs:
  assumes "params_ok p" "api_ok s" "agreed s" "\<forall>e \<in> set (shm s). used e \<noteq> 0" "prio \<le> 31"
  shows "tinyfile_async fuel p (with_server (drain_requests io st reqs) junk c) mem a srv prio s = Inl Nontermination"
proof -
  let ?s = "s\<lparr>global_request_id := global_request_id s + 1\<rparr>"
  have ok: "api_ok ?s" "agreed ?s" "0 < length (shm ?s)" using assms(2,3) by (simp_all add: api_ok_def agreed_def)
  have "find_shared_entry fuel p (with_server (drain_requests io st reqs) junk c) a ?s = Inl Nontermination"
    unfolding find_shared_entry_def entries_in_ok [OF ok(1)]
    using assms(4) by (intro workers.with_server.search_spins [OF assms(1) ok(1,2) order_refl ok(3)]) simp
  then show ?thesis using assms(5) by (simp add: tinyfile_async_def prepare_request_def Let_def not_less)
qed

theorem full_memory_hangs_witness:
  "tinyfile_async 1000 default_params busy_server (Some 0) (arg zero_entry) TINYFILE_COMPRESS 1
     (example_api [zero_entry\<lparr>used := 1\<rparr>, zero_entry\<lparr>used := 1\<rparr>]) = Inl Nontermination"
  by (rule full_memory_hangs [OF default_params_ok example_api_ok example_agreed]) (simp_all add: example_api_def)

text \<open>
  \<^verbatim>\<open>is_request_done\<close> computes the address of the entry under the resize lock but uses it after it has released the lock: when another thread
  submits a request in between and that grows the memory, the address points into memory that is no longer mapped.
\<close>

theorem poll_races_with_resize:
  assumes "params_ok p" "api_ok s" "agreed s" "352 * (length (shm s) + step_entries p) \<le> unat (TINYFILE_SHM_MAX_SIZE p)"
  shows "\<exists>ptr s'. locate_entry idx s = Inr ptr
    \<and> resize_shm p (with_server (drain_requests io st reqs) junk c) s = Inr (0, s') \<and> check_entry ptr s' = Inl Invalid_access"
proof -
  obtain s' where "resize_shm p (with_server (drain_requests io st reqs) junk c) s = Inr (0, s')" "resized (drain_requests io st reqs) junk p s s'"
    using workers.with_server.resize_shm_ok [OF assms(1-3)] assms(4) by blast
  moreover have "\<not> shm_resize_lock s" using assms(2) by (simp add: api_ok_def)
  ultimately show ?thesis by (auto simp: locate_entry_def check_entry_def resized_def)
qed

theorem poll_races_with_resize_witness:
  "\<exists>ptr s'. locate_entry 0 (example_api [zero_entry\<lparr>used := 1\<rparr>, zero_entry]) = Inr ptr
    \<and> resize_shm default_params busy_server (example_api [zero_entry\<lparr>used := 1\<rparr>, zero_entry]) = Inr (0, s')
    \<and> check_entry ptr s' = Inl Invalid_access"
  by (rule poll_races_with_resize [OF default_params_ok example_api_ok example_agreed])
     (simp_all add: example_api_def step_entries_def default_params_def)

section \<open>Serving a request\<close>

text \<open>
  C17. A pass of a server worker over its queue, when the oldest of the requests with the highest priority is for a readable file below 2 GiB whose
  path leaves room for the suffix, and the printing of the output does not run past its buffer: the request is taken off the queue, its entry is
  marked done and carries the path of the output file, which exists, all other entries and files are as before, no error is reported, and
  the counters of started and completed requests move together.
\<close>

theorem service_worker_serves:
  assumes "\<not> stop_client_threads c" "mq_receive q = Some (req, q')" "request_id req \<noteq> -1" "service req = TINYFILE_COMPRESS"
    "entry_idx req < length m" "io_ok io" "files st (source_file_path (arg (m ! entry_idx req))) = Some data" "length data < 2 ^ 31"
    "length (compressed_path (source_file_path (arg (m ! entry_idx req)))) < path_size"
    "compress_service io (arg (m ! entry_idx req)) st = Inr result"
  shows "\<exists>c' st' out. service_worker_step io c q m st =
      Inr (Worker_served, c', q', m[entry_idx req := (m ! entry_idx req)\<lparr>
        arg := (arg (m ! entry_idx req))\<lparr>compressed_file_path := compressed_path (source_file_path (arg (m ! entry_idx req)))\<rparr>, completed := 1\<rparr>], st')
    \<and> num_requests_started c' - num_requests_completed c' = num_requests_started c - num_requests_completed c
    \<and> files st' = (files st)(compressed_path (source_file_path (arg (m ! entry_idx req))) \<mapsto> out) \<and> stderr st' = stderr st"
proof -
  obtain err a st' where r: "result = (err, a, st')" by (cases result)
  note c = compress_service_returns [OF assms(6-9) assms(10) [unfolded r]]
  show ?thesis
    using assms(1-5) assms(10) [unfolded r] c by (auto simp: service_worker_step_def handle_request_def Let_def)
qed

theorem service_worker_serves_witness:
  "\<exists>c' st' out. service_worker_step example_io example_client_record
       [(3, \<lparr>service = TINYFILE_COMPRESS, priority = 3, request_id = 0, entry_idx = 0, req_pid = 7\<rparr>)]
       [\<lparr>used = 1, completed = 0, arg = example_arg\<rparr>] (example_os ''a'' [65]) =
      Inr (Worker_served, c', [], [\<lparr>used = 1, completed = 1,
        arg = example_arg\<lparr>compressed_file_path := compressed_path (source_file_path example_arg)\<rparr>\<rparr>], st')
    \<and> files st' = (files (example_os ''a'' [65]))(compressed_path (source_file_path example_arg) \<mapsto> out)"
proof -
  obtain st' where "compress_service example_io example_arg (example_os ''a'' [65]) =
      Inr (0, example_arg\<lparr>compressed_file_path := compressed_path (source_file_path example_arg)\<rparr>, st')"
    using compress_service_truncates [OF example_io_ok, of "example_os ''a'' [65]" example_arg "[65]"] stream_has_nul [of "[65]"] by auto
  note call = this
  let ?req = "\<lparr>service = TINYFILE_COMPRESS, priority = 3, request_id = 0, entry_idx = 0, req_pid = 7\<rparr>"
  let ?m = "[\<lparr>used = 1, completed = 0, arg = example_arg\<rparr>]"
  have pre: "\<not> stop_client_threads example_client_record" "mq_receive [(3, ?req)] = Some (?req, [])" "request_id ?req \<noteq> -1"
    "service ?req = TINYFILE_COMPRESS" "entry_idx ?req < length ?m"
    by (simp_all add: example_client_record_def)
  have arg: "files (example_os ''a'' [65]) (source_file_path (arg (?m ! entry_idx ?req))) = Some [65]" "length [65 :: u8] < 2 ^ 31"
    "length (compressed_path (source_file_path (arg (?m ! entry_idx ?req)))) < path_size"
    "compress_service example_io (arg (?m ! entry_idx ?req)) (example_os ''a'' [65]) =
      Inr (0, example_arg\<lparr>compressed_file_path := compressed_path (source_file_path example_arg)\<rparr>, st')"
    by (simp_all add: call)
  from service_worker_serves [OF pre example_io_ok arg] show ?thesis by simp blast
qed

text \<open>
  The request counter runs into the number that marks a resize: the request made when the counter stands at \<open>2\<^sup>3\<^sup>2 - 1\<close> is numbered \<open>-1\<close>, and the
  worker that receives it starts a resize instead of serving it. Its entry is never marked done.
\<close>

theorem wrapped_request_is_not_served:
  assumes "global_request_id s = -1" "prepare_request fuel p env a srv prio s = Inr (0, Some req, s')" "\<not> stop_client_threads c"
  shows "service_worker_step io c ((unat prio, req) # q) m st = Inr (Worker_resizes, c, q, m, st)"
  using assms by (auto simp: service_worker_step_def prepare_request_def Let_def cbind_eq_Inr_conv split: if_splits)

theorem wrapped_request_is_not_served_witness:
  "\<exists>req. service_worker_step example_io example_client_record ((unat (3 :: u32), req) # []) [zero_entry\<lparr>used := 1\<rparr>] (example_os ''a'' [65]) =
     Inr (Worker_resizes, example_client_record, [], [zero_entry\<lparr>used := 1\<rparr>], example_os ''a'' [65])"
proof -
  let ?s = "(example_api [zero_entry, zero_entry])\<lparr>global_request_id := -1\<rparr>"
  have "\<exists>req s'. prepare_request (Suc 0) default_params failing_env (arg zero_entry) TINYFILE_COMPRESS 3 ?s = Inr (0, Some req, s')"
    by (simp add: prepare_request_def Let_def find_shared_entry_def example_api_def entries_in_nat entry_at_def
        zero_entry_def free_entry_def)
  then obtain req s' where "prepare_request (Suc 0) default_params failing_env (arg zero_entry) TINYFILE_COMPRESS 3 ?s = Inr (0, Some req, s')" by blast
  moreover have "\<not> stop_client_threads example_client_record" "global_request_id ?s = -1" by (simp_all add: example_client_record_def)
  ultimately show ?thesis using wrapped_request_is_not_served by blast
qed

end
