(* ===== verification/Tinyfile_System.thy ===== *)
theory Tinyfile_System
  imports Server_Worker
begin

text \<open>
  One client and the server together: any number of client threads that submit requests and poll for results, the request worker of the
  client library, the message queue, and the worker threads of the server, interleaved in any order. Each step is an operation of the
  component models. A critical section is one step: taking a number, looking at one entry, each of the two counters. Between them the other
  threads may run, so a thread that looks for a free entry sees entries come and go, and a server worker holds a request before it
  has counted it and after it has served it.

  The shared memory has a fixed size, as after \<^verbatim>\<open>tinyfile_set_shm_size\<close>; the default parameters, under which the memory may
  grow, are the subject of \<open>resize_handshake\<close>. A worker's writes to the argument of its entry are one step with the marking of the entry, since no
  one else reads the argument before. The request counter does not run into the mark of a resize request
  (\<open>wrapped_request_is_not_served\<close>).
\<close>

section \<open>State and steps\<close>

definition THREADS_PER_CLIENT :: nat where "THREADS_PER_CLIENT = 10"

text \<open>A call that has its number and looks for an entry.\<close>

record call =
  call_arg :: tinyfile_arg
  call_service :: tinyfile_service
  call_priority :: u32
  call_id :: u32

text \<open>
  The last fields are what the client threads know, and the history: \<open>submitted\<close> and \<open>wanted\<close> give the entries of their unfinished calls with the arguments
  and services they passed, \<open>results\<close> is the service, the argument and the result of each finished call, and \<open>os_steps\<close> the state of the
  files before and after each request that the server has served.
\<close>

record sys =
  lib :: api
  asking :: "call list" \<comment> \<open>threads before the lock of \<^verbatim>\<open>global_request_entry_idx_mutex\<close>\<close>
  searching :: "(call \<times> nat \<times> nat) option" \<comment> \<open>the thread that holds it, with \<^verbatim>\<open>shm_size\<close> and \<^verbatim>\<open>idx\<close> of \<^verbatim>\<open>find_shared_entry\<close>\<close>
  prepared :: "tinyfile_request list" \<comment> \<open>threads between \<^verbatim>\<open>prepare_request\<close> and \<^verbatim>\<open>request_q_enqueue\<close>\<close>
  in_hand :: "tinyfile_request option" \<comment> \<open>the request worker between \<^verbatim>\<open>request_q_dequeue\<close> and \<^verbatim>\<open>mq_send\<close>\<close>
  received :: "tinyfile_request list" \<comment> \<open>server workers between \<^verbatim>\<open>mq_timedreceive\<close> and \<^verbatim>\<open>num_requests_started++\<close>\<close>
  serving :: "tinyfile_request list" \<comment> \<open>server workers in \<^verbatim>\<open>handle_request\<close>\<close>
  handled :: nat \<comment> \<open>server workers between \<^verbatim>\<open>handle_request\<close> and \<^verbatim>\<open>num_requests_completed++\<close>\<close>
  srv :: client
  srv_os :: server_os
  submitted :: "nat \<rightharpoonup> tinyfile_arg"
  wanted :: "nat \<rightharpoonup> tinyfile_service"
  results :: "(tinyfile_service \<times> tinyfile_arg \<times> tinyfile_arg) list"
  os_steps :: "(server_os \<times> server_os) list"

text \<open>The steps of the machinery move a request towards its completion, in the library and in the server.\<close>

inductive library_step :: "sys \<Rightarrow> sys \<Rightarrow> bool" where
  enqueue:
    "prepared s = xs @ req # ys \<Longrightarrow> q_heap (request_queue (lib s)) mem = None \<Longrightarrow>
     api_enqueue fuel (Some mem) req (lib s) = Inr l \<Longrightarrow>
     library_step s (s\<lparr>lib := l, prepared := xs @ ys\<rparr>)"
| dequeue:
    "in_hand s = None \<Longrightarrow> request_q_handler_step (request_queue (lib s)) = Inr (Some (Some req), q) \<Longrightarrow>
     library_step s (s\<lparr>lib := (lib s)\<lparr>request_queue := q\<rparr>, in_hand := Some req\<rparr>)"
| send:
    "in_hand s = Some req \<Longrightarrow> mq_send (unat (priority req)) req (client_send_q (lib s)) = Some q \<Longrightarrow>
     library_step s (s\<lparr>lib := (lib s)\<lparr>client_send_q := q\<rparr>, in_hand := None\<rparr>)"

inductive worker_step :: "io \<Rightarrow> sys \<Rightarrow> sys \<Rightarrow> bool" for io where
  receive:
    "length (received s) + length (serving s) + handled s < THREADS_PER_CLIENT \<Longrightarrow>
     mq_receive (client_send_q (lib s)) = Some (req, q) \<Longrightarrow> request_id req \<noteq> -1 \<Longrightarrow>
     worker_step io s (s\<lparr>lib := (lib s)\<lparr>client_send_q := q\<rparr>, received := req # received s\<rparr>)"
| count_started:
    "received s = xs @ req # ys \<Longrightarrow>
     worker_step io s (s\<lparr>received := xs @ ys, serving := req # serving s,
       srv := (srv s)\<lparr>num_requests_started := num_requests_started (srv s) + 1\<rparr>\<rparr>)"
| finish:
    "serving s = xs @ req # ys \<Longrightarrow> handle_request io req (shm (lib s)) (srv_os s) = Inr (m, st) \<Longrightarrow>
     worker_step io s (s\<lparr>lib := (lib s)\<lparr>shm := m\<rparr>, serving := xs @ ys, handled := Suc (handled s), srv_os := st,
       os_steps := (srv_os s, st) # os_steps s\<rparr>)"
| count_completed:
    "handled s = Suc k \<Longrightarrow>
     worker_step io s (s\<lparr>handled := k, srv := (srv s)\<lparr>num_requests_completed := num_requests_completed (srv s) + 1\<rparr>\<rparr>)"

inductive internal :: "io \<Rightarrow> sys \<Rightarrow> sys \<Rightarrow> bool" for io where
  library: "library_step s s' \<Longrightarrow> internal io s s'"
| worker: "worker_step io s s' \<Longrightarrow> internal io s s'"

text \<open>A thread has found the free entry \<open>i\<close>: \<^verbatim>\<open>find_shared_entry\<close> and \<^verbatim>\<open>prepare_request\<close> return.\<close>

definition claimed :: "call \<Rightarrow> nat \<Rightarrow> api \<Rightarrow> sys \<Rightarrow> sys" where
  "claimed c i l s = s\<lparr>lib := l, searching := None,
       prepared := \<lparr>service = call_service c, priority = call_priority c, request_id = call_id c, entry_idx = i, req_pid = getpid l\<rparr> # prepared s,
       submitted := (submitted s)(i \<mapsto> call_arg c), wanted := (wanted s)(i \<mapsto> call_service c)\<rparr>"

text \<open>
  The steps of the client threads: \<^verbatim>\<open>prepare_request\<close>, which takes a number, waits for the lock and looks at one entry after the other until it
  can claim one, and a poll that finds a result. Together the first four are \<open>prepare_request\<close> (\<open>prepare_request_steps\<close>).
\<close>

inductive external :: "params \<Rightarrow> tinyfile_arg set \<Rightarrow> sys \<Rightarrow> sys \<Rightarrow> bool" for p A where
  number:
    "a \<in> A \<Longrightarrow> global_request_id (lib s) \<noteq> -1 \<Longrightarrow> \<not> (prio < 0 \<or> prio > 31) \<Longrightarrow>
     external p A s (s\<lparr>lib := (lib s)\<lparr>global_request_id := global_request_id (lib s) + 1\<rparr>,
       asking := \<lparr>call_arg = a, call_service = sv, call_priority = prio, call_id = global_request_id (lib s)\<rparr> # asking s\<rparr>)"
| lock:
    "searching s = None \<Longrightarrow> asking s = xs @ c # ys \<Longrightarrow>
     external p A s (s\<lparr>searching := Some (c, entries_in (shm_size (lib s)), 0), asking := xs @ ys\<rparr>)"
| look:
    "searching s = Some (c, n, idx) \<Longrightarrow> look_entry p env (call_arg c) n idx (lib s) = Inr (False, idx', l) \<Longrightarrow>
     external p A s (s\<lparr>lib := l, searching := Some (c, n, idx')\<rparr>)"
| claims:
    "searching s = Some (c, n, idx) \<Longrightarrow> look_entry p env (call_arg c) n idx (lib s) = Inr (True, i, l) \<Longrightarrow>
     external p A s (claimed c i l s)"
| collect:
    "submitted s i = Some a \<Longrightarrow> wanted s i = Some sv \<Longrightarrow> is_request_done i (lib s) = Inr (Some out, l) \<Longrightarrow>
     external p A s (s\<lparr>lib := l, submitted := (submitted s)(i := None), results := (sv, a, out) # results s\<rparr>)"

inductive_cases library_stepE: "library_step s s'"
inductive_cases worker_stepE: "worker_step io s s'"
inductive_cases internalE: "internal io s s'"
inductive_cases externalE: "external p A s s'"

text \<open>
  The state after \<^verbatim>\<open>tinyfile_init\<close>. At some time the server registers the client, with new counters, before which none of its workers serves the
  client; in between the steps, files change and messages are printed on behalf of others.
\<close>

definition no_worker_busy :: "sys \<Rightarrow> bool" where
  "no_worker_busy s \<longleftrightarrow> received s = [] \<and> serving s = [] \<and> handled s = 0"

definition initial :: "params \<Rightarrow> sys \<Rightarrow> bool" where
  "initial p s \<longleftrightarrow> api_ok (lib s) \<and> new_shm_size p (lib s) > size_t (TINYFILE_SHM_MAX_SIZE p) \<and> (\<forall>e \<in> set (shm (lib s)). used e = 0)
     \<and> queue (request_queue (lib s)) = None \<and> finite (dom (q_heap (request_queue (lib s)))) \<and> \<not> stop_worker (request_queue (lib s))
     \<and> client_send_q (lib s) = [] \<and> asking s = [] \<and> searching s = None \<and> prepared s = [] \<and> in_hand s = None \<and> no_worker_busy s
     \<and> submitted s = Map.empty \<and> results s = []
     \<and> num_requests_started (srv s) = num_requests_completed (srv s)"

inductive reachable :: "params \<Rightarrow> io \<Rightarrow> tinyfile_arg set \<Rightarrow> sys \<Rightarrow> bool" for p io A where
  start: "initial p s \<Longrightarrow> reachable p io A s"
| internal: "reachable p io A s \<Longrightarrow> internal io s s' \<Longrightarrow> reachable p io A s'"
| external: "reachable p io A s \<Longrightarrow> external p A s s' \<Longrightarrow> reachable p io A s'"
| registration: "reachable p io A s \<Longrightarrow> no_worker_busy s \<Longrightarrow> reachable p io A (s\<lparr>srv := init_worker_threads c\<rparr>)"
| environment: "reachable p io A s \<Longrightarrow> reachable p io A (s\<lparr>srv_os := st\<rparr>)"

section \<open>Invariant\<close>

text \<open>
  What the result of a request can be: for \<^verbatim>\<open>TINYFILE_COMPRESS\<close> what \<^verbatim>\<open>compress_service\<close> has made of the argument, on the files as they were at that
  time (an error is reported on \<^verbatim>\<open>stderr\<close> only); for any other service the argument.
\<close>

definition result_of :: "io \<Rightarrow> (server_os \<times> server_os) list \<Rightarrow> tinyfile_service \<Rightarrow> tinyfile_arg \<Rightarrow> tinyfile_arg \<Rightarrow> bool" where
  "result_of io H sv a out \<longleftrightarrow>
    (if sv = TINYFILE_COMPRESS
     then \<exists>st err st' pid. compress_service io a st = Inr (err, out, st')
        \<and> (st, if err \<noteq> 0 then st'\<lparr>stderr := stderr st' @ [File_error pid]\<rparr> else st') \<in> set H
     else out = a)"

text \<open>The live requests \<open>L\<close>, each with an entry of its own, and the entries as the client threads know them.\<close>

definition live_request :: "sys \<Rightarrow> tinyfile_request \<Rightarrow> bool" where
  "live_request s r \<longleftrightarrow> request_id r \<noteq> -1 \<and> entry_idx r < length (shm (lib s)) \<and> completed (shm (lib s) ! entry_idx r) = 0
     \<and> submitted s (entry_idx r) = Some (arg (shm (lib s) ! entry_idx r)) \<and> wanted s (entry_idx r) = Some (service r)"

definition answered :: "io \<Rightarrow> sys \<Rightarrow> nat \<Rightarrow> tinyfile_arg \<Rightarrow> bool" where
  "answered io s i a \<longleftrightarrow> completed (shm (lib s) ! i) = 1
     \<and> (\<exists>sv. wanted s i = Some sv \<and> result_of io (os_steps s) sv a (arg (shm (lib s) ! i)))"

definition entries_ok :: "io \<Rightarrow> sys \<Rightarrow> tinyfile_request list \<Rightarrow> bool" where
  "entries_ok io s L \<longleftrightarrow> distinct (map entry_idx L) \<and> (\<forall>r \<in> set L. live_request s r)
     \<and> (\<forall>i < length (shm (lib s)). used (shm (lib s) ! i) \<noteq> 0 \<longleftrightarrow> i \<in> dom (submitted s))
     \<and> (\<forall>i a. submitted s i = Some a \<longrightarrow> i < length (shm (lib s)) \<and> (i \<in> entry_idx ` set L \<or> answered io s i a))"

definition live_mset :: "sys \<Rightarrow> tinyfile_request list \<Rightarrow> tinyfile_request multiset" where
  "live_mset s rs = mset (prepared s) + mset rs + (case in_hand s of None \<Rightarrow> {#} | Some r \<Rightarrow> {#r#})
     + mset (map snd (client_send_q (lib s))) + mset (received s) + mset (serving s)"

text \<open>The threads that look for an entry.\<close>

definition call_ok :: "tinyfile_arg set \<Rightarrow> call \<Rightarrow> bool" where
  "call_ok A c \<longleftrightarrow> call_arg c \<in> A \<and> call_id c \<noteq> -1"

definition searchers_ok :: "tinyfile_arg set \<Rightarrow> sys \<Rightarrow> bool" where
  "searchers_ok A s \<longleftrightarrow> (\<forall>c \<in> set (asking s). call_ok A c)
     \<and> (\<forall>c n idx. searching s = Some (c, n, idx) \<longrightarrow> call_ok A c \<and> n = length (shm (lib s)) \<and> idx < n)"

definition machinery_ok :: "params \<Rightarrow> io \<Rightarrow> tinyfile_arg set \<Rightarrow> sys \<Rightarrow> bool" where
  "machinery_ok p io A s \<longleftrightarrow> api_ok (lib s) \<and> new_shm_size p (lib s) > size_t (TINYFILE_SHM_MAX_SIZE p)
     \<and> finite (dom (q_heap (request_queue (lib s)))) \<and> \<not> stop_worker (request_queue (lib s))
     \<and> length (client_send_q (lib s)) \<le> mq_maxmsg \<and> length (received s) + length (serving s) + handled s \<le> THREADS_PER_CLIENT
     \<and> num_requests_started (srv s) = num_requests_completed (srv s) + of_nat (length (serving s) + handled s)
     \<and> (\<forall>(sv, a, out) \<in> set (results s). result_of io (os_steps s) sv a out) \<and> ran (submitted s) \<subseteq> A \<and> searchers_ok A s"

definition sys_inv :: "params \<Rightarrow> io \<Rightarrow> tinyfile_arg set \<Rightarrow> sys \<Rightarrow> bool" where
  "sys_inv p io A s \<longleftrightarrow> machinery_ok p io A s
     \<and> (\<exists>rs L. queue_holds (request_queue (lib s)) rs \<and> mset L = live_mset s rs \<and> entries_ok io s L)"

section \<open>Operations in a state that satisfies the invariant\<close>

text \<open>With a memory of fixed size a look at an entry takes it when it is free, and changes nothing otherwise.\<close>

lemma look_entry_fixed:
  assumes "api_ok s" "new_shm_size p s > size_t (TINYFILE_SHM_MAX_SIZE p)" "idx < length (shm s)"
  shows "look_entry p env a (length (shm s)) idx s =
    Inr (if used (shm s ! idx) = 0 then (True, idx, claim a idx s) else (False, Suc idx mod length (shm s), s))"
proof -
  have "resize_shm p env s = Inr (0, s)" using assms(2) by (simp add: resize_shm_def)
  moreover have "entry_at s idx = Inr (shm s ! idx)" using assms(1,3) by (rule entry_at_ok)
  ultimately show ?thesis using assms(1) by (auto simp: look_entry_def claim_def api_ok_def)
qed

text \<open>\<^verbatim>\<open>prepare_request\<close> is a run of the steps of a client thread, when it does not wait for others.\<close>

lemma search_steps:
  assumes "find_entry_loop fuel p env (call_arg c) n idx (lib s) = Inr (i, l)" "searching s = Some (c, n, idx)"
  shows "(external p A)\<^sup>*\<^sup>* s (claimed c i l s)"
  using assms
proof (induction fuel arbitrary: idx s)
  case (Suc fuel)
  obtain found idx' s1 where look: "look_entry p env (call_arg c) n idx (lib s) = Inr (found, idx', s1)"
      "(if found then Inr (idx', s1) else find_entry_loop fuel p env (call_arg c) n idx' s1) = Inr (i, l)"
    using Suc.prems(1) unfolding find_entry_loop.simps(2) by (auto simp: cbind_eq_Inr_conv)
  show ?case
  proof (cases found)
    case True
    then have "look_entry p env (call_arg c) n idx (lib s) = Inr (True, i, l)" using look by simp
    from external.claims [OF Suc.prems(2) this] show ?thesis by (rule r_into_rtranclp)
  next
    case False
    let ?s = "s\<lparr>lib := s1, searching := Some (c, n, idx')\<rparr>"
    have "external p A s ?s" using external.look [OF Suc.prems(2)] look(1) False by simp
    moreover have "(external p A)\<^sup>*\<^sup>* ?s (claimed c i l s)"
      using Suc.IH [of idx' ?s] look(2) False by (simp add: claimed_def)
    ultimately show ?thesis by (meson converse_rtranclp_into_rtranclp)
  qed
qed simp

lemma prepare_request_steps:
  assumes call: "prepare_request fuel p env a sv prio (lib s) = Inr (0, Some req, l)"
    and s: "a \<in> A" "global_request_id (lib s) \<noteq> -1" "searching s = None"
  shows "(external p A)\<^sup>*\<^sup>* s (s\<lparr>lib := l, searching := None, prepared := req # prepared s, submitted := (submitted s)(entry_idx req \<mapsto> a),
    wanted := (wanted s)(entry_idx req \<mapsto> sv)\<rparr>)"
proof -
  let ?c = "\<lparr>call_arg = a, call_service = sv, call_priority = prio, call_id = global_request_id (lib s)\<rparr>"
  let ?l = "(lib s)\<lparr>global_request_id := global_request_id (lib s) + 1\<rparr>"
  let ?t = "s\<lparr>lib := ?l, asking := ?c # asking s\<rparr>"
  let ?u = "s\<lparr>lib := ?l, searching := Some (?c, entries_in (shm_size ?l), 0)\<rparr>"
  obtain i where f: "find_shared_entry fuel p env a ?l = Inr (i, l)" and req: "req = \<lparr>service = sv, priority = prio,
      request_id = global_request_id (lib s), entry_idx = i, req_pid = getpid l\<rparr>" and prio: "\<not> (prio < 0 \<or> prio > 31)"
    using call by (auto simp: prepare_request_def Let_def cbind_eq_Inr_conv api_errors split: if_splits)
  have "external p A s ?t" by (rule external.number [OF s(1,2) prio])
  moreover have "external p A ?t ?u" using external.lock [of ?t "[]" ?c "asking s" p A] s(3) by simp
  moreover have "(external p A)\<^sup>*\<^sup>* ?u (s\<lparr>lib := l, searching := None, prepared := req # prepared s, submitted := (submitted s)(entry_idx req \<mapsto> a),
      wanted := (wanted s)(entry_idx req \<mapsto> sv)\<rparr>)"
    using search_steps [of fuel p env ?c "entries_in (shm_size ?l)" 0 ?u i l A] f s(3) unfolding req find_shared_entry_def by (simp add: claimed_def)
  ultimately show ?thesis by (meson converse_rtranclp_into_rtranclp)
qed

lemma reachable_externals: "(external p A)\<^sup>*\<^sup>* s s' \<Longrightarrow> reachable p io A s \<Longrightarrow> reachable p io A s'"
  by (induction rule: rtranclp_induct) (auto intro: reachable.external)

text \<open>A search in the queue that ends within a budget also ends within a larger one.\<close>

lemma find_position_more: "find_position fuel h p prv c0 = Inr x \<Longrightarrow> find_position (fuel + k) h p prv c0 = Inr x"
  by (induction fuel arbitrary: prv c0) (auto simp: cbind_eq_Inr_conv split: option.splits if_splits)

lemma request_q_enqueue_more: "request_q_enqueue fuel mem s r = Inr x \<Longrightarrow> request_q_enqueue (fuel + k) mem s r = Inr x"
  by (auto simp: request_q_enqueue_def cbind_eq_Inr_conv find_position_more split: option.splits)

lemma api_enqueue_ok:
  assumes "queue_holds (request_queue s) rs" "q_heap (request_queue s) mem = None" "api_enqueue fuel (Some mem) req s = Inr s'"
  shows "\<exists>q. s' = s\<lparr>request_queue := q\<rparr> \<and> queue_holds q (prio_insert req rs)
    \<and> dom (q_heap q) = insert mem (dom (q_heap (request_queue s))) \<and> stop_worker q = stop_worker (request_queue s)"
proof -
  obtain q where q: "request_q_enqueue fuel (Some mem) (request_queue s) req = Inr q" "s' = s\<lparr>request_queue := q\<rparr>"
    using assms(3) by (auto simp: api_enqueue_def cbind_eq_Inr_conv)
  have "request_q_enqueue (fuel + Suc (length rs)) (Some mem) (request_queue s) req = Inr q"
    using q(1) by (rule request_q_enqueue_more)
  moreover have "length rs < fuel + Suc (length rs)" by simp
  ultimately show ?thesis
    using request_q_enqueue_ok [OF assms(1) _ assms(2)] q(2) by (metis sum.inject(2))
qed

lemma handler_step_ok:
  assumes "queue_holds q rs" "request_q_handler_step q = Inr (Some (Some req), q')"
  shows "\<exists>rs'. rs = req # rs' \<and> queue_holds q' rs' \<and> dom (q_heap q') \<subseteq> dom (q_heap q) \<and> stop_worker q' = stop_worker q"
proof -
  have "request_q_dequeue q = Inr (Some req, q')"
    using assms(2) by (auto simp: request_q_handler_step_def cbind_eq_Inr_conv split: if_splits)
  then show ?thesis using request_q_dequeue_ok [OF assms(1)] by (cases rs) auto
qed

text \<open>What the service leaves in an entry.\<close>

lemma result_of_more: "result_of io H sv a out \<Longrightarrow> set H \<subseteq> set H' \<Longrightarrow> result_of io H' sv a out"
  unfolding result_of_def by (cases "sv = TINYFILE_COMPRESS") (simp_all only: if_True if_False simp_thms, blast)

lemma handle_request_result:
  assumes "handle_request io req m st = Inr (m', st')"
  shows "\<exists>out. m' = m[entry_idx req := (m ! entry_idx req)\<lparr>arg := out, completed := 1\<rparr>] \<and> entry_idx req < length m
    \<and> result_of io [(st, st')] (service req) (arg (m ! entry_idx req)) out"
proof (cases "service req = TINYFILE_COMPRESS")
  case True
  then obtain err out st1 where c: "compress_service io (arg (m ! entry_idx req)) st = Inr (err, out, st1)"
      "m' = m[entry_idx req := (m ! entry_idx req)\<lparr>arg := out, completed := 1\<rparr>]" "entry_idx req < length m"
      "st' = (if err \<noteq> 0 then st1\<lparr>stderr := stderr st1 @ [File_error (req_pid req)]\<rparr> else st1)"
    using assms by (auto simp: handle_request_def Let_def cbind_eq_Inr_conv split: if_splits)
  then show ?thesis unfolding result_of_def using True by (intro exI [of _ out]) auto
next
  case False
  then show ?thesis
    using assms by (intro exI [of _ "arg (m ! entry_idx req)"])
      (auto simp: handle_request_def Let_def result_of_def split: if_splits)
qed

section \<open>The invariant is kept\<close>

text \<open>The steps that only pass a request on leave the entries alone.\<close>

lemma entries_ok_cong:
  assumes "entries_ok io s L" "shm (lib s') = shm (lib s)" "submitted s' = submitted s" "wanted s' = wanted s" "os_steps s' = os_steps s"
  shows "entries_ok io s' L"
  using assms(1) by (simp add: entries_ok_def live_request_def answered_def assms(2-5))

lemma sys_inv_pass:
  assumes "queue_holds (request_queue (lib s')) rs'" "live_mset s' rs' = live_mset s rs" "mset L = live_mset s rs" "entries_ok io s L"
    "shm (lib s') = shm (lib s)" "submitted s' = submitted s" "wanted s' = wanted s" "os_steps s' = os_steps s" "machinery_ok p io A s'"
  shows "sys_inv p io A s'"
proof -
  have "entries_ok io s' L" by (rule entries_ok_cong [OF assms(4-8)])
  then have "queue_holds (request_queue (lib s')) rs' \<and> mset L = live_mset s' rs' \<and> entries_ok io s' L"
    using assms(1-3) by simp
  then show ?thesis using assms(9) unfolding sys_inv_def by blast
qed

lemma api_ok_cong:
  "api_ok l \<Longrightarrow> length (shm l') = length (shm l) \<Longrightarrow> shm_size l' = shm_size l \<Longrightarrow> shm_resize_lock l' = shm_resize_lock l \<Longrightarrow> api_ok l'"
  unfolding api_ok_def by (metis length_0_conv)

lemma new_shm_size_cong: "shm_size l' = shm_size l \<Longrightarrow> new_shm_size p l' = new_shm_size p l"
  by (simp add: new_shm_size_def)

lemma entries_okD:
  assumes "entries_ok io s L"
  shows "distinct (map entry_idx L)" "\<And>r. r \<in> set L \<Longrightarrow> live_request s r"
    "\<And>i. i < length (shm (lib s)) \<Longrightarrow> used (shm (lib s) ! i) \<noteq> 0 \<longleftrightarrow> i \<in> dom (submitted s)"
    "\<And>i a. submitted s i = Some a \<Longrightarrow> i < length (shm (lib s))"
    "\<And>i a. submitted s i = Some a \<Longrightarrow> i \<notin> entry_idx ` set L \<Longrightarrow> answered io s i a"
  using assms unfolding entries_ok_def by blast+

lemma entries_okI:
  assumes "distinct (map entry_idx L)" "\<And>r. r \<in> set L \<Longrightarrow> live_request s r"
    "\<And>i. i < length (shm (lib s)) \<Longrightarrow> used (shm (lib s) ! i) \<noteq> 0 \<longleftrightarrow> i \<in> dom (submitted s)"
    "\<And>i a. submitted s i = Some a \<Longrightarrow> i < length (shm (lib s))"
    "\<And>i a. submitted s i = Some a \<Longrightarrow> i \<notin> entry_idx ` set L \<Longrightarrow> answered io s i a"
  shows "entries_ok io s L"
  using assms unfolding entries_ok_def by blast

lemma live_requestD:
  assumes "live_request s r"
  shows "request_id r \<noteq> -1" "entry_idx r < length (shm (lib s))" "completed (shm (lib s) ! entry_idx r) = 0"
    "submitted s (entry_idx r) = Some (arg (shm (lib s) ! entry_idx r))" "wanted s (entry_idx r) = Some (service r)"
  using assms by (simp_all add: live_request_def)

lemma entries_ok_finish:
  assumes ok: "entries_ok io s L" and L: "mset L = add_mset req (mset L')"
    and h: "handle_request io req (shm (lib s)) (srv_os s) = Inr (m, st)"
    and s': "shm (lib s') = m" "submitted s' = submitted s" "wanted s' = wanted s" "os_steps s' = (srv_os s, st) # os_steps s"
  shows "entries_ok io s' L'"
proof -
  let ?i = "entry_idx req"
  note D = entries_okD [OF ok]
  obtain out where m: "m = (shm (lib s))[?i := (shm (lib s) ! ?i)\<lparr>arg := out, completed := 1\<rparr>]" "?i < length (shm (lib s))"
      "result_of io [(srv_os s, st)] (service req) (arg (shm (lib s) ! ?i)) out"
    using handle_request_result [OF h] by blast
  have set: "set L = insert req (set L')" using L by (metis set_mset_add_mset_insert set_mset_mset)
  have "mset (map entry_idx L) = mset (?i # map entry_idx L')" using L by (metis list.simps(9) mset.simps(2) mset_map)
  then have d': "distinct (?i # map entry_idx L')" using D(1) by (metis mset_eq_imp_distinct_iff)
  then have other: "?i \<notin> entry_idx ` set L'" by simp
  have nth: "shm (lib s') ! j = (if j = ?i then (shm (lib s) ! ?i)\<lparr>arg := out, completed := 1\<rparr> else shm (lib s) ! j)" for j
    using m(2) by (simp add: s' m(1) nth_list_update)
  have len: "length (shm (lib s')) = length (shm (lib s))" by (simp add: s' m(1))
  have req: "submitted s ?i = Some (arg (shm (lib s) ! ?i))" "wanted s ?i = Some (service req)" using live_requestD(4,5) [OF D(2)] set by blast+
  show ?thesis
  proof (rule entries_okI)
    fix r
    assume r: "r \<in> set L'"
    then have "entry_idx r \<noteq> ?i" using other by (metis image_eqI)
    then show "live_request s' r" using D(2) r set by (simp add: live_request_def nth len s'(2,3))
  next
    fix i a
    assume i: "submitted s' i = Some a" "i \<notin> entry_idx ` set L'"
    show "answered io s' i a"
    proof (cases "i = ?i")
      case True
      then show ?thesis
        using i(1) req result_of_more [OF m(3), of "os_steps s'"] by (simp add: answered_def nth s'(2-4))
    next
      case False
      then have a: "answered io s i a" using D(5) i set by (simp add: s'(2))
      have "set (os_steps s) \<subseteq> set (os_steps s')" by (auto simp: s'(4))
      then show ?thesis using a False result_of_more by (fastforce simp: answered_def nth s'(3))
    qed
  qed (use d' D(3,4) in \<open>auto simp: nth len s'(2)\<close>)
qed

lemma entries_ok_claim:
  assumes ok: "entries_ok io s L" and i: "entry_idx req < length (shm (lib s))" "used (shm (lib s) ! entry_idx req) = 0"
    and id: "request_id req \<noteq> -1"
    and s': "shm (lib s') = shm (claim a (entry_idx req) (lib s))" "submitted s' = (submitted s)(entry_idx req \<mapsto> a)"
      "wanted s' = (wanted s)(entry_idx req \<mapsto> service req)" "os_steps s' = os_steps s"
  shows "entries_ok io s' (req # L)"
proof -
  let ?i = "entry_idx req"
  note D = entries_okD [OF ok]
  have fresh: "submitted s ?i = None" using D(3) i by auto
  then have other: "?i \<notin> entry_idx ` set L" using live_requestD(4) [OF D(2)] by force
  have m: "shm (lib s') ! j = (if j = ?i then \<lparr>used = 1, completed = 0, arg = a\<rparr> else shm (lib s) ! j)" for j
    using i(1) by (simp add: s' claim_def nth_list_update)
  have len: "length (shm (lib s')) = length (shm (lib s))" by (simp add: s' claim_def)
  show ?thesis
  proof (rule entries_okI)
    fix r
    assume r: "r \<in> set (req # L)"
    show "live_request s' r"
    proof (cases "r = req")
      case True
      then show ?thesis using i id by (simp add: live_request_def m len s'(2,3))
    next
      case False
      then have r': "r \<in> set L" using r by simp
      then have "entry_idx r \<noteq> ?i" using other by (metis image_eqI)
      moreover have "live_request s r" using D(2) r' .
      ultimately show ?thesis by (simp add: live_request_def m len s'(2,3))
    qed
  next
    fix j b
    assume j: "submitted s' j = Some b" "j \<notin> entry_idx ` set (req # L)"
    then have "answered io s j b" "j \<noteq> ?i" using D(5) [of j b] by (auto simp: s'(2))
    then show "answered io s' j b" by (simp add: answered_def m s'(3,4))
  next
    fix j
    assume "j < length (shm (lib s'))"
    then show "used (shm (lib s') ! j) \<noteq> 0 \<longleftrightarrow> j \<in> dom (submitted s')" using D(3) [of j] by (auto simp: m len s'(2))
  qed (use D(1,4) other i(1) in \<open>auto simp: len s'(2) split: if_splits\<close>)
qed

lemma entries_ok_collect:
  assumes ok: "entries_ok io s L" and i: "submitted s i = Some a" "wanted s i = Some sv" "completed (shm (lib s) ! i) = 1"
    and s': "shm (lib s') = shm (release i (lib s))" "submitted s' = (submitted s)(i := None)" "wanted s' = wanted s" "os_steps s' = os_steps s"
  shows "entries_ok io s' L \<and> result_of io (os_steps s) sv a (arg (shm (lib s) ! i))"
proof -
  note D = entries_okD [OF ok]
  have lt: "i < length (shm (lib s))" using D(4) i(1) .
  have other: "i \<notin> entry_idx ` set L" using live_requestD(3) [OF D(2)] i(3) by force
  have m: "shm (lib s') ! j = (if j = i then (shm (lib s) ! i)\<lparr>used := 0, completed := 0\<rparr> else shm (lib s) ! j)" for j
    using lt by (simp add: s' release_def nth_list_update)
  have len: "length (shm (lib s')) = length (shm (lib s))" by (simp add: s' release_def)
  have "entries_ok io s' L"
  proof (rule entries_okI)
    fix r
    assume r: "r \<in> set L"
    then have "entry_idx r \<noteq> i" using other by force
    then show "live_request s' r" using D(2) [OF r] by (simp add: live_request_def m len s'(2,3))
  next
    fix j b
    assume "submitted s' j = Some b" "j \<notin> entry_idx ` set L"
    then have "answered io s j b" "j \<noteq> i" using D(5) [of j b] by (auto simp: s'(2) split: if_splits)
    then show "answered io s' j b" by (simp add: answered_def m s'(3,4))
  next
    fix j
    assume "j < length (shm (lib s'))"
    then show "used (shm (lib s') ! j) \<noteq> 0 \<longleftrightarrow> j \<in> dom (submitted s')" using D(3) [of j] by (auto simp: m len s'(2))
  qed (use D(1,4) in \<open>auto simp: len s'(2) split: if_splits\<close>)
  then show ?thesis using D(5) [OF i(1) other] i(2) by (simp add: answered_def)
qed

lemma searchers_ok_cong:
  assumes "searchers_ok A s" "length (shm (lib s')) = length (shm (lib s))" "asking s' = asking s" "searching s' = searching s"
  shows "searchers_ok A s'"
  using assms(1) by (simp add: searchers_ok_def assms(2-4))

lemma library_inv:
  assumes "library_step s s'" "sys_inv p io A s"
  shows "sys_inv p io A s'"
proof -
  obtain rs L where inv: "machinery_ok p io A s" "queue_holds (request_queue (lib s)) rs" "mset L = live_mset s rs" "entries_ok io s L"
    using assms(2) by (auto simp: sys_inv_def)
  note sc = searchers_ok_cong [of A s s']
  from assms(1) show ?thesis
  proof cases
    case (enqueue xs req ys mem fuel l)
    obtain q where q: "l = (lib s)\<lparr>request_queue := q\<rparr>" "queue_holds q (prio_insert req rs)"
        "dom (q_heap q) = insert mem (dom (q_heap (request_queue (lib s))))" "stop_worker q = stop_worker (request_queue (lib s))"
      using api_enqueue_ok [OF inv(2) enqueue(3,4)] by blast
    show ?thesis
      by (rule sys_inv_pass [OF _ _ inv(3,4), where rs' = "prio_insert req rs"])
         (use inv(1) q enqueue(1,2) sc in \<open>auto simp: machinery_ok_def live_mset_def mset_prio_insert api_ok_def new_shm_size_def\<close>)
  next
    case (dequeue req q)
    obtain rs' where rs': "rs = req # rs'" "queue_holds q rs'" "dom (q_heap q) \<subseteq> dom (q_heap (request_queue (lib s)))"
        "stop_worker q = stop_worker (request_queue (lib s))"
      using handler_step_ok [OF inv(2) dequeue(3)] by blast
    have "finite (dom (q_heap q))" using rs'(3) inv(1) by (auto simp: machinery_ok_def intro: finite_subset)
    then show ?thesis
      by (intro sys_inv_pass [OF _ _ inv(3,4), where rs' = rs'])
         (use inv(1) rs' dequeue(1,2) sc in \<open>auto simp: machinery_ok_def live_mset_def api_ok_def new_shm_size_def\<close>)
  next
    case (send req q)
    then have q: "q = mq_insert (unat (priority req)) req (client_send_q (lib s))" "length (client_send_q (lib s)) < mq_maxmsg"
      by (auto simp: mq_send_def split: if_splits)
    show ?thesis
      by (rule sys_inv_pass [OF _ _ inv(3,4), where rs' = rs])
         (use inv(1,2) send(1,2) q sc in \<open>auto simp: machinery_ok_def live_mset_def api_ok_def new_shm_size_def\<close>)
  qed
qed

lemma worker_inv:
  assumes "worker_step io s s'" "sys_inv p io A s"
  shows "sys_inv p io A s'"
proof -
  obtain rs L where inv: "machinery_ok p io A s" "queue_holds (request_queue (lib s)) rs" "mset L = live_mset s rs" "entries_ok io s L"
    using assms(2) by (auto simp: sys_inv_def)
  note sc = searchers_ok_cong [of A s s']
  from assms(1) show ?thesis
  proof cases
    case (receive req q)
    then obtain pr where q: "client_send_q (lib s) = (pr, req) # q"
      by (cases "client_send_q (lib s)" rule: mq_receive.cases) auto
    show ?thesis
      by (rule sys_inv_pass [OF _ _ inv(3,4), where rs' = rs])
         (use inv(1,2) receive(1,2) q sc in \<open>auto simp: machinery_ok_def live_mset_def api_ok_def new_shm_size_def\<close>)
  next
    case (count_started xs req ys)
    show ?thesis
      by (rule sys_inv_pass [OF _ _ inv(3,4), where rs' = rs])
         (use inv(1,2) count_started sc in \<open>auto simp: machinery_ok_def live_mset_def\<close>)
  next
    case (finish xs req ys m st)
    have "req \<in># mset L" unfolding inv(3) by (simp add: live_mset_def finish(2))
    then have L': "mset L = add_mset req (mset (remove1 req L))" by simp
    have len: "length m = length (shm (lib s))" using handle_request_result [OF finish(3)] by auto
    have "mset (remove1 req L) = live_mset s' rs" using inv(3) unfolding L' by (simp add: live_mset_def finish(1,2))
    moreover have "entries_ok io s' (remove1 req L)" by (rule entries_ok_finish [OF inv(4) L' finish(3)]) (simp_all add: finish(1))
    moreover have "machinery_ok p io A s'"
    proof -
      have "\<forall>(sv, a, out) \<in> set (results s). result_of io (os_steps s) sv a out" using inv(1) by (simp add: machinery_ok_def)
      moreover have "set (os_steps s) \<subseteq> set (os_steps s')" "results s' = results s" by (auto simp: finish(1))
      ultimately have "\<forall>(sv, a, out) \<in> set (results s'). result_of io (os_steps s') sv a out" using result_of_more by fastforce
      then show ?thesis
        using inv(1) finish(1,2) api_ok_cong [of "lib s" "lib s'"] len sc by (auto simp: machinery_ok_def new_shm_size_def)
    qed
    moreover have "queue_holds (request_queue (lib s')) rs" using inv(2) by (simp add: finish(1))
    ultimately show ?thesis unfolding sys_inv_def by blast
  next
    case (count_completed k)
    show ?thesis
      by (rule sys_inv_pass [OF _ _ inv(3,4), where rs' = rs])
         (use inv(1,2) count_completed sc in \<open>auto simp: machinery_ok_def live_mset_def\<close>)
  qed
qed

lemma internal_inv: "internal io s s' \<Longrightarrow> sys_inv p io A s \<Longrightarrow> sys_inv p io A s'"
  by (auto elim!: internal.cases intro: library_inv worker_inv)

lemma external_inv:
  assumes "external p A s s'" "sys_inv p io A s"
  shows "sys_inv p io A s'"
proof -
  obtain rs L where inv: "machinery_ok p io A s" "queue_holds (request_queue (lib s)) rs" "mset L = live_mset s rs" "entries_ok io s L"
    using assms(2) by (auto simp: sys_inv_def)
  have ok: "api_ok (lib s)" "new_shm_size p (lib s) > size_t (TINYFILE_SHM_MAX_SIZE p)" using inv(1) by (simp_all add: machinery_ok_def)
  have search: "call_ok A c \<and> n = length (shm (lib s)) \<and> idx < n" if "searching s = Some (c, n, idx)" for c n idx
    using that inv(1) by (simp add: machinery_ok_def searchers_ok_def)
  from assms(1) show ?thesis
  proof cases
    case (number a prio sv)
    have "searchers_ok A s'" using inv(1) number by (auto simp: machinery_ok_def searchers_ok_def call_ok_def)
    then show ?thesis
      by (intro sys_inv_pass [OF _ _ inv(3,4), where rs' = rs])
         (use inv(1,2) number(1) in \<open>auto simp: machinery_ok_def live_mset_def api_ok_def new_shm_size_def\<close>)
  next
    case (lock xs c ys)
    have "searchers_ok A s'" using inv(1) lock entries_in_ok [OF ok(1)] ok(1) by (auto simp: machinery_ok_def searchers_ok_def api_ok_def)
    then show ?thesis
      by (intro sys_inv_pass [OF _ _ inv(3,4), where rs' = rs])
         (use inv(1,2) lock(1) in \<open>auto simp: machinery_ok_def live_mset_def\<close>)
  next
    case (look c n idx env idx' l)
    note n = search [OF look(2)]
    have l: "idx' = Suc idx mod n" "l = lib s"
      using look(3) look_entry_fixed [OF ok, of idx env "call_arg c"] n by (auto split: if_splits)
    have "idx' < n" unfolding l(1) using n by (intro mod_less_divisor) linarith
    then have "searchers_ok A s'" using inv(1) look(1) n l(2) by (auto simp: machinery_ok_def searchers_ok_def)
    then show ?thesis
      by (intro sys_inv_pass [OF _ _ inv(3,4), where rs' = rs])
         (use inv(1,2) look(1) l(2) in \<open>auto simp: machinery_ok_def live_mset_def\<close>)
  next
    case (claims c n idx env i l)
    note n = search [OF claims(2)]
    have l: "i = idx" "used (shm (lib s) ! idx) = 0" "l = claim (call_arg c) idx (lib s)"
      using claims(3) look_entry_fixed [OF ok, of idx env "call_arg c"] n by (auto split: if_splits)
    define req where "req = \<lparr>service = call_service c, priority = call_priority c, request_id = call_id c, entry_idx = i, req_pid = getpid l\<rparr>"
    have s': "shm (lib s') = shm (claim (call_arg c) (entry_idx req) (lib s))" "submitted s' = (submitted s)(entry_idx req \<mapsto> call_arg c)"
        "wanted s' = (wanted s)(entry_idx req \<mapsto> service req)" "os_steps s' = os_steps s"
        "lib s' = l" "prepared s' = req # prepared s" "searching s' = None"
      by (simp_all add: claims(1) claimed_def req_def l)
    have "entries_ok io s' (req # L)"
      by (rule entries_ok_claim [OF inv(4) _ _ _ s'(1-4)]) (use n l in \<open>simp_all add: req_def call_ok_def\<close>)
    moreover have "mset (req # L) = live_mset s' rs" using inv(3) s'(6) by (simp add: live_mset_def claims(1) claimed_def l claim_def)
    moreover have "queue_holds (request_queue (lib s')) rs" using inv(2) by (simp add: s'(5) l claim_def)
    moreover have "machinery_ok p io A s'"
    proof -
      have "ran (submitted s') \<subseteq> A" using inv(1) n by (auto simp: machinery_ok_def ran_def s'(2) call_ok_def split: if_splits)
      moreover have "searchers_ok A s'" using inv(1) s'(7) by (simp add: machinery_ok_def searchers_ok_def claims(1) claimed_def)
      moreover have "api_ok (lib s')" by (rule api_ok_cong [OF ok(1)]) (simp_all add: s'(5) l claim_def)
      ultimately show ?thesis
        using inv(1) unfolding machinery_ok_def by (auto simp: claims(1) claimed_def l claim_def new_shm_size_def)
    qed
    ultimately show ?thesis unfolding sys_inv_def by blast
  next
    case (collect i a sv out l)
    have "i < length (shm (lib s))" using entries_okD(4) [OF inv(4) collect(2)] .
    then have "pollable i (lib s)" using ok(1) by (simp add: pollable_def entries_in_ok) (simp add: api_ok_def)
    then have c: "completed (shm (lib s) ! i) = 1" "out = arg (shm (lib s) ! i)" "l = release i (lib s)"
      using collect(4) is_request_done_eq by (auto split: if_splits)
    have e: "entries_ok io s' L \<and> result_of io (os_steps s) sv a out"
      unfolding c(2) by (rule entries_ok_collect [OF inv(4) collect(2,3) c(1)]) (simp_all add: collect(1) c(3))
    moreover have "mset L = live_mset s' rs" using inv(3) by (simp add: live_mset_def collect(1) c(3) release_def)
    moreover have "queue_holds (request_queue (lib s')) rs" using inv(2) by (simp add: collect(1) c(3) release_def)
    moreover have "machinery_ok p io A s'"
    proof -
      have "ran (submitted s') \<subseteq> A" using inv(1) by (auto simp: machinery_ok_def collect(1) ran_def split: if_splits)
      moreover have "searchers_ok A s'" using inv(1) searchers_ok_cong [of A s s'] by (simp add: machinery_ok_def collect(1) c(3) release_def)
      ultimately show ?thesis
        using inv(1) e api_ok_cong [of "lib s" "lib s'"] by (auto simp: machinery_ok_def collect(1) c(3) release_def new_shm_size_def)
    qed
    ultimately show ?thesis unfolding sys_inv_def by blast
  qed
qed

lemma initial_inv: "initial p s \<Longrightarrow> sys_inv p io A s"
proof -
  assume i: "initial p s"
  have "entries_ok io s []"
  proof (rule entries_okI)
    fix j
    assume "j < length (shm (lib s))"
    then have "shm (lib s) ! j \<in> set (shm (lib s))" by simp
    then show "used (shm (lib s) ! j) \<noteq> 0 \<longleftrightarrow> j \<in> dom (submitted s)" using i by (simp add: initial_def)
  qed (use i in \<open>simp_all add: initial_def\<close>)
  moreover have "queue_holds (request_queue (lib s)) []" "live_mset s [] = {#}" "machinery_ok p io A s"
    using i by (simp_all add: initial_def no_worker_busy_def queue_holds_Nil live_mset_def machinery_ok_def searchers_ok_def)
  ultimately show ?thesis unfolding sys_inv_def by (metis mset.simps(1))
qed

text \<open>Nothing is said about the present state of the files.\<close>

lemma sys_inv_os [simp]: "sys_inv p io A (s\<lparr>srv_os := st\<rparr>) = sys_inv p io A s"
  by (simp add: sys_inv_def machinery_ok_def live_mset_def entries_ok_def live_request_def answered_def searchers_ok_def)

lemma registration_inv: "sys_inv p io A s \<Longrightarrow> no_worker_busy s \<Longrightarrow> sys_inv p io A (s\<lparr>srv := init_worker_threads c\<rparr>)"
  by (auto simp: sys_inv_def machinery_ok_def live_mset_def entries_ok_def live_request_def answered_def searchers_ok_def
      no_worker_busy_def init_worker_threads_def)

lemma reachable_inv: "reachable p io A s \<Longrightarrow> sys_inv p io A s"
  by (induction rule: reachable.induct) (auto intro: initial_inv internal_inv external_inv registration_inv)

section \<open>Safety\<close>

text \<open>All requests on their way, from the thread that prepared it to the server worker that serves it.\<close>

definition live :: "sys \<Rightarrow> tinyfile_request list \<Rightarrow> tinyfile_request list" where
  "live s rs = prepared s @ rs @ (case in_hand s of None \<Rightarrow> [] | Some r \<Rightarrow> [r]) @ map snd (client_send_q (lib s)) @ received s @ serving s"

lemma mset_live: "mset (live s rs) = live_mset s rs"
  by (simp add: live_def live_mset_def split: option.splits)

lemma entries_ok_mset: "entries_ok io s L \<Longrightarrow> mset L = mset L' \<Longrightarrow> entries_ok io s L'"
proof -
  assume "entries_ok io s L" "mset L = mset L'"
  moreover from this have "distinct (map entry_idx L')" "set L' = set L"
    by (metis entries_okD(1) mset_eq_imp_distinct_iff mset_map, metis mset_eq_setD)
  ultimately show "entries_ok io s L'" by (simp add: entries_ok_def)
qed

lemma reachable_live:
  assumes "reachable p io A s"
  obtains rs where "queue_holds (request_queue (lib s)) rs" "entries_ok io s (live s rs)" "machinery_ok p io A s"
proof -
  obtain rs L where "machinery_ok p io A s" "queue_holds (request_queue (lib s)) rs" "mset L = live_mset s rs" "entries_ok io s L"
    using reachable_inv [OF assms] by (auto simp: sys_inv_def)
  then show thesis using that entries_ok_mset [of io s L "live s rs"] by (simp add: mset_live)
qed

text \<open>
  C2. In every reachable state of one client and the server, whatever the interleaving of client threads, request worker and server workers:
  the request queue is well formed, no two requests on their way share an entry of the shared memory, each of them points at an
  entry inside the memory that is in use, not done and still holds the argument its caller passed, and every unfinished call is either on
  its way or done. In particular no poll and no server worker ever touches memory outside the mapping. The memory has a fixed size.
\<close>

theorem requests_own_their_entries:
  assumes "reachable p io A s"
  shows "\<exists>rs. queue_holds (request_queue (lib s)) rs \<and> distinct (map entry_idx (live s rs))
    \<and> (\<forall>r \<in> set (live s rs). entry_idx r < length (shm (lib s)) \<and> used (shm (lib s) ! entry_idx r) \<noteq> 0
         \<and> completed (shm (lib s) ! entry_idx r) = 0 \<and> submitted s (entry_idx r) = Some (arg (shm (lib s) ! entry_idx r)))
    \<and> (\<forall>i \<in> dom (submitted s). (i \<in> entry_idx ` set (live s rs) \<or> completed (shm (lib s) ! i) = 1)
         \<and> (\<exists>r. is_request_done i (lib s) = Inr r))"
proof -
  obtain rs where inv: "queue_holds (request_queue (lib s)) rs" "entries_ok io s (live s rs)" "machinery_ok p io A s"
    using reachable_live [OF assms] .
  note D = entries_okD [OF inv(2)]
  have ok: "api_ok (lib s)" using inv(3) by (simp add: machinery_ok_def)
  have "\<forall>r \<in> set (live s rs). entry_idx r < length (shm (lib s)) \<and> used (shm (lib s) ! entry_idx r) \<noteq> 0
         \<and> completed (shm (lib s) ! entry_idx r) = 0 \<and> submitted s (entry_idx r) = Some (arg (shm (lib s) ! entry_idx r))"
    using live_requestD [OF D(2)] D(3) by auto
  moreover have "(i \<in> entry_idx ` set (live s rs) \<or> completed (shm (lib s) ! i) = 1) \<and> (\<exists>r. is_request_done i (lib s) = Inr r)"
    if i: "i \<in> dom (submitted s)" for i
  proof -
    obtain a where a: "submitted s i = Some a" using i by auto
    then have "pollable i (lib s)" using D(4) ok by (auto simp: pollable_def entries_in_ok api_ok_def)
    then show ?thesis using D(5) [OF a] is_request_done_eq by (auto simp: answered_def)
  qed
  ultimately show ?thesis using inv(1) D(1) by blast
qed

text \<open>
  C6. In every reachable state, each call that has returned got the result of its own request: a call for \<^verbatim>\<open>TINYFILE_COMPRESS\<close> has what
  \<^verbatim>\<open>compress_service\<close> made of the argument it had passed, in one of the server's passes over the files, which changed them as that call
  does (and reported an error if it returned one); a call for another service has the argument it had passed.
\<close>

theorem results_belong_to_requests:
  assumes "reachable p io A s" "(sv, a, out) \<in> set (results s)"
  shows "if sv = TINYFILE_COMPRESS
    then \<exists>st err st' pid. compress_service io a st = Inr (err, out, st')
       \<and> (st, if err \<noteq> 0 then st'\<lparr>stderr := stderr st' @ [File_error pid]\<rparr> else st') \<in> set (os_steps s)
    else out = a"
proof -
  have "machinery_ok p io A s" using reachable_inv [OF assms(1)] by (simp add: sys_inv_def)
  then have "result_of io (os_steps s) sv a out" using assms(2) by (auto simp: machinery_ok_def)
  then show ?thesis unfolding result_of_def .
qed

text \<open>
  C20. What the two counters say, on which the wait in \<^verbatim>\<open>unregister_client\<close> relies: in every reachable state they are equal exactly when no server
  worker is between the two increments, although they wrap. (A worker that has received a request and not counted it yet is not seen:
  \<open>unregister_races_with_worker\<close>.) A client's queue never holds more than ten messages and at most ten workers have a request of the client.
\<close>

theorem request_counters_correct:
  assumes "reachable p io A s"
  shows "(num_requests_started (srv s) = num_requests_completed (srv s) \<longleftrightarrow> serving s = [] \<and> handled s = 0)
    \<and> length (client_send_q (lib s)) \<le> mq_maxmsg \<and> length (received s) + length (serving s) + handled s \<le> THREADS_PER_CLIENT"
proof -
  let ?n = "length (serving s) + handled s"
  have m: "machinery_ok p io A s" using reachable_inv [OF assms] by (simp add: sys_inv_def)
  then have "?n < 2 ^ 32" by (auto simp: machinery_ok_def THREADS_PER_CLIENT_def)
  then have "unat (word_of_nat ?n :: u32) = ?n" by (rule unat_u32)
  then have "(word_of_nat ?n :: u32) = 0 \<longleftrightarrow> ?n = 0" using unat_eq_zero [of "word_of_nat ?n :: u32"] by argo
  moreover have "num_requests_started (srv s) = num_requests_completed (srv s) + word_of_nat ?n"
    using m by (simp add: machinery_ok_def)
  moreover have "length (client_send_q (lib s)) \<le> mq_maxmsg \<and> length (received s) + length (serving s) + handled s \<le> THREADS_PER_CLIENT"
    using m by (simp add: machinery_ok_def)
  ultimately show ?thesis by (simp del: of_nat_add)
qed

section \<open>A run\<close>

text \<open>A memory of one entry and one request for the compression of a file, from its submission to its result.\<close>

definition one_entry :: params where "one_entry = tinyfile_set_shm_size 352 default_params"

definition example_req :: tinyfile_request where
  "example_req = \<lparr>service = TINYFILE_COMPRESS, priority = 1, request_id = 0, entry_idx = 0, req_pid = 7\<rparr>"

definition example_sys :: "api \<Rightarrow> sys" where
  "example_sys l = \<lparr>lib = l, asking = [], searching = None, prepared = [], in_hand = None, received = [], serving = [], handled = 0,
     srv = example_client_record, srv_os = example_os ''a'' [65], submitted = Map.empty, wanted = Map.empty, results = [], os_steps = []\<rparr>"

definition one_call :: "api \<Rightarrow> sys" where
  "one_call l = (example_sys l)\<lparr>submitted := [0 \<mapsto> example_arg], wanted := [0 \<mapsto> TINYFILE_COMPRESS]\<rparr>"

definition claimed_api :: api where
  "claimed_api = (example_api [\<lparr>used = 1, completed = 0, arg = example_arg\<rparr>])\<lparr>global_request_id := 1\<rparr>"

abbreviation "empty_q \<equiv> \<lparr>q_heap = Map.empty, queue = None, stop_worker = False\<rparr>"
abbreviation "one_q \<equiv> \<lparr>q_heap = [0 \<mapsto> \<lparr>request = example_req, q_next = None\<rparr>], queue = Some 0, stop_worker = False\<rparr>"

lemmas example_defs = example_sys_def one_call_def claimed_api_def example_api_def example_req_def zero_entry_def free_entry_def

lemma one_entry_fixed: "shm_size l = 352 \<Longrightarrow> new_shm_size one_entry l > size_t (TINYFILE_SHM_MAX_SIZE one_entry)"
  by (simp add: new_shm_size_def one_entry_def tinyfile_set_shm_size_def sizeof_shared_entry_def size_t_def)

lemma run_start: "reachable one_entry io A (example_sys (example_api [zero_entry]))"
proof (rule reachable.start)
  have "api_ok (example_api [zero_entry])" by (simp add: api_ok_def example_api_def)
  then show "initial one_entry (example_sys (example_api [zero_entry]))"
    using one_entry_fixed [of "example_api [zero_entry]"]
    by (simp add: initial_def no_worker_busy_def example_client_record_def example_defs)
qed

lemma run_submit: "reachable one_entry io {example_arg} ((one_call claimed_api)\<lparr>prepared := [example_req]\<rparr>)"
proof -
  let ?s = "example_sys (example_api [zero_entry])"
  have "resize_shm one_entry failing_env l = Inr (0, l)" if "shm_size l = 352" for l
    using one_entry_fixed [OF that] by (simp add: resize_shm_def)
  then have "prepare_request (Suc 0) one_entry failing_env example_arg TINYFILE_COMPRESS 1 (lib ?s) = Inr (0, Some example_req, claimed_api)"
    by (simp add: prepare_request_def Let_def find_shared_entry_def entries_in_nat entry_at_def example_defs)
  from prepare_request_steps [OF this, of "{example_arg}"]
  have "(external one_entry {example_arg})\<^sup>*\<^sup>* ?s ((one_call claimed_api)\<lparr>prepared := [example_req]\<rparr>)"
    by (simp add: example_defs)
  then show ?thesis by (rule reachable_externals [OF _ run_start])
qed

lemma run_enqueue: "reachable one_entry io {example_arg} (one_call (claimed_api\<lparr>request_queue := one_q\<rparr>))"
proof (rule reachable.internal [OF run_submit internal.library])
  have "api_enqueue (Suc 0) (Some 0) example_req claimed_api = Inr (claimed_api\<lparr>request_queue := one_q\<rparr>)"
    by (simp add: api_enqueue_def request_q_enqueue_def Let_def claimed_api_def example_api_def)
  then show "library_step ((one_call claimed_api)\<lparr>prepared := [example_req]\<rparr>) (one_call (claimed_api\<lparr>request_queue := one_q\<rparr>))"
    using library_step.enqueue [of "(one_call claimed_api)\<lparr>prepared := [example_req]\<rparr>" "[]" example_req "[]" 0]
    by (simp add: example_sys_def one_call_def claimed_api_def example_api_def)
qed

lemma run_send: "reachable one_entry io {example_arg} (one_call (claimed_api\<lparr>client_send_q := [(1, example_req)]\<rparr>))"
proof (rule reachable.internal [OF reachable.internal [OF run_enqueue internal.library] internal.library])
  let ?s = "one_call (claimed_api\<lparr>request_queue := one_q\<rparr>)" and ?t = "(one_call claimed_api)\<lparr>in_hand := Some example_req\<rparr>"
  have "request_q_handler_step (request_queue (lib ?s)) = Inr (Some (Some example_req), empty_q)"
    by (simp add: request_q_handler_step_def request_q_dequeue_def deref_def one_call_def example_sys_def)
  from library_step.dequeue [OF _ this] show "library_step ?s ?t" by (simp add: example_defs)
  have "mq_send (unat (priority example_req)) example_req (client_send_q (lib ?t)) = Some [(1, example_req)]"
    by (simp add: mq_send_def mq_insert_def mq_maxmsg_def example_defs)
  from library_step.send [OF _ this] show "library_step ?t (one_call (claimed_api\<lparr>client_send_q := [(1, example_req)]\<rparr>))"
    by (simp add: example_defs)
qed

lemma run_receive: "reachable one_entry io {example_arg} ((one_call claimed_api)\<lparr>received := [example_req]\<rparr>)"
proof (rule reachable.internal [OF run_send internal.worker])
  let ?s = "one_call (claimed_api\<lparr>client_send_q := [(1, example_req)]\<rparr>)"
  have "mq_receive (client_send_q (lib ?s)) = Some (example_req, [])" by (simp add: one_call_def example_sys_def)
  from worker_step.receive [OF _ this, of io] show "worker_step io ?s ((one_call claimed_api)\<lparr>received := [example_req]\<rparr>)"
    by (simp add: example_defs THREADS_PER_CLIENT_def)
qed

definition compressed_arg :: tinyfile_arg where
  "compressed_arg = example_arg\<lparr>compressed_file_path := compressed_path (source_file_path example_arg)\<rparr>"

lemma run_finish:
  obtains st c where "reachable one_entry example_io {example_arg} ((one_call (claimed_api\<lparr>shm := [\<lparr>used = 1, completed = 1, arg = compressed_arg\<rparr>]\<rparr>))
    \<lparr>handled := 1, srv := c, srv_os := st, os_steps := [(example_os ''a'' [65], st)]\<rparr>)"
proof -
  obtain st where c: "compress_service example_io example_arg (example_os ''a'' [65]) = Inr (0, compressed_arg, st)"
    using compress_service_truncates [OF example_io_ok, of "example_os ''a'' [65]" example_arg "[65]"] stream_has_nul [of "[65]"]
    by (auto simp: compressed_arg_def)
  let ?c = "example_client_record\<lparr>num_requests_started := num_requests_started example_client_record + 1\<rparr>"
  let ?s = "(one_call claimed_api)\<lparr>received := [example_req]\<rparr>" and ?t = "(one_call claimed_api)\<lparr>serving := [example_req], srv := ?c\<rparr>"
  have "worker_step example_io ?s ?t"
    using worker_step.count_started [of ?s "[]" example_req "[]" example_io] by (simp add: one_call_def example_sys_def)
  then have t: "reachable one_entry example_io {example_arg} ?t" by (rule reachable.internal [OF run_receive internal.worker])
  have "handle_request example_io example_req (shm (lib ?t)) (srv_os ?t) = Inr ([\<lparr>used = 1, completed = 1, arg = compressed_arg\<rparr>], st)"
    using c by (simp add: handle_request_def Let_def example_defs)
  from worker_step.finish [OF _ this, of "[]" "[]"]
  have "worker_step example_io ?t ((one_call (claimed_api\<lparr>shm := [\<lparr>used = 1, completed = 1, arg = compressed_arg\<rparr>]\<rparr>))
    \<lparr>handled := 1, srv := ?c, srv_os := st, os_steps := [(example_os ''a'' [65], st)]\<rparr>)"
    by (simp add: one_call_def example_sys_def)
  from reachable.internal [OF t internal.worker [OF this]] show thesis by (rule that)
qed

lemma run_collect:
  obtains s where "reachable one_entry example_io {example_arg} s" "results s = [(TINYFILE_COMPRESS, example_arg, compressed_arg)]"
proof -
  obtain st c where r: "reachable one_entry example_io {example_arg} ((one_call (claimed_api\<lparr>shm := [\<lparr>used = 1, completed = 1, arg = compressed_arg\<rparr>]\<rparr>))
    \<lparr>handled := 1, srv := c, srv_os := st, os_steps := [(example_os ''a'' [65], st)]\<rparr>)"
    (is "reachable _ _ _ ?s") by (rule run_finish)
  have "\<exists>l. is_request_done 0 (lib ?s) = Inr (Some compressed_arg, l)"
    by (simp add: is_request_done_def locate_entry_def check_entry_def entry_at_def entries_in_nat example_defs)
  then obtain l where l: "is_request_done 0 (lib ?s) = Inr (Some compressed_arg, l)" by blast
  have "external one_entry {example_arg} ?s (?s\<lparr>lib := l, submitted := (submitted ?s)(0 := None),
      results := (TINYFILE_COMPRESS, example_arg, compressed_arg) # results ?s\<rparr>)"
    by (rule external.collect [OF _ _ l]) (simp_all add: one_call_def)
  from reachable.external [OF r this] show thesis by (rule that) (simp add: one_call_def example_sys_def)
qed

theorem requests_own_their_entries_witness:
  "\<exists>rs. queue_holds empty_q rs \<and> distinct (map entry_idx (live (one_call (claimed_api\<lparr>client_send_q := [(1, example_req)]\<rparr>)) rs))
    \<and> example_req \<in> set (live (one_call (claimed_api\<lparr>client_send_q := [(1, example_req)]\<rparr>)) rs)"
  using requests_own_their_entries [OF run_send [of example_io]]
  by (auto simp: one_call_def example_sys_def claimed_api_def example_api_def live_def)

theorem results_belong_to_requests_witness:
  "\<exists>s st err st' pid. results s = [(TINYFILE_COMPRESS, example_arg, compressed_arg)]
    \<and> compress_service example_io example_arg st = Inr (err, compressed_arg, st')
    \<and> (st, if err \<noteq> 0 then st'\<lparr>stderr := stderr st' @ [File_error pid]\<rparr> else st') \<in> set (os_steps (s :: sys))"
proof -
  obtain s where s: "reachable one_entry example_io {example_arg} s" "results s = [(TINYFILE_COMPRESS, example_arg, compressed_arg)]"
    by (rule run_collect)
  have "(TINYFILE_COMPRESS, example_arg, compressed_arg) \<in> set (results s)" using s(2) by simp
  from results_belong_to_requests [OF s(1) this] s(2) show ?thesis unfolding if_P [OF refl] by blast
qed

theorem request_counters_correct_witness:
  "num_requests_started (srv ((one_call claimed_api)\<lparr>received := [example_req]\<rparr>))
     = num_requests_completed (srv ((one_call claimed_api)\<lparr>received := [example_req]\<rparr>))"
  using request_counters_correct [OF run_receive [of example_io]] by (simp add: one_call_def example_sys_def)

section \<open>Systems whose runs end\<close>

text \<open>Steps that keep an invariant and decrease a measure: no run goes on for ever, and every state has a run until no step is left.\<close>

locale ending_runs =
  fixes step :: "'s \<Rightarrow> 's \<Rightarrow> bool" and ok :: "'s \<Rightarrow> bool" and left_over :: "'s \<Rightarrow> nat"
  assumes step_ok: "step s s' \<Longrightarrow> ok s \<Longrightarrow> ok s'"
    and step_less: "step s s' \<Longrightarrow> ok s \<Longrightarrow> left_over s' < left_over s"
begin

lemma run_keeps: "step\<^sup>*\<^sup>* s s' \<Longrightarrow> ok s \<Longrightarrow> ok s'"
  by (induction rule: rtranclp_induct) (auto intro: step_ok)

lemma no_infinite_run:
  assumes "ok s"
  shows "\<nexists>f. f 0 = s \<and> (\<forall>n. step (f n) (f (Suc n)))"
proof
  assume "\<exists>f. f 0 = s \<and> (\<forall>n. step (f n) (f (Suc n)))"
  then obtain f where f: "f 0 = s" "\<And>n. step (f n) (f (Suc n))" by blast
  have r: "ok (f n)" for n by (induction n) (use assms f in \<open>auto intro: step_ok\<close>)
  have "left_over (f n) + n \<le> left_over (f 0)" for n
  proof (induction n)
    case (Suc n)
    then show ?case using step_less [OF f(2) [of n] r] by simp
  qed simp
  from this [of "Suc (left_over (f 0))"] show False by simp
qed

lemma complete_run: "ok s \<Longrightarrow> \<exists>s'. step\<^sup>*\<^sup>* s s' \<and> (\<nexists>s''. step s' s'')"
proof (induction s rule: measure_induct_rule [of left_over])
  case (less s)
  show ?case
  proof (cases "\<exists>s'. step s s'")
    case True
    then obtain s' where s': "step s s'" by blast
    with less step_ok step_less obtain t where "step\<^sup>*\<^sup>* s' t" "\<nexists>s''. step t s''" by blast
    then show ?thesis using s' by (meson converse_rtranclp_into_rtranclp)
  qed auto
qed

end

section \<open>Liveness\<close>

lemma chain_unique: "chain h p xs \<Longrightarrow> chain h p ys \<Longrightarrow> xs = ys"
proof (induction h p xs arbitrary: ys rule: chain.induct)
  case (1 h p)
  then show ?case by (cases ys) auto
next
  case (2 h p a r xs)
  then obtain b r' ys' where ys: "ys = (b, r') # ys'" by (cases ys) auto
  then show ?case using 2 by auto
qed

lemma queue_holds_unique: "queue_holds q rs \<Longrightarrow> queue_holds q rs' \<Longrightarrow> rs = rs'"
  unfolding queue_holds_def using chain_unique by blast

text \<open>The steps that are left for the requests on their way.\<close>

definition work :: "sys \<Rightarrow> tinyfile_request list \<Rightarrow> nat" where
  "work s rs = 7 * length (prepared s) + 6 * length rs + (case in_hand s of None \<Rightarrow> 0 | Some r \<Rightarrow> 5)
     + 4 * length (client_send_q (lib s)) + 3 * length (received s) + 2 * length (serving s) + handled s"

definition work_left :: "sys \<Rightarrow> nat" where
  "work_left s = work s (THE rs. queue_holds (request_queue (lib s)) rs)"

lemma work_left_eq: "queue_holds (request_queue (lib s)) rs \<Longrightarrow> work_left s = work s rs"
  unfolding work_left_def using queue_holds_unique by (metis the_equality)

lemma size_prio_insert: "length (prio_insert r rs) = Suc (length rs)"
  by (metis mset_prio_insert size_add_mset size_mset)

lemma internal_work:
  assumes "internal io s s'" "sys_inv p io A s"
  shows "work_left s' < work_left s" "submitted s' = submitted s"
proof -
  obtain rs where rs: "queue_holds (request_queue (lib s)) rs" using assms(2) by (auto simp: sys_inv_def)
  have lib: "\<exists>rs'. queue_holds (request_queue (lib s')) rs' \<and> work s' rs' < work s rs" if "library_step s s'"
    using that
  proof cases
    case (enqueue xs req ys mem fuel l)
    obtain q where "l = (lib s)\<lparr>request_queue := q\<rparr>" "queue_holds q (prio_insert req rs)"
      using api_enqueue_ok [OF rs enqueue(3,4)] by blast
    then show ?thesis using enqueue(1,2) by (intro exI [of _ "prio_insert req rs"]) (simp add: work_def size_prio_insert)
  next
    case (dequeue req q)
    obtain rs' where "rs = req # rs'" "queue_holds q rs'" using handler_step_ok [OF rs dequeue(3)] by blast
    then show ?thesis using dequeue(1,2) by (intro exI [of _ rs']) (simp add: work_def)
  next
    case (send req q)
    then show ?thesis using rs by (intro exI [of _ rs]) (auto simp: work_def mq_send_def split: if_splits)
  qed
  have srv: "\<exists>rs'. queue_holds (request_queue (lib s')) rs' \<and> work s' rs' < work s rs" if "worker_step io s s'"
    using that
  proof cases
    case (receive req q)
    then obtain pr where "client_send_q (lib s) = (pr, req) # q"
      by (cases "client_send_q (lib s)" rule: mq_receive.cases) auto
    then show ?thesis using rs receive(1) by (intro exI [of _ rs]) (simp add: work_def)
  qed (use rs in \<open>auto intro!: exI [of _ rs] simp: work_def\<close>)
  show "work_left s' < work_left s" using assms(1) lib srv work_left_eq rs by (metis internal.cases)
  show "submitted s' = submitted s" using assms(1) by (auto elim!: internal.cases library_step.cases worker_step.cases)
qed

text \<open>The service returns on the arguments \<open>A\<close>, with a result or an error.\<close>

definition service_returns :: "io \<Rightarrow> tinyfile_arg set \<Rightarrow> bool" where
  "service_returns io A \<longleftrightarrow> (\<forall>a \<in> A. \<forall>st. \<exists>r. compress_service io a st = Inr r)"

lemma handle_request_returns:
  assumes "service_returns io A" "entry_idx req < length m" "arg (m ! entry_idx req) \<in> A"
  shows "\<exists>m' st'. handle_request io req m st = Inr (m', st')"
proof -
  obtain err out st' where "compress_service io (arg (m ! entry_idx req)) st = Inr (err, out, st')"
    using assms(1,3) by (fastforce simp: service_returns_def)
  then show ?thesis using assms(2) by (auto simp: handle_request_def Let_def)
qed

text \<open>As long as a request is on its way, the machinery can move.\<close>

lemma machinery_moves:
  assumes inv: "machinery_ok p io A s" "queue_holds (request_queue (lib s)) rs" "entries_ok io s (live s rs)"
    and io: "service_returns io A" and ne: "live s rs \<noteq> []"
  shows "\<exists>s'. internal io s s'"
proof -
  note D = entries_okD [OF inv(3)]
  consider req ys where "prepared s = req # ys" | req ys where "serving s = req # ys" | req ys where "received s = req # ys"
    | k where "handled s = Suc k" | pr req q where "client_send_q (lib s) = (pr, req) # q" "received s = []" "serving s = []" "handled s = 0"
    | req where "in_hand s = Some req" "client_send_q (lib s) = []"
    | req rs' where "rs = req # rs'" "in_hand s = None"
    using ne by (cases "prepared s"; cases "serving s"; cases "received s"; cases "handled s"; cases "client_send_q (lib s)"; cases "in_hand s"; cases rs)
       (auto simp: live_def)
  then show ?thesis
  proof cases
    case 1
    obtain mem where mem: "q_heap (request_queue (lib s)) mem = None"
      using inv(1) lowest_free_fresh [of "q_heap (request_queue (lib s))"] by (auto simp: machinery_ok_def)
    obtain q where "request_q_enqueue (Suc (length rs)) (Some mem) (request_queue (lib s)) req = Inr q"
      using request_q_enqueue_ok [OF inv(2) _ mem, of "Suc (length rs)" req] by auto
    then have "api_enqueue (Suc (length rs)) (Some mem) req (lib s) = Inr ((lib s)\<lparr>request_queue := q\<rparr>)"
      by (simp add: api_enqueue_def)
    then show ?thesis using library_step.enqueue [of s "[]" req ys mem] 1 mem internal.library by fastforce
  next
    case 2
    then have "req \<in> set (live s rs)" by (simp add: live_def)
    note l = live_requestD [OF D(2) [OF this]]
    have "arg (shm (lib s) ! entry_idx req) \<in> A" using l(4) inv(1) by (auto simp: machinery_ok_def ran_def)
    then obtain m st where "handle_request io req (shm (lib s)) (srv_os s) = Inr (m, st)"
      using handle_request_returns [OF io l(2)] by blast
    then show ?thesis using worker_step.finish [of s "[]" req ys] 2 internal.worker by fastforce
  next
    case 3
    then show ?thesis using worker_step.count_started [of s "[]" req ys io] internal.worker by fastforce
  next
    case 4
    then show ?thesis using worker_step.count_completed [of s k io] internal.worker by blast
  next
    case 5
    then have "req \<in> set (live s rs)" by (simp add: live_def)
    then have "request_id req \<noteq> -1" using live_requestD(1) [OF D(2)] by blast
    then show ?thesis using worker_step.receive [of s req q io] 5 internal.worker by (fastforce simp: THREADS_PER_CLIENT_def)
  next
    case 6
    then show ?thesis using library_step.send [of s req] internal.library by (fastforce simp: mq_send_def mq_maxmsg_def)
  next
    case 7
    obtain q where "request_q_dequeue (request_queue (lib s)) = Inr (Some req, q)"
      using request_q_dequeue_ok [OF inv(2)] 7(1) by auto
    then have "request_q_handler_step (request_queue (lib s)) = Inr (Some (Some req), q)"
      using inv(1) by (simp add: request_q_handler_step_def machinery_ok_def)
    then show ?thesis using library_step.dequeue [of s req q] 7(2) internal.library by blast
  qed
qed

interpretation machinery: ending_runs "internal io" "reachable p io A" work_left for p io A
  by unfold_locales (auto intro: reachable.internal internal_work(1) reachable_inv)

lemma internal_runs_submitted:
  assumes "(internal io)\<^sup>*\<^sup>* s s'" "reachable p io A s"
  shows "submitted s' = submitted s"
  using assms
  by (induction rule: rtranclp_induct) (auto dest: internal_work(2) [OF _ reachable_inv [OF machinery.run_keeps]])

text \<open>When the machinery cannot move, every unfinished call is done.\<close>

lemma stuck_calls_done:
  assumes "reachable p io A s" "service_returns io A" "\<nexists>s'. internal io s s'" "i \<in> dom (submitted s)"
  shows "\<exists>out l. is_request_done i (lib s) = Inr (Some out, l)"
proof -
  obtain rs where inv: "queue_holds (request_queue (lib s)) rs" "entries_ok io s (live s rs)" "machinery_ok p io A s"
    using reachable_live [OF assms(1)] .
  have none: "live s rs = []" using machinery_moves [OF inv(3,1,2) assms(2)] assms(3) by blast
  note D = entries_okD [OF inv(2)]
  obtain a where a: "submitted s i = Some a" using assms(4) by auto
  have "pollable i (lib s)" using D(4) [OF a] inv(3) by (auto simp: machinery_ok_def pollable_def entries_in_ok api_ok_def)
  moreover have "completed (shm (lib s) ! i) = 1" using D(5) [OF a] none by (simp add: answered_def)
  ultimately show ?thesis by (simp add: is_request_done_eq)
qed

text \<open>
  C3. Every call that has an entry completes: in every reachable state, if the service returns on the arguments that were submitted, the machinery cannot run for ever
  without new requests, and however its steps are scheduled, when none is left to do every such call is done: the next poll of its caller returns a
  result. (A call may wait for an entry for ever: \<open>full_memory_hangs\<close>. The memory has a fixed size.)
\<close>

theorem every_call_completes:
  assumes "reachable p io A s" "service_returns io A"
  shows "(\<nexists>f. f 0 = s \<and> (\<forall>n. internal io (f n) (f (Suc n))))
    \<and> (\<forall>s'. (internal io)\<^sup>*\<^sup>* s s' \<and> (\<nexists>s''. internal io s' s'') \<longrightarrow>
         submitted s' = submitted s \<and> (\<forall>i \<in> dom (submitted s). \<exists>out l. is_request_done i (lib s') = Inr (Some out, l)))"
proof (intro conjI allI impI)
  show "\<nexists>f. f 0 = s \<and> (\<forall>n. internal io (f n) (f (Suc n)))" by (rule machinery.no_infinite_run [OF assms(1)])
next
  fix s'
  assume s': "(internal io)\<^sup>*\<^sup>* s s' \<and> (\<nexists>s''. internal io s' s'')"
  then have r: "reachable p io A s'" "submitted s' = submitted s"
    using machinery.run_keeps [OF _ assms(1)] internal_runs_submitted [OF _ assms(1)] by blast+
  then show "submitted s' = submitted s" by simp
  show "\<forall>i \<in> dom (submitted s). \<exists>out l. is_request_done i (lib s') = Inr (Some out, l)"
    using stuck_calls_done [OF r(1) assms(2)] s' r(2) by metis
qed

text \<open>A C library on which the service always returns: \<^verbatim>\<open>fseek\<close> fails.\<close>

lemma failing_seek_returns: "service_returns (io\<lparr>seek_end_ok := False\<rparr>) A"
  by (auto simp: service_returns_def compress_service_def read_source_def Let_def split: option.splits)

theorem every_call_completes_witness:
  "\<exists>s'. (internal (example_io\<lparr>seek_end_ok := False\<rparr>))\<^sup>*\<^sup>* ((one_call claimed_api)\<lparr>prepared := [example_req]\<rparr>) s'
    \<and> (\<exists>out l. is_request_done 0 (lib s') = Inr (Some out, l))"
proof -
  note c = every_call_completes [OF run_submit failing_seek_returns, of example_io]
  obtain s' where "(internal (example_io\<lparr>seek_end_ok := False\<rparr>))\<^sup>*\<^sup>* ((one_call claimed_api)\<lparr>prepared := [example_req]\<rparr>) s'"
    "\<nexists>s''. internal (example_io\<lparr>seek_end_ok := False\<rparr>) s' s''"
    using machinery.complete_run [OF run_submit] by blast
  then show ?thesis using c by (auto simp: one_call_def example_sys_def)
qed

end
