(* ===== verification/Client_Session.thy ===== *)
theory Client_Session
  imports Client_API
begin

text \<open>
  Starting and ending the client library (\<^verbatim>\<open>api.c\<close>): the names of the queues and of the shared memory, \<^verbatim>\<open>create_queues\<close>,
  \<^verbatim>\<open>create_shm\<close>, their counterparts, \<^verbatim>\<open>tinyfile_init\<close> and \<^verbatim>\<open>tinyfile_exit\<close>. The objects of the operating system that outlive a process
  are the queues and the shared memory objects by name, and the messages in the registry queue.
\<close>

section \<open>Names\<close>

definition digit :: "nat \<Rightarrow> char" where "digit d = char_of (48 + d)"

text \<open>The decimal digits of a number, as printed by \<^verbatim>\<open>%ld\<close>.\<close>

fun show_nat :: "nat \<Rightarrow> string" where
  "show_nat n = (if n < 10 then [digit n] else show_nat (n div 10) @ [digit (n mod 10)])"

declare show_nat.simps [simp del]

definition show_pid :: "int \<Rightarrow> string" where
  "show_pid pid = (if pid < 0 then CHR ''-'' # show_nat (nat (- pid)) else show_nat (nat pid))"

definition TINYFILE_REGISTRY_QUEUE :: string where "TINYFILE_REGISTRY_QUEUE = ''/tinyfile-registryq''"
definition TINYFILE_SENDQ_PREFIX :: string where "TINYFILE_SENDQ_PREFIX = ''/tinyfile-sendq-''"
definition TINYFILE_RECVQ_PREFIX :: string where "TINYFILE_RECVQ_PREFIX = ''/tinyfile-recvq-''"
definition TINYFILE_SHM_PREFIX :: string where "TINYFILE_SHM_PREFIX = ''/tinyfile-shm-''"

definition client_send_q_name :: "int \<Rightarrow> string" where "client_send_q_name pid = TINYFILE_SENDQ_PREFIX @ show_pid pid"
definition client_recv_q_name :: "int \<Rightarrow> string" where "client_recv_q_name pid = TINYFILE_RECVQ_PREFIX @ show_pid pid"
definition client_shm_name :: "int \<Rightarrow> string" where "client_shm_name pid = TINYFILE_SHM_PREFIX @ show_pid pid"

section \<open>Operations\<close>

record os_state =
  mq_names :: "string set"
  shm_names :: "string set"
  registry_q :: "tinyfile_registry_entry list" \<comment> \<open>messages to the server, in order\<close>

text \<open>
  Answers of the system that do not follow from these names: whether each call succeeds otherwise, and the stack
  garbage that \<^verbatim>\<open>create_shm\<close> copies into the argument of an entry.
\<close>

record start_env =
  send_q_ok :: bool
  recv_q_ok :: bool
  shm_open_ok :: bool
  mmap_ok :: bool
  register_ok :: bool
  stack_arg :: tinyfile_arg

text \<open>\<^verbatim>\<open>O_EXCL | O_CREAT\<close>: a name that exists is an error.\<close>

definition create_queues :: "start_env \<Rightarrow> os_state \<Rightarrow> api \<Rightarrow> int \<times> os_state \<times> api" where
  "create_queues env os s =
    (let sq = client_send_q_name (getpid s); rq = client_recv_q_name (getpid s) in
     if sq \<in> mq_names os \<or> \<not> send_q_ok env then (TINYFILE_CREATE_QUEUE_ERROR, os, s)
     else
       let os = os\<lparr>mq_names := insert sq (mq_names os)\<rparr>; s = s\<lparr>client_send_q := []\<rparr> in
       if rq \<in> mq_names os \<or> \<not> recv_q_ok env then (TINYFILE_CREATE_QUEUE_ERROR, os, s)
       else (0, os\<lparr>mq_names := insert rq (mq_names os)\<rparr>, s))"

definition destroy_queues :: "os_state \<Rightarrow> api \<Rightarrow> os_state \<times> api" where
  "destroy_queues os s =
     (os\<lparr>mq_names := mq_names os - {client_send_q_name (getpid s), client_recv_q_name (getpid s)}\<rparr>, s\<lparr>client_send_q := []\<rparr>)"

text \<open>\<^verbatim>\<open>mmap\<close> of an object of size zero fails.\<close>

definition create_shm :: "params \<Rightarrow> start_env \<Rightarrow> os_state \<Rightarrow> api \<Rightarrow> int \<times> os_state \<times> api" where
  "create_shm p env os s =
    (let name = client_shm_name (getpid s) in
     if name \<in> shm_names os \<or> \<not> shm_open_ok env then (TINYFILE_CREATE_SHM_ERROR, os, s)
     else
       let os = os\<lparr>shm_names := insert name (shm_names os)\<rparr>;
           num_entries = size_t (TINYFILE_SHM_SIZE p) div sizeof_shared_entry;
           s = s\<lparr>shm_size := sizeof_shared_entry * num_entries\<rparr> in
       if shm_size s = 0 \<or> \<not> mmap_ok env then (TINYFILE_CREATE_SHM_ERROR, os, s)
       else
         (0, os, s\<lparr>shm := replicate (unat num_entries) (free_entry (stack_arg env)), shm_map := shm_map s + 1,
                   shm_resize_lock := False\<rparr>))"

definition destroy_shm :: "os_state \<Rightarrow> api \<Rightarrow> int \<times> os_state \<times> api" where
  "destroy_shm os s =
    (let name = client_shm_name (getpid s) in
     if name \<notin> shm_names os then (TINYFILE_DESTROY_SHM_ERROR, os, s)
     else (0, os\<lparr>shm_names := shm_names os - {name}\<rparr>, s\<lparr>shm := [], shm_map := shm_map s + 1\<rparr>))"

definition registry_entry_of :: "tinyfile_registry_cmd \<Rightarrow> api \<Rightarrow> tinyfile_registry_entry" where
  "registry_entry_of c s = \<lparr>cmd = c, reg_pid = getpid s, send_q_name = client_send_q_name (getpid s),
     recv_q_name = client_recv_q_name (getpid s), shm_name = client_shm_name (getpid s)\<rparr>"

definition tinyfile_init :: "params \<Rightarrow> start_env \<Rightarrow> os_state \<Rightarrow> api \<Rightarrow> int \<times> os_state \<times> api" where
  "tinyfile_init p env os s =
     (if INIT s then (TINYFILE_INIT_ERROR, os, s)
      else if TINYFILE_REGISTRY_QUEUE \<notin> mq_names os then (TINYFILE_INIT_ERROR, os, s)
      else
        case create_queues env os s of (error, os, s) \<Rightarrow>
        if error \<noteq> 0 then (error, os, s)
        else
          case create_shm p env os s of (error, os, s) \<Rightarrow>
          if error \<noteq> 0 then (error, os, s)
          else if \<not> register_ok env then (TINYFILE_INIT_ERROR, os, s)
          else
            (0, os\<lparr>registry_q := registry_q os @ [registry_entry_of TINYFILE_CLIENT_REGISTER s]\<rparr>,
             s\<lparr>global_request_id := 0, request_queue := async_req_q_init (request_queue s), INIT := True\<rparr>))"

text \<open>
  \<^verbatim>\<open>tinyfile_exit\<close>, with no pass of the request worker between the two halves of \<^verbatim>\<open>async_req_q_destroy\<close>. The result of
  \<^verbatim>\<open>destroy_shm\<close> is ignored.
\<close>

definition tinyfile_exit :: "nat \<Rightarrow> start_env \<Rightarrow> os_state \<Rightarrow> api \<Rightarrow> (int \<times> os_state \<times> api) c_result" where
  "tinyfile_exit fuel env os s =
     (if \<not> INIT s then Inr (TINYFILE_EXIT_ERROR, os, s)
      else if \<not> register_ok env then Inr (TINYFILE_EXIT_ERROR, os, s)
      else
        let os = os\<lparr>registry_q := registry_q os @ [registry_entry_of TINYFILE_CLIENT_UNREGISTER s]\<rparr> in
        cbind (async_req_q_free fuel (request_queue s)) (\<lambda>q.
        case destroy_queues os (s\<lparr>request_queue := async_req_q_stop q\<rparr>) of (os, s) \<Rightarrow>
        case destroy_shm os s of (_, os, s) \<Rightarrow>
          Inr (0, os, s\<lparr>INIT := False\<rparr>)))"

section \<open>Names do not clash\<close>

definition read_digits :: "string \<Rightarrow> nat" where
  "read_digits cs = foldl (\<lambda>n c. 10 * n + (of_char c - 48)) 0 cs"

lemma of_char_digit: "d < 10 \<Longrightarrow> of_char (digit d) = (48 + d :: nat)"
  by (simp add: digit_def)

lemma read_show_nat: "read_digits (show_nat n) = n"
proof (induction n rule: show_nat.induct)
  case (1 n)
  then show ?case
    by (subst show_nat.simps) (auto simp: read_digits_def of_char_digit)
qed

lemma minus_not_digit: "d < 10 \<Longrightarrow> digit d \<noteq> CHR ''-''"
proof
  assume "d < 10" "digit d = CHR ''-''"
  then have "48 + d = (of_char CHR ''-'' :: nat)" using of_char_digit [of d] by simp
  then show False by simp
qed

lemma hd_show_nat: "\<exists>d < 10. show_nat n \<noteq> [] \<and> hd (show_nat n) = digit d"
proof (induction n rule: show_nat.induct)
  case (1 n)
  then show ?case by (cases "n < 10") (subst show_nat.simps, auto)+
qed

lemma show_pid_inject: "show_pid a = show_pid b \<Longrightarrow> a = b"
proof -
  assume eq: "show_pid a = show_pid b"
  have neq: "CHR ''-'' # xs \<noteq> show_nat n" for xs n
    using hd_show_nat [of n] minus_not_digit by (metis list.sel(1))
  have nat: "show_nat m = show_nat n \<Longrightarrow> m = n" for m n using read_show_nat by metis
  show "a = b"
    using eq neq neq [symmetric] nat by (auto simp: show_pid_def split: if_splits dest!: nat)
qed

lemma length_show_nat: "n < 10 ^ k \<Longrightarrow> 0 < k \<Longrightarrow> length (show_nat n) \<le> k"
proof (induction n arbitrary: k rule: show_nat.induct)
  case (1 n)
  show ?case
  proof (cases "n < 10")
    case True
    then show ?thesis using "1.prems" by (subst show_nat.simps) simp
  next
    case False
    obtain j where j: "k = Suc j" using "1.prems"(2) by (cases k) auto
    then have k: "k = Suc j" "0 < j" using False "1.prems"(1) by (cases j, auto)+
    have "n div 10 < 10 ^ j" using "1.prems"(1) k(1) by (simp add: less_mult_imp_div_less mult.commute)
    then show ?thesis using "1.IH" [OF False, of j] k False by (subst show_nat.simps) simp
  qed
qed

definition client_names :: "int \<Rightarrow> string list" where
  "client_names pid = [client_send_q_name pid, client_recv_q_name pid, client_shm_name pid]"

lemmas name_defs = client_send_q_name_def client_recv_q_name_def client_shm_name_def TINYFILE_SENDQ_PREFIX_def
  TINYFILE_RECVQ_PREFIX_def TINYFILE_SHM_PREFIX_def TINYFILE_REGISTRY_QUEUE_def

lemma names_distinct: "distinct (TINYFILE_REGISTRY_QUEUE # client_names pid)"
  by (simp add: client_names_def name_defs)

lemma length_show_pid: "\<bar>pid\<bar> \<le> 2 ^ 63 \<Longrightarrow> length (show_pid pid) \<le> 20"
proof -
  assume pid: "\<bar>pid\<bar> \<le> 2 ^ 63"
  have "nat pid < 10 ^ 19" "nat (- pid) < 10 ^ 19" using pid by (simp_all add: nat_less_iff)
  then show ?thesis
    using length_show_nat [of "nat pid" 19] length_show_nat [of "nat (- pid)" 19] by (simp add: show_pid_def)
qed

text \<open>
  C30. The names of a client's objects: they fit into their arrays of 100 bytes, the queues, the shared memory and the registry
  all have different names, and two processes never share one.
\<close>

theorem client_names_ok:
  assumes "\<bar>pid\<bar> \<le> 2 ^ 63"
  shows "(\<forall>name \<in> set (client_names pid). length name < 100) \<and> distinct (TINYFILE_REGISTRY_QUEUE # client_names pid)
    \<and> (pid' \<noteq> pid \<longrightarrow> set (client_names pid') \<inter> set (client_names pid) = {})"
proof -
  have "\<forall>name \<in> set (client_names pid). length name < 100"
    using length_show_pid [OF assms] by (simp add: client_names_def name_defs)
  moreover have "set (client_names pid') \<inter> set (client_names pid) = {}" if "pid' \<noteq> pid"
    using that by (auto simp: client_names_def name_defs dest: show_pid_inject)
  ultimately show ?thesis using names_distinct by blast
qed

theorem client_names_ok_witness:
  "length (client_shm_name 4711) < 100 \<and> distinct (TINYFILE_REGISTRY_QUEUE # client_names 4711)
    \<and> set (client_names 12) \<inter> set (client_names 4711) = {}"
  using client_names_ok [of 4711 12] by (simp add: client_names_def)

section \<open>Starting and ending\<close>

definition names_free :: "os_state \<Rightarrow> int \<Rightarrow> bool" where
  "names_free os pid \<longleftrightarrow> client_send_q_name pid \<notin> mq_names os \<and> client_recv_q_name pid \<notin> mq_names os
     \<and> client_shm_name pid \<notin> shm_names os"

definition start_ok :: "start_env \<Rightarrow> bool" where
  "start_ok env \<longleftrightarrow> send_q_ok env \<and> recv_q_ok env \<and> shm_open_ok env \<and> mmap_ok env \<and> register_ok env"

lemma initial_size:
  assumes "params_ok p"
  shows "unat (size_t (TINYFILE_SHM_SIZE p) div sizeof_shared_entry) = step_entries p"
    "unat (sizeof_shared_entry * (size_t (TINYFILE_SHM_SIZE p) div sizeof_shared_entry)) = 352 * step_entries p"
proof -
  have sz: "unat (size_t (TINYFILE_SHM_SIZE p)) = unat (TINYFILE_SHM_SIZE p)" "unat (TINYFILE_SHM_SIZE p) < 2 ^ 31"
    using assms by (simp_all add: params_ok_def unat_size_t)
  then show 1: "unat (size_t (TINYFILE_SHM_SIZE p) div sizeof_shared_entry) = step_entries p"
    by (simp add: sizeof_shared_entry_def unat_div step_entries_def)
  have "352 * step_entries p \<le> unat (TINYFILE_SHM_SIZE p)" by (simp add: step_entries_def)
  then show "unat (sizeof_shared_entry * (size_t (TINYFILE_SHM_SIZE p) div sizeof_shared_entry)) = 352 * step_entries p"
    using 1 sz(2) by (subst unat_mult_lem [THEN iffD1]) (simp_all add: sizeof_shared_entry_def)
qed

lemma step_entries_pos: "params_ok p \<Longrightarrow> 0 < step_entries p"
  by (simp add: params_ok_def step_entries_def div_greater_zero_iff)

lemma create_queues_ok:
  assumes "start_ok env" "names_free os (getpid s)"
  shows "create_queues env os s =
    (0, os\<lparr>mq_names := {client_recv_q_name (getpid s), client_send_q_name (getpid s)} \<union> mq_names os\<rparr>, s\<lparr>client_send_q := []\<rparr>)"
proof -
  have "client_recv_q_name (getpid s) \<noteq> client_send_q_name (getpid s)" by (simp add: name_defs)
  then show ?thesis using assms by (simp add: create_queues_def start_ok_def names_free_def Let_def)
qed

lemma create_shm_ok:
  assumes "start_ok env" "client_shm_name (getpid s) \<notin> shm_names os" "params_ok p"
  shows "\<exists>sz. unat sz = 352 * step_entries p \<and> sz = sizeof_shared_entry * (size_t (TINYFILE_SHM_SIZE p) div sizeof_shared_entry)
    \<and> create_shm p env os s =
    (0, os\<lparr>shm_names := insert (client_shm_name (getpid s)) (shm_names os)\<rparr>,
     s\<lparr>shm_size := sz, shm := replicate (step_entries p) (free_entry (stack_arg env)), shm_map := shm_map s + 1,
       shm_resize_lock := False\<rparr>)"
proof -
  have "sizeof_shared_entry * (size_t (TINYFILE_SHM_SIZE p) div sizeof_shared_entry) \<noteq> 0"
    using initial_size(2) [OF assms(3)] step_entries_pos [OF assms(3)] by (metis mult_eq_0_iff not_gr_zero unat_0 zero_neq_numeral)
  then show ?thesis
    using assms(1,2) initial_size [OF assms(3)]
    by (intro exI [of _ "sizeof_shared_entry * (size_t (TINYFILE_SHM_SIZE p) div sizeof_shared_entry)"])
       (simp add: create_shm_def start_ok_def Let_def)
qed

lemma init_ok:
  assumes env: "start_ok env" and names: "names_free os (getpid s)" and reg: "TINYFILE_REGISTRY_QUEUE \<in> mq_names os"
    and p: "params_ok p" and i: "\<not> INIT s"
  shows "\<exists>s'. tinyfile_init p env os s =
      (0, \<lparr>mq_names = {client_recv_q_name (getpid s), client_send_q_name (getpid s)} \<union> mq_names os,
           shm_names = insert (client_shm_name (getpid s)) (shm_names os),
           registry_q = registry_q os @ [registry_entry_of TINYFILE_CLIENT_REGISTER s]\<rparr>, s')
    \<and> INIT s' \<and> api_ok s' \<and> getpid s' = getpid s \<and> length (shm s') = step_entries p \<and> (\<forall>e \<in> set (shm s'). used e = 0)
    \<and> queue (request_queue s') = None \<and> \<not> stop_worker (request_queue s')
    \<and> q_heap (request_queue s') = q_heap (request_queue s) \<and> client_send_q s' = []
    \<and> shm_size s' = sizeof_shared_entry * (size_t (TINYFILE_SHM_SIZE p) div sizeof_shared_entry)"
proof -
  let ?os = "os\<lparr>mq_names := {client_recv_q_name (getpid s), client_send_q_name (getpid s)} \<union> mq_names os\<rparr>"
  obtain sz where sz: "unat sz = 352 * step_entries p" "sz = sizeof_shared_entry * (size_t (TINYFILE_SHM_SIZE p) div sizeof_shared_entry)"
    "create_shm p env ?os (s\<lparr>client_send_q := []\<rparr>) =
    (0, ?os\<lparr>shm_names := insert (client_shm_name (getpid s)) (shm_names os)\<rparr>,
     s\<lparr>client_send_q := [], shm_size := sz, shm := replicate (step_entries p) (free_entry (stack_arg env)), shm_map := shm_map s + 1,
       shm_resize_lock := False\<rparr>)"
    using create_shm_ok [OF env _ p, of "s\<lparr>client_send_q := []\<rparr>" ?os] names by (auto simp: names_free_def)
  have "352 * step_entries p < 2 ^ 31" using p by (auto simp: step_entries_def params_ok_def intro: le_less_trans)
  then show ?thesis
    using i reg env create_queues_ok [OF env names] sz step_entries_pos [OF p]
    by (simp add: tinyfile_init_def start_ok_def async_req_q_init_def registry_entry_of_def api_ok_def free_entry_def)
qed

text \<open>
  C21. \<^verbatim>\<open>tinyfile_init\<close> in a process whose names are not taken, with a running server and room for an entry: it returns \<open>0\<close>, registers the
  process under the names it has created, and leaves a state in which every entry of the mapped memory is free, the
  request queue is empty and its worker runs.
\<close>

theorem tinyfile_init_correct:
  assumes "start_ok env" "names_free os (getpid s)" "TINYFILE_REGISTRY_QUEUE \<in> mq_names os" "params_ok p" "\<not> INIT s"
  shows "\<exists>s'. tinyfile_init p env os s =
      (0, \<lparr>mq_names = {client_recv_q_name (getpid s), client_send_q_name (getpid s)} \<union> mq_names os,
           shm_names = insert (client_shm_name (getpid s)) (shm_names os),
           registry_q = registry_q os @ [registry_entry_of TINYFILE_CLIENT_REGISTER s]\<rparr>, s')
    \<and> INIT s' \<and> api_ok s' \<and> length (shm s') = step_entries p \<and> (\<forall>e \<in> set (shm s'). used e = 0)
    \<and> queue (request_queue s') = None \<and> \<not> stop_worker (request_queue s')"
  using init_ok [OF assms] by blast

definition example_start :: start_env where
  "example_start = \<lparr>send_q_ok = True, recv_q_ok = True, shm_open_ok = True, mmap_ok = True, register_ok = True, stack_arg = arg zero_entry\<rparr>"

definition server_running :: os_state where
  "server_running = \<lparr>mq_names = {TINYFILE_REGISTRY_QUEUE}, shm_names = {}, registry_q = []\<rparr>"

definition new_process :: api where
  "new_process = (example_api [])\<lparr>INIT := False\<rparr>"

lemma example_session:
  "start_ok example_start" "names_free server_running (getpid new_process)" "TINYFILE_REGISTRY_QUEUE \<in> mq_names server_running"
  "params_ok default_params" "\<not> INIT new_process"
  by (simp_all add: start_ok_def example_start_def names_free_def server_running_def name_defs params_ok_def
      default_params_def new_process_def)

theorem tinyfile_init_correct_witness:
  "\<exists>s'. tinyfile_init default_params example_start server_running new_process =
      (0, \<lparr>mq_names = {client_recv_q_name (getpid new_process), client_send_q_name (getpid new_process)} \<union> mq_names server_running,
           shm_names = insert (client_shm_name (getpid new_process)) (shm_names server_running),
           registry_q = registry_q server_running @ [registry_entry_of TINYFILE_CLIENT_REGISTER new_process]\<rparr>, s')
    \<and> INIT s' \<and> api_ok s' \<and> length (shm s') = step_entries default_params \<and> (\<forall>e \<in> set (shm s'). used e = 0)
    \<and> queue (request_queue s') = None \<and> \<not> stop_worker (request_queue s')"
  by (rule tinyfile_init_correct [OF example_session])

text \<open>Ending a session that has left its request queue empty.\<close>

lemma exit_ok:
  assumes "start_ok env" "names_free os (getpid s)" "INIT s" "queue (request_queue s) = None" "0 < fuel"
  shows "\<exists>s'. tinyfile_exit fuel env
      \<lparr>mq_names = {client_recv_q_name (getpid s), client_send_q_name (getpid s)} \<union> mq_names os,
           shm_names = insert (client_shm_name (getpid s)) (shm_names os), registry_q = rq\<rparr> s =
      Inr (0, os\<lparr>registry_q := rq @ [registry_entry_of TINYFILE_CLIENT_UNREGISTER s]\<rparr>, s') \<and> \<not> INIT s'"
proof -
  obtain k where k: "fuel = Suc k" using assms(5) by (cases fuel) auto
  have "register_ok env" using assms(1) by (simp add: start_ok_def)
  moreover have "insert (client_recv_q_name (getpid s)) (insert (client_send_q_name (getpid s)) (mq_names os))
      - {client_send_q_name (getpid s), client_recv_q_name (getpid s)} = mq_names os"
    "insert (client_shm_name (getpid s)) (shm_names os) - {client_shm_name (getpid s)} = shm_names os"
    using assms(2) by (auto simp: names_free_def)
  ultimately show ?thesis
    using assms(3,4) k by (simp add: tinyfile_exit_def Let_def async_req_q_free_def destroy_queues_def destroy_shm_def
        async_req_q_stop_def registry_entry_of_def)
qed

text \<open>
  C22. \<^verbatim>\<open>tinyfile_exit\<close> after \<^verbatim>\<open>tinyfile_init\<close>, with no request pending: it returns \<open>0\<close>, no queue and no shared memory object is left behind, the server
  has received the registration and the matching unregistration, and the library can be initialised again.
\<close>

theorem init_exit_roundtrip:
  assumes "start_ok env" "names_free os (getpid s)" "TINYFILE_REGISTRY_QUEUE \<in> mq_names os" "params_ok p" "\<not> INIT s" "0 < fuel"
  shows "\<exists>os' s' s''. tinyfile_init p env os s = (0, os', s')
    \<and> tinyfile_exit fuel env os' s' = Inr (0, os\<lparr>registry_q := registry_q os @
          [registry_entry_of TINYFILE_CLIENT_REGISTER s, registry_entry_of TINYFILE_CLIENT_UNREGISTER s]\<rparr>, s'')
    \<and> \<not> INIT s''"
proof -
  obtain s' where s': "tinyfile_init p env os s =
      (0, \<lparr>mq_names = {client_recv_q_name (getpid s), client_send_q_name (getpid s)} \<union> mq_names os,
           shm_names = insert (client_shm_name (getpid s)) (shm_names os),
           registry_q = registry_q os @ [registry_entry_of TINYFILE_CLIENT_REGISTER s]\<rparr>, s')"
      "INIT s'" "getpid s' = getpid s" "queue (request_queue s') = None"
    using init_ok [OF assms(1-5)] by blast
  then show ?thesis using exit_ok [OF assms(1) _ s'(2,4) assms(6), of os "registry_q os @ [registry_entry_of TINYFILE_CLIENT_REGISTER s]"] assms(2)
    by (simp add: registry_entry_of_def)
qed

theorem init_exit_roundtrip_witness:
  "\<exists>os' s' s''. tinyfile_init default_params example_start server_running new_process = (0, os', s')
    \<and> tinyfile_exit 1 example_start os' s' = Inr (0, server_running\<lparr>registry_q := registry_q server_running @
          [registry_entry_of TINYFILE_CLIENT_REGISTER new_process, registry_entry_of TINYFILE_CLIENT_UNREGISTER new_process]\<rparr>, s'')
    \<and> \<not> INIT s''"
  by (rule init_exit_roundtrip [OF example_session]) simp

text \<open>
  A shared memory smaller than one entry (such as the size 32 of the documented example): \<^verbatim>\<open>tinyfile_init\<close> fails, the names it has created
  stay, and every later attempt of the process, with whatever size, fails on the first of them.
\<close>

theorem failed_init_is_final:
  assumes "start_ok env" "names_free os (getpid s)" "TINYFILE_REGISTRY_QUEUE \<in> mq_names os" "\<not> INIT s"
    "unat (TINYFILE_SHM_SIZE p) < 352"
  shows "\<exists>os' s'. tinyfile_init p env os s = (TINYFILE_CREATE_SHM_ERROR, os', s')
    \<and> (\<forall>p' env'. tinyfile_init p' env' os' s' = (TINYFILE_CREATE_QUEUE_ERROR, os', s'))"
proof -
  have "unat (size_t (TINYFILE_SHM_SIZE p)) = unat (TINYFILE_SHM_SIZE p)" using assms(5) by (intro unat_size_t) simp
  then have "size_t (TINYFILE_SHM_SIZE p) div sizeof_shared_entry = 0"
    using assms(5) by (simp add: unat_eq_zero [symmetric] unat_div sizeof_shared_entry_def)
  then show ?thesis
    using assms(1-4) create_queues_ok [OF assms(1,2)]
    by (simp add: tinyfile_init_def create_shm_def create_queues_def Let_def names_free_def start_ok_def api_errors)
qed

theorem failed_init_is_final_witness:
  "\<exists>os' s'. tinyfile_init (tinyfile_set_shm_size 32 default_params) example_start server_running new_process =
      (TINYFILE_CREATE_SHM_ERROR, os', s')
    \<and> (\<forall>p' env'. tinyfile_init p' env' os' s' = (TINYFILE_CREATE_QUEUE_ERROR, os', s'))"
  by (rule failed_init_is_final [OF example_session(1,2,3,5)]) (simp add: tinyfile_set_shm_size_def)

end
