(* ===== verification/Tinyfile_World.thy ===== *)
theory Tinyfile_World
  imports Tinyfile_System Client_Session
begin

text \<open>
  The whole system: any number of client processes, each from \<^verbatim>\<open>tinyfile_init\<close> to \<^verbatim>\<open>tinyfile_exit\<close>, the registry queue, the registry thread of the server
  with its list of clients, and the worker threads of all clients, interleaved in any order. A client process is a system of
  \<open>Tinyfile_System\<close>; its workers reach it through the node of the client list, whose address they got when the registry thread started them.

  Clients leave whenever they like. What the server does then is not always safe: it may leave the head of its list at a freed node
  (\<open>unregister_first_client_dangles\<close>), it does not wait for a worker that has received a request and not counted it
  (\<open>unregister_races_with_worker\<close>), and it cancels the workers of the client without waiting for their end, so that they may look at the freed
  node once more. The runs include all this; the state records whether it has happened (\<open>intact\<close>), and the theorems speak of the states before.
\<close>

section \<open>State and steps\<close>

record process =
  psys :: sys
  pnode :: "nat option" \<comment> \<open>the argument of its workers in the server, once it has been registered\<close>
  exited :: bool \<comment> \<open>after \<^verbatim>\<open>tinyfile_exit\<close>\<close>

text \<open>
  \<open>intact\<close>: no freed node has been used, or is about to be used, by a worker that holds a request or through the list. \<open>orphans\<close>: the arguments of the workers that have been
  cancelled and have not ended.
\<close>

record world =
  objs :: os_state
  regs :: registry
  procs :: "int \<rightharpoonup> process"
  disk :: server_os
  intact :: bool
  orphans :: "nat list"

text \<open>A process that has called \<^verbatim>\<open>tinyfile_init\<close>; \<open>c\<close> stands for the record that the server has not made yet.\<close>

definition new_sys :: "api \<Rightarrow> client \<Rightarrow> server_os \<Rightarrow> sys" where
  "new_sys l c st = \<lparr>lib = l, asking = [], searching = None, prepared = [], in_hand = None, received = [], serving = [], handled = 0,
     srv = init_worker_threads c, srv_os = st, submitted = Map.empty, wanted = Map.empty, results = [], os_steps = []\<rparr>"

definition started :: "api \<Rightarrow> client \<Rightarrow> server_os \<Rightarrow> process" where
  "started l c st = \<lparr>psys = new_sys l c st, pnode = None, exited = False\<rparr>"

text \<open>
  A step of one process. The worker of the library runs until \<^verbatim>\<open>tinyfile_exit\<close>; a worker of the server uses the record in the node,
  and the files.
\<close>

inductive runs :: "io \<Rightarrow> world \<Rightarrow> world \<Rightarrow> bool" for io where
  library:
    "procs w pid = Some pr \<Longrightarrow> \<not> exited pr \<Longrightarrow> library_step (psys pr) s \<Longrightarrow>
     runs io w (w\<lparr>procs := (procs w)(pid \<mapsto> pr\<lparr>psys := s\<rparr>)\<rparr>)"
| server:
    "procs w pid = Some pr \<Longrightarrow> pnode pr = Some a \<Longrightarrow> c_heap (regs w) a = Some n \<Longrightarrow>
     worker_step io ((psys pr)\<lparr>srv := client n, srv_os := disk w\<rparr>) s \<Longrightarrow>
     runs io w (w\<lparr>procs := (procs w)(pid \<mapsto> pr\<lparr>psys := s\<rparr>), disk := srv_os s,
       regs := (regs w)\<lparr>c_heap := (c_heap (regs w))(a \<mapsto> n\<lparr>client := srv s\<rparr>)\<rparr>\<rparr>)"

text \<open>
  The registry thread handles the first message. What the operating system answers follows from the objects that exist; \<^verbatim>\<open>malloc\<close> returns a node that is
  not allocated. A client that leaves leaves the workers behind that had its node as argument.
\<close>

definition answers :: "os_state \<Rightarrow> registry \<Rightarrow> tinyfile_registry_entry \<Rightarrow> os_answers \<Rightarrow> bool" where
  "answers os r e ans \<longleftrightarrow> (open_recv_q ans \<noteq> None \<longleftrightarrow> recv_q_name e \<in> mq_names os) \<and> (open_send_q ans \<noteq> None \<longleftrightarrow> send_q_name e \<in> mq_names os)
     \<and> (open_shm_size ans \<noteq> None \<longleftrightarrow> shm_name e \<in> shm_names os) \<and> (\<exists>b. new_node ans = Some b \<and> c_heap r b = None)"

definition first_of_several :: "registry \<Rightarrow> int \<Rightarrow> bool" where
  "first_of_several r pid \<longleftrightarrow>
     (\<exists>a n. clients r = Some a \<and> c_heap r a = Some n \<and> cl_pid (client n) = pid \<and> c_next n \<noteq> None)"

definition after_message :: "tinyfile_registry_entry \<Rightarrow> nat option \<Rightarrow> registry \<Rightarrow> (int \<rightharpoonup> process) \<Rightarrow> (int \<rightharpoonup> process)" where
  "after_message e node r ps =
     (case cmd e of
        TINYFILE_CLIENT_REGISTER \<Rightarrow>
          (case ps (reg_pid e) of
             None \<Rightarrow> ps
           | Some pr \<Rightarrow>
               if pnode pr \<noteq> None then ps
               else ps(reg_pid e \<mapsto> pr\<lparr>pnode := node, psys := (psys pr)\<lparr>srv := the (data_at (c_heap r) (the node))\<rparr>\<rparr>))
      | TINYFILE_SERVER_CLOSE \<Rightarrow> ps
      | _ \<Rightarrow> ps(reg_pid e := None))"

definition leaving :: "tinyfile_registry_entry \<Rightarrow> bool" where
  "leaving e \<longleftrightarrow> cmd e \<in> {TINYFILE_CLIENT_UNREGISTER, TINYFILE_CLIENT_CLOSE}"

definition leaves_damage :: "world \<Rightarrow> tinyfile_registry_entry \<Rightarrow> bool" where
  "leaves_damage w e \<longleftrightarrow> leaving e
     \<and> (first_of_several (regs w) (reg_pid e) \<or> (\<exists>pr. procs w (reg_pid e) = Some pr \<and> received (psys pr) \<noteq> []))"

definition left_behind :: "world \<Rightarrow> tinyfile_registry_entry \<Rightarrow> nat list" where
  "left_behind w e = (if leaving e then
     (case Option.bind (procs w (reg_pid e)) pnode of None \<Rightarrow> [] | Some a \<Rightarrow> replicate THREADS_PER_CLIENT a) else [])"

inductive registry_step :: "world \<Rightarrow> world \<Rightarrow> bool" where
  message:
    "registry_q (objs w) = e # es \<Longrightarrow> answers (objs w) (regs w) e ans \<Longrightarrow>
     registry_handler_step fuel ans (regs w) e = Inr (Some r) \<Longrightarrow>
     registry_step w (w\<lparr>objs := (objs w)\<lparr>registry_q := es\<rparr>, regs := r, procs := after_message e (new_node ans) r (procs w),
       intact := intact w \<and> \<not> leaves_damage w e, orphans := left_behind w e @ orphans w\<rparr>)"

text \<open>
  What the worker threads do after \<^verbatim>\<open>pthread_cancel\<close>, and the faults: a cancelled worker reads \<^verbatim>\<open>stop_client_threads\<close> and \<^verbatim>\<open>recv_q\<close> of its client before
  it ends; a worker finds its node freed; the registry thread runs into a freed node.
\<close>

inductive damage :: "world \<Rightarrow> world \<Rightarrow> bool" where
  orphan_ends: "orphans w = xs @ a # ys \<Longrightarrow> damage w (w\<lparr>orphans := xs @ ys\<rparr>)"
| orphan_reads: "a \<in> set (orphans w) \<Longrightarrow> damage w (w\<lparr>intact := False\<rparr>)"
| worker_faults: "procs w pid = Some pr \<Longrightarrow> pnode pr = Some a \<Longrightarrow> c_heap (regs w) a = None \<Longrightarrow> damage w (w\<lparr>intact := False\<rparr>)"
| registry_faults:
    "registry_q (objs w) = e # es \<Longrightarrow> answers (objs w) (regs w) e ans \<Longrightarrow> registry_handler_step fuel ans (regs w) e = Inl Invalid_access \<Longrightarrow>
     damage w (w\<lparr>intact := False\<rparr>)"

text \<open>
  What the processes do: a new process calls \<^verbatim>\<open>tinyfile_set_shm_size\<close> and \<^verbatim>\<open>tinyfile_init\<close>; its threads submit requests and poll for results; it calls \<^verbatim>\<open>tinyfile_exit\<close>
  at any time, and makes no call from then on. Other programs change files.
\<close>

inductive outside :: "(int \<Rightarrow> u64) \<Rightarrow> params \<Rightarrow> (int \<Rightarrow> tinyfile_arg set) \<Rightarrow> world \<Rightarrow> world \<Rightarrow> bool" for sz p A where
  init:
    "procs w pid = None \<Longrightarrow> getpid l = pid \<Longrightarrow> \<not> INIT l \<Longrightarrow> finite (dom (q_heap (request_queue l))) \<Longrightarrow>
     start_ok env \<Longrightarrow> names_free (objs w) pid \<Longrightarrow> 352 \<le> unat (sz pid) \<Longrightarrow> unat (sz pid) < 2 ^ 31 \<Longrightarrow>
     tinyfile_init (tinyfile_set_shm_size (sz pid) p) env (objs w) l = (0, os, l') \<Longrightarrow>
     outside sz p A w (w\<lparr>objs := os, procs := (procs w)(pid \<mapsto> started l' c (disk w))\<rparr>)"
| call:
    "procs w pid = Some pr \<Longrightarrow> \<not> exited pr \<Longrightarrow> external (tinyfile_set_shm_size (sz pid) p) (A pid) (psys pr) s \<Longrightarrow>
     outside sz p A w (w\<lparr>procs := (procs w)(pid \<mapsto> pr\<lparr>psys := s\<rparr>)\<rparr>)"
| exit:
    "procs w pid = Some pr \<Longrightarrow> \<not> exited pr \<Longrightarrow>
     tinyfile_exit fuel env (objs w) (lib (psys pr)) = Inr (0, os, l') \<Longrightarrow>
     outside sz p A w (w\<lparr>objs := os, procs := (procs w)(pid \<mapsto> pr\<lparr>exited := True\<rparr>)\<rparr>)"
| others:
    "outside sz p A w (w\<lparr>disk := st\<rparr>)"

inductive_cases runsE: "runs io w w'"
inductive_cases registry_stepE: "registry_step w w'"
inductive_cases outsideE: "outside sz p A w w'"

inductive_cases damageE: "damage w w'"

definition world_start :: "world \<Rightarrow> bool" where
  "world_start w \<longleftrightarrow> procs w = Map.empty \<and> registry_q (objs w) = [] \<and> clients (regs w) = None \<and> finite (dom (c_heap (regs w)))
     \<and> intact w \<and> orphans w = []"

inductive world_run :: "(int \<Rightarrow> u64) \<Rightarrow> params \<Rightarrow> io \<Rightarrow> (int \<Rightarrow> tinyfile_arg set) \<Rightarrow> world \<Rightarrow> bool" for sz p io A where
  start: "world_start w \<Longrightarrow> world_run sz p io A w"
| runs: "world_run sz p io A w \<Longrightarrow> runs io w w' \<Longrightarrow> world_run sz p io A w'"
| registry: "world_run sz p io A w \<Longrightarrow> registry_step w w' \<Longrightarrow> world_run sz p io A w'"
| outside: "world_run sz p io A w \<Longrightarrow> outside sz p A w w' \<Longrightarrow> world_run sz p io A w'"
| damage: "world_run sz p io A w \<Longrightarrow> damage w w' \<Longrightarrow> world_run sz p io A w'"

definition possible :: "(int \<Rightarrow> u64) \<Rightarrow> params \<Rightarrow> io \<Rightarrow> (int \<Rightarrow> tinyfile_arg set) \<Rightarrow> world \<Rightarrow> bool" where
  "possible sz p io A w \<longleftrightarrow> world_run sz p io A w \<and> intact w"

lemma intact_kept: "runs io w w' \<Longrightarrow> intact w' = intact w" "outside sz p A w w' \<Longrightarrow> intact w' = intact w"
  by (auto elim!: runs.cases outside.cases)

lemma intact_before: "registry_step w w' \<Longrightarrow> intact w' \<Longrightarrow> intact w" "damage w w' \<Longrightarrow> intact w' \<Longrightarrow> intact w"
  by (auto elim!: registry_step.cases damage.cases)

lemma possible_start: "world_start w \<Longrightarrow> possible sz p io A w"
  by (simp add: possible_def world_run.start world_start_def)

lemma possible_runs: "possible sz p io A w \<Longrightarrow> runs io w w' \<Longrightarrow> possible sz p io A w'"
  using intact_kept(1) by (auto simp: possible_def intro: world_run.runs)

lemma possible_outside: "possible sz p io A w \<Longrightarrow> outside sz p A w w' \<Longrightarrow> possible sz p io A w'"
  using intact_kept(2) by (auto simp: possible_def intro: world_run.outside)

lemma possible_registry: "possible sz p io A w \<Longrightarrow> registry_step w w' \<Longrightarrow> intact w' \<Longrightarrow> possible sz p io A w'"
  by (auto simp: possible_def intro: world_run.registry)

text \<open>Induction over the steps that keep the state intact.\<close>

lemma possible_induct [consumes 1, case_names start runs registry outside ends]:
  assumes "possible sz p io A w"
    and "\<And>w. world_start w \<Longrightarrow> P w"
    and "\<And>w w'. possible sz p io A w \<Longrightarrow> P w \<Longrightarrow> runs io w w' \<Longrightarrow> P w'"
    and "\<And>w w'. possible sz p io A w \<Longrightarrow> P w \<Longrightarrow> registry_step w w' \<Longrightarrow> intact w' \<Longrightarrow> P w'"
    and "\<And>w w'. possible sz p io A w \<Longrightarrow> P w \<Longrightarrow> outside sz p A w w' \<Longrightarrow> P w'"
    and "\<And>w ys. possible sz p io A w \<Longrightarrow> P w \<Longrightarrow> P (w\<lparr>orphans := ys\<rparr>)"
  shows "P w"
proof -
  have "world_run sz p io A w" "intact w" using assms(1) by (simp_all add: possible_def)
  then show ?thesis
  proof (induction rule: world_run.induct)
    case (runs w w')
    then show ?case using assms(3) intact_kept(1) by (metis possible_def)
  next
    case (registry w w')
    then show ?case using assms(4) intact_before(1) by (metis possible_def)
  next
    case (outside w w')
    then show ?case using assms(5) intact_kept(2) by (metis possible_def)
  next
    case (damage w w')
    have "P w" "possible sz p io A w" using damage intact_before(2) by (metis possible_def)+
    moreover from damage(2,4) obtain ys where "w' = w\<lparr>orphans := ys\<rparr>" by cases auto
    ultimately show ?case using assms(6) by blast
  qed (rule assms(2))
qed

section \<open>Invariant\<close>

text \<open>The messages in the registry queue that a process has sent and the server has not handled.\<close>

definition pending :: "world \<Rightarrow> int \<Rightarrow> tinyfile_registry_cmd list" where
  "pending w pid = map cmd (filter (\<lambda>e. reg_pid e = pid) (registry_q (objs w)))"

definition messages_of :: "process option \<Rightarrow> tinyfile_registry_cmd list" where
  "messages_of pr = (case pr of None \<Rightarrow> []
     | Some pr \<Rightarrow> (if pnode pr = None then [TINYFILE_CLIENT_REGISTER] else []) @ (if exited pr then [TINYFILE_CLIENT_UNREGISTER] else []))"

definition process_ok :: "(int \<Rightarrow> u64) \<Rightarrow> params \<Rightarrow> io \<Rightarrow> (int \<Rightarrow> tinyfile_arg set) \<Rightarrow> registry \<Rightarrow> int \<Rightarrow> process \<Rightarrow> bool" where
  "process_ok sz p io A r pid pr \<longleftrightarrow> reachable (tinyfile_set_shm_size (sz pid) p) io (A pid) (psys pr) \<and> getpid (lib (psys pr)) = pid
     \<and> (case pnode pr of None \<Rightarrow> no_worker_busy (psys pr)
        | Some a \<Rightarrow> data_at (c_heap r) a = Some (srv (psys pr)) \<and> cl_pid (srv (psys pr)) = pid)"

definition world_ok :: "(int \<Rightarrow> u64) \<Rightarrow> params \<Rightarrow> io \<Rightarrow> (int \<Rightarrow> tinyfile_arg set) \<Rightarrow> world \<Rightarrow> nat list \<Rightarrow> bool" where
  "world_ok sz p io A w as \<longleftrightarrow> registry_ok (regs w) as \<and> finite (dom (procs w))
     \<and> (\<forall>pid pr. procs w pid = Some pr \<longrightarrow> process_ok sz p io A (regs w) pid pr)
     \<and> (\<forall>a. a \<in> set as \<longleftrightarrow> (\<exists>pid pr. procs w pid = Some pr \<and> pnode pr = Some a))
     \<and> (\<forall>pid. pending w pid = messages_of (procs w pid))"

lemma world_okD:
  assumes "world_ok sz p io A w as"
  shows "registry_ok (regs w) as" "finite (dom (procs w))" "\<And>pid pr. procs w pid = Some pr \<Longrightarrow> process_ok sz p io A (regs w) pid pr"
    "\<And>a. a \<in> set as \<longleftrightarrow> (\<exists>pid pr. procs w pid = Some pr \<and> pnode pr = Some a)" "\<And>pid. pending w pid = messages_of (procs w pid)"
  using assms unfolding world_ok_def by blast+

lemma process_okD:
  assumes "process_ok sz p io A r pid pr"
  shows "reachable (tinyfile_set_shm_size (sz pid) p) io (A pid) (psys pr)" "getpid (lib (psys pr)) = pid"
    "pnode pr = None \<Longrightarrow> no_worker_busy (psys pr)"
    "\<And>a. pnode pr = Some a \<Longrightarrow> data_at (c_heap r) a = Some (srv (psys pr))" "\<And>a. pnode pr = Some a \<Longrightarrow> cl_pid (srv (psys pr)) = pid"
  using assms by (auto simp: process_ok_def)

text \<open>Two processes never share a node.\<close>

lemma nodes_distinct:
  assumes "process_ok sz p io A r pid pr" "process_ok sz p io A r pid' pr'" "pnode pr = Some a" "pnode pr' = Some a"
  shows "pid = pid'"
  using process_okD(4,5) [OF assms(1,3)] process_okD(4,5) [OF assms(2,4)] by simp

lemma node_pid:
  assumes "world_ok sz p io A w as" "procs w pid = Some pr" "pnode pr = Some a"
  shows "pid_at (c_heap (regs w)) a = pid"
  using process_okD(4,5) [OF world_okD(3) [OF assms(1,2)] assms(3)] pid_data_at by metis

lemma unregistered_not_found:
  assumes "world_ok sz p io A w as" "procs w pid = Some pr" "pnode pr = None"
  shows "\<forall>a \<in> set as. pid_at (c_heap (regs w)) a \<noteq> pid"
  using world_okD(4) [OF assms(1)] node_pid [OF assms(1)] assms(2,3) by fastforce

lemma process_ok_data:
  assumes "process_ok sz p io A r pid pr" "\<And>a. pnode pr = Some a \<Longrightarrow> data_at (c_heap r') a = data_at (c_heap r) a"
  shows "process_ok sz p io A r' pid pr"
  using assms by (auto simp: process_ok_def split: option.splits)

lemma node_added:
  assumes "ps pid = Some pr" "pnode pr = None"
  shows "(\<exists>q qr. (ps(pid \<mapsto> pr\<lparr>pnode := Some b, psys := s\<rparr>)) q = Some qr \<and> pnode qr = Some a)
    \<longleftrightarrow> a = b \<or> (\<exists>q qr. ps q = Some qr \<and> pnode qr = Some a)"
proof
  assume "a = b \<or> (\<exists>q qr. ps q = Some qr \<and> pnode qr = Some a)"
  then show "\<exists>q qr. (ps(pid \<mapsto> pr\<lparr>pnode := Some b, psys := s\<rparr>)) q = Some qr \<and> pnode qr = Some a"
  proof
    assume "\<exists>q qr. ps q = Some qr \<and> pnode qr = Some a"
    then obtain q qr where "ps q = Some qr" "pnode qr = Some a" by blast
    moreover from this have "q \<noteq> pid" using assms by auto
    ultimately show ?thesis by (intro exI [of _ q] exI [of _ qr]) simp
  qed (intro exI [of _ pid], simp)
qed (auto split: if_splits)

lemma node_removed:
  assumes "ps pid = Some pr" "pnode pr = Some a"
    and "\<And>q qr. ps q = Some qr \<Longrightarrow> pnode qr = Some a \<Longrightarrow> q = pid"
  shows "(\<exists>q qr. (ps(pid := None)) q = Some qr \<and> pnode qr = Some b) \<longleftrightarrow> b \<noteq> a \<and> (\<exists>q qr. ps q = Some qr \<and> pnode qr = Some b)"
proof
  assume "b \<noteq> a \<and> (\<exists>q qr. ps q = Some qr \<and> pnode qr = Some b)"
  then obtain q qr where "ps q = Some qr" "pnode qr = Some b" "b \<noteq> a" by blast
  moreover from this have "q \<noteq> pid" using assms(1,2) by auto
  ultimately show "\<exists>q qr. (ps(pid := None)) q = Some qr \<and> pnode qr = Some b" by (intro exI [of _ q] exI [of _ qr]) simp
qed (use assms(3) in \<open>auto split: if_splits\<close>)

text \<open>A step that changes one process and the record in its node.\<close>

lemma world_ok_update:
  assumes ok: "world_ok sz p io A w as" and pr: "procs w pid = Some pr" "pnode pr' = pnode pr" "exited pr' = exited pr"
    and pr': "process_ok sz p io A (regs w') pid pr'" "registry_ok (regs w') as"
    and data: "\<And>b. pnode pr \<noteq> Some b \<Longrightarrow> data_at (c_heap (regs w')) b = data_at (c_heap (regs w)) b"
    and w': "procs w' = (procs w)(pid \<mapsto> pr')" "registry_q (objs w') = registry_q (objs w)"
  shows "world_ok sz p io A w' as"
proof -
  note D = world_okD [OF ok]
  have "process_ok sz p io A (regs w') q qr" if q: "procs w' q = Some qr" for q qr
  proof (cases "q = pid")
    case True
    then show ?thesis using pr'(1) q by (simp add: w')
  next
    case False
    then have qr: "process_ok sz p io A (regs w) q qr" using D(3) q by (simp add: w')
    show ?thesis
      by (rule process_ok_data [OF qr]) (use data nodes_distinct [OF qr D(3) [OF pr(1)]] False in blast)
  qed
  moreover have "a \<in> set as \<longleftrightarrow> (\<exists>pid pr. procs w' pid = Some pr \<and> pnode pr = Some a)" for a
    unfolding D(4) w'(1) using pr(1,2) by (metis fun_upd_apply option.inject)
  moreover have "pending w' q = messages_of (procs w' q)" for q
    using D(5) [of q] pr by (auto simp: pending_def w' messages_of_def)
  ultimately show ?thesis using pr'(2) D(2) w'(1) unfolding world_ok_def by auto
qed

section \<open>What the steps of a process keep\<close>

lemma library_keeps:
  assumes "library_step s s'" "sys_inv p io A s"
  shows "getpid (lib s') = getpid (lib s)" "srv s' = srv s" "no_worker_busy s' = no_worker_busy s"
proof -
  obtain rs where rs: "queue_holds (request_queue (lib s)) rs" using assms(2) by (auto simp: sys_inv_def)
  have "getpid (lib s') = getpid (lib s) \<and> srv s' = srv s \<and> no_worker_busy s' = no_worker_busy s"
    using assms(1)
  proof cases
    case (enqueue xs req ys mem fuel l)
    then show ?thesis using api_enqueue_ok [OF rs enqueue(3,4)] by (auto simp: no_worker_busy_def)
  qed (auto simp: no_worker_busy_def)
  then show "getpid (lib s') = getpid (lib s)" "srv s' = srv s" "no_worker_busy s' = no_worker_busy s" by auto
qed

lemma worker_keeps:
  assumes "worker_step io s s'"
  shows "getpid (lib s') = getpid (lib s)" "cl_pid (srv s') = cl_pid (srv s)"
  using assms by (auto elim!: worker_step.cases)

lemma external_keeps:
  assumes "external p A s s'" "sys_inv p io A s"
  shows "getpid (lib s') = getpid (lib s)" "srv s' = srv s" "no_worker_busy s' = no_worker_busy s"
proof -
  obtain rs L where inv: "machinery_ok p io A s" "entries_ok io s L" using assms(2) by (auto simp: sys_inv_def)
  have ok: "api_ok (lib s)" "new_shm_size p (lib s) > size_t (TINYFILE_SHM_MAX_SIZE p)" using inv(1) by (simp_all add: machinery_ok_def)
  have same_pid: "getpid l = getpid (lib s)" if "searching s = Some (c, n, idx)" "look_entry p env a n idx (lib s) = Inr (f, i, l)" for c n idx env a f i l
  proof -
    have "n = length (shm (lib s)) \<and> idx < n" using that(1) inv(1) by (simp add: machinery_ok_def searchers_ok_def)
    then show ?thesis using that(2) look_entry_fixed [OF ok, of idx env a] by (auto simp: claim_def split: if_splits)
  qed
  have "getpid (lib s') = getpid (lib s) \<and> srv s' = srv s \<and> no_worker_busy s' = no_worker_busy s"
    using assms(1)
  proof cases
    case (look c n idx env idx' l)
    then show ?thesis using same_pid [OF look(2,3)] by (simp add: no_worker_busy_def)
  next
    case (claims c n idx env i l)
    then show ?thesis using same_pid [OF claims(2,3)] by (simp add: no_worker_busy_def claimed_def)
  next
    case (collect i a sv out l)
    have "i < length (shm (lib s))" using entries_okD(4) [OF inv(2) collect(2)] .
    then have "pollable i (lib s)" using ok(1) by (simp add: pollable_def entries_in_ok) (simp add: api_ok_def)
    then show ?thesis using collect(1,4) is_request_done_eq by (auto simp: release_def no_worker_busy_def split: if_splits)
  qed (auto simp: no_worker_busy_def)
  then show "getpid (lib s') = getpid (lib s)" "srv s' = srv s" "no_worker_busy s' = no_worker_busy s" by auto
qed

section \<open>The invariant is kept\<close>

lemma registry_ok_data:
  assumes "registry_ok r as" "c_heap r a = Some n" "cl_pid c = cl_pid (client n)"
  shows "registry_ok (r\<lparr>c_heap := (c_heap r)(a \<mapsto> n\<lparr>client := c\<rparr>)\<rparr>) as"
proof -
  have "pid_at ((c_heap r)(a \<mapsto> n\<lparr>client := c\<rparr>)) = pid_at (c_heap r)"
    using assms(2,3) by (auto simp: pid_at_def fun_eq_iff)
  then show ?thesis using assms(1) registered_data [OF _ assms(2)] by (simp add: registry_ok_def)
qed

lemma runs_ok:
  assumes "runs io w w'" "world_ok sz p io A w as"
  shows "world_ok sz p io A w' as"
  using assms(1)
proof cases
  case (library pid pr s)
  note P = process_okD [OF world_okD(3) [OF assms(2) library(2)]]
  note k = library_keeps [OF library(4) reachable_inv [OF P(1)]]
  have "process_ok sz p io A (regs w') pid (pr\<lparr>psys := s\<rparr>)"
    using P k reachable.internal [OF P(1) internal.library [OF library(4)]] by (auto simp: process_ok_def library(1) split: option.splits)
  then show ?thesis
    by (rule world_ok_update [OF assms(2) library(2), rotated 2]) (use world_okD(1) [OF assms(2)] in \<open>simp_all add: library(1)\<close>)
next
  case (server pid pr a n s)
  note P = process_okD [OF world_okD(3) [OF assms(2) server(2)]]
  have n: "client n = srv (psys pr)" using P(4) [OF server(3)] server(4) by (simp add: data_at_def)
  then have i: "worker_step io ((psys pr)\<lparr>srv_os := disk w\<rparr>) s" using server(5) by simp
  have r: "reachable (tinyfile_set_shm_size (sz pid) p) io (A pid) ((psys pr)\<lparr>srv_os := disk w\<rparr>)" by (rule reachable.environment [OF P(1)])
  note k = worker_keeps [OF i]
  have "process_ok sz p io A (regs w') pid (pr\<lparr>psys := s\<rparr>)"
    using P k server(3) reachable.internal [OF r internal.worker [OF i]] by (auto simp: process_ok_def server(1) data_at_def)
  moreover have "registry_ok (regs w') as"
    using registry_ok_data [OF world_okD(1) [OF assms(2)] server(4), of "srv s"] k(2) n by (simp add: server(1))
  ultimately show ?thesis
    by (intro world_ok_update [OF assms(2) server(2), where w' = w']) (use server(3) in \<open>auto simp: server(1) data_at_def\<close>)
qed

text \<open>The message that comes first is the one its process has sent first.\<close>

lemma pending_head:
  assumes "registry_q (objs w) = e # es" "registry_q (objs w') = es"
  shows "pending w (reg_pid e) = cmd e # pending w' (reg_pid e)" "pid \<noteq> reg_pid e \<Longrightarrow> pending w pid = pending w' pid"
  using assms by (simp_all add: pending_def)

lemma register_ok:
  assumes ok: "world_ok sz p io A w as" and q: "registry_q (objs w) = e # es" and ans: "answers (objs w) (regs w) e ans"
    and c: "cmd e = TINYFILE_CLIENT_REGISTER" and h: "registry_handler_step fuel ans (regs w) e = Inr (Some r)"
    and w': "objs w' = (objs w)\<lparr>registry_q := es\<rparr>" "regs w' = r" "procs w' = after_message e (new_node ans) r (procs w)"
  shows "\<exists>b. world_ok sz p io A w' (as @ [b])"
proof -
  let ?pid = "reg_pid e"
  note D = world_okD [OF ok]
  have pend: "pending w ?pid = TINYFILE_CLIENT_REGISTER # pending w' ?pid" "\<And>pid. pid \<noteq> ?pid \<Longrightarrow> pending w pid = pending w' pid"
    using pending_head [OF q, of w'] c w' by simp_all
  then obtain pr where pr: "procs w ?pid = Some pr" "pnode pr = None" "pending w' ?pid = (if exited pr then [TINYFILE_CLIENT_UNREGISTER] else [])"
    using D(5) [of ?pid] by (auto simp: messages_of_def split: option.splits if_splits)
  have new: "\<forall>a \<in> set as. pid_at (c_heap (regs w)) a \<noteq> ?pid" by (rule unregistered_not_found [OF ok pr(1,2)])
  obtain b where b: "new_node ans = Some b" "c_heap (regs w) b = None" using ans by (auto simp: answers_def)
  obtain x where x: "register_client fuel ans (regs w) e = Inr (Some (x, r))"
    using h c by (auto simp: registry_handler_step_def cbind_eq_Inr_conv split: option.splits)
  then have big: "register_client (fuel + Suc (length as)) ans (regs w) e = Inr (Some (x, r))" by (rule register_client_more)
  have "open_recv_q ans \<noteq> None" "open_send_q ans \<noteq> None" "open_shm_size ans \<noteq> None"
    using big find_registered(2) [OF D(1) _ new, of "fuel + Suc (length as)"]
    by (auto simp: register_client_def open_shm_def simp del: add_Suc_right split: option.splits)
  then obtain sq rq sm where ans': "ans = \<lparr>open_recv_q = Some sq, open_send_q = Some rq, open_shm_size = Some sm, new_node = Some b,
      stack_client = stack_client ans\<rparr>"
    using b(1) by (cases ans) auto
  define c0 where "c0 = \<lparr>cl_pid = ?pid, send_q = sq, recv_q = rq, cl_shm_size = sm, cl_shm_name = shm_name e,
      stop_client_threads = False, num_requests_started = 0, num_requests_completed = 0\<rparr>"
  have ic: "init_worker_threads c0 = c0" by (simp add: c0_def init_worker_threads_def)
  have r: "registry_ok r (as @ [b])" "data_at (c_heap r) b = Some (init_worker_threads c0)"
      "\<forall>a. a \<noteq> b \<longrightarrow> data_at (c_heap r) a = data_at (c_heap (regs w)) a"
    using register_client_new [OF D(1) _ ans' b(2) new, of "fuel + Suc (length as)"] big unfolding ic by (auto simp: c0_def)
  have c0: "cl_pid (init_worker_threads c0) = ?pid" by (simp add: c0_def init_worker_threads_def)
  let ?pr = "pr\<lparr>pnode := Some b, psys := (psys pr)\<lparr>srv := init_worker_threads c0\<rparr>\<rparr>"
  have procs': "procs w' = (procs w)(?pid \<mapsto> ?pr)" using pr(1,2) b(1) r(2) c by (simp add: w' after_message_def)
  note P = process_okD [OF D(3) [OF pr(1)]]
  have new_ok: "process_ok sz p io A r ?pid ?pr"
    using P(2) r(2) c0 reachable.registration [OF P(1) P(3) [OF pr(2)], of c0] by (simp add: process_ok_def)
  have "process_ok sz p io A r q qr" if qr: "procs w' q = Some qr" for q qr
  proof (cases "q = ?pid")
    case True
    then show ?thesis using new_ok qr by (simp add: procs')
  next
    case False
    then have "process_ok sz p io A (regs w) q qr" using D(3) qr by (simp add: procs')
    moreover from this have "pnode qr \<noteq> Some b" using process_okD(4) b(2) by (fastforce simp: data_at_def)
    ultimately show ?thesis using process_ok_data r(3) by metis
  qed
  moreover have "a \<in> set (as @ [b]) \<longleftrightarrow> (\<exists>pid pr. procs w' pid = Some pr \<and> pnode pr = Some a)" for a
  proof -
    have "(\<exists>pid pr. procs w' pid = Some pr \<and> pnode pr = Some a) \<longleftrightarrow> a = b \<or> (\<exists>pid pr. procs w pid = Some pr \<and> pnode pr = Some a)"
      unfolding procs' using pr(1,2) by (rule node_added)
    then show ?thesis using D(4) [of a] by auto
  qed
  moreover have "pending w' q = messages_of (procs w' q)" for q
    using D(5) [of q] pend(2) [of q] pr(3) by (cases "q = ?pid") (auto simp: procs' messages_of_def)
  ultimately have "world_ok sz p io A w' (as @ [b])" using r(1) D(2) unfolding world_ok_def procs' by (simp add: w')
  then show ?thesis by blast
qed

lemma unregister_ok:
  assumes ok: "world_ok sz p io A w as" and q: "registry_q (objs w) = e # es"
    and safe: "\<not> first_of_several (regs w) (reg_pid e)"
    and c: "cmd e \<noteq> TINYFILE_CLIENT_REGISTER" and h: "registry_handler_step fuel ans (regs w) e = Inr (Some r)"
    and w': "objs w' = (objs w)\<lparr>registry_q := es\<rparr>" "regs w' = r" "procs w' = after_message e (new_node ans) r (procs w)"
  shows "\<exists>as'. world_ok sz p io A w' as'"
proof -
  let ?pid = "reg_pid e"
  note D = world_okD [OF ok]
  have pend: "pending w ?pid = cmd e # pending w' ?pid" "\<And>pid. pid \<noteq> ?pid \<Longrightarrow> pending w pid = pending w' pid"
    using pending_head [OF q, of w'] w' by simp_all
  then obtain pr a where pr: "procs w ?pid = Some pr" "pnode pr = Some a" "exited pr" "cmd e = TINYFILE_CLIENT_UNREGISTER" "pending w' ?pid = []"
    using D(5) [of ?pid] c by (auto simp: messages_of_def split: option.splits if_splits)
  note P = process_okD [OF D(3) [OF pr(1)]]
  have "a \<in> set as" using D(4) pr(1,2) by blast
  then obtain xs ys where as: "as = xs @ a # ys" by (meson split_list)
  have pid: "pid_at (c_heap (regs w)) a = ?pid" using pid_data_at [OF P(4) [OF pr(2)]] P(5) [OF pr(2)] by simp
  have ne: "xs \<noteq> [] \<or> ys = []"
  proof (rule ccontr)
    assume "\<not> ?thesis"
    then obtain b ys' where "as = a # b # ys'" using as by (cases ys) auto
    then have "registered (regs w) (a # b # ys')" using D(1) by (simp add: registry_ok_def)
    from registered_lseg [OF this] obtain n where "clients (regs w) = Some a" "c_heap (regs w) a = Some n" "c_next n = Some b" by auto
    then show False using safe pid by (auto simp: first_of_several_def pid_at_def)
  qed
  obtain n where n: "c_heap (regs w) a = Some n" using P(4) [OF pr(2)] by (auto simp: data_at_def)
  then have np: "cl_pid (client n) = ?pid" using pid by (simp add: pid_at_def)
  obtain x where "unregister_client fuel (regs w) ?pid False = Inr (x, r)"
    using h pr(4) by (auto simp: registry_handler_step_def cbind_eq_Inr_conv)
  then have big: "unregister_client (fuel + Suc (length as)) (regs w) ?pid False = Inr (x, r)" by (rule unregister_client_more)
  have len: "length (xs @ a # ys) < fuel + Suc (length as)" by (simp add: as)
  have idle: "idle (c_heap (regs w)) a"
    using unregister_client_waits [OF D(1) [unfolded as] ne n len, of False] big np by (cases "idle (c_heap (regs w)) a") simp_all
  have r: "registry_ok r (xs @ ys)" "\<forall>b. b \<noteq> a \<longrightarrow> data_at (c_heap r) b = data_at (c_heap (regs w)) b"
    using unregister_client_known [OF D(1) [unfolded as] ne idle len n, of False] big np by auto
  have procs': "procs w' = (procs w)(?pid := None)" using pr(4) by (simp add: w' after_message_def)
  have "process_ok sz p io A r q qr" if qr: "procs w' q = Some qr" for q qr
  proof -
    have q: "q \<noteq> ?pid" "process_ok sz p io A (regs w) q qr" using D(3) qr by (auto simp: procs' split: if_splits)
    then have "pnode qr \<noteq> Some a" using nodes_distinct [OF _ D(3) [OF pr(1)] _ pr(2)] by blast
    then show ?thesis using process_ok_data [OF q(2)] r(2) by metis
  qed
  moreover have "b \<in> set (xs @ ys) \<longleftrightarrow> (\<exists>pid pr. procs w' pid = Some pr \<and> pnode pr = Some b)" for b
  proof -
    have d: "distinct as" using D(1) by (simp add: registry_ok_def registered_def)
    have "(\<exists>pid pr. procs w' pid = Some pr \<and> pnode pr = Some b) \<longleftrightarrow> b \<noteq> a \<and> (\<exists>pid pr. procs w pid = Some pr \<and> pnode pr = Some b)"
      unfolding procs' by (rule node_removed [where ps = "procs w", OF pr(1,2)]) (rule nodes_distinct [OF D(3) D(3) [OF pr(1)] _ pr(2)])
    then show ?thesis using D(4) [of b] d as by auto
  qed
  moreover have "pending w' q = messages_of (procs w' q)" for q
    using D(5) [of q] pend(2) [of q] pr(5) by (cases "q = ?pid") (auto simp: procs' messages_of_def)
  ultimately have "world_ok sz p io A w' (xs @ ys)" using r(1) D(2) unfolding world_ok_def procs' by (simp add: w')
  then show ?thesis by blast
qed

lemma registry_step_ok:
  assumes "registry_step w w'" "world_ok sz p io A w as" "intact w'"
  shows "\<exists>as'. world_ok sz p io A w' as'"
  using assms(1)
proof cases
  case (message e es ans fuel r)
  have w': "objs w' = (objs w)\<lparr>registry_q := es\<rparr>" "regs w' = r" "procs w' = after_message e (new_node ans) r (procs w)"
    by (simp_all add: message(1))
  show ?thesis
  proof (cases "cmd e = TINYFILE_CLIENT_REGISTER")
    case True
    then show ?thesis using register_ok [OF assms(2) message(2,3) _ message(4) w'] by blast
  next
    case False
    have "pending w (reg_pid e) = cmd e # map cmd (filter (\<lambda>x. reg_pid x = reg_pid e) es)" using message(2) by (simp add: pending_def)
    then have "cmd e = TINYFILE_CLIENT_UNREGISTER"
      using world_okD(5) [OF assms(2), of "reg_pid e"] False by (auto simp: messages_of_def split: option.splits if_splits)
    then have "\<not> first_of_several (regs w) (reg_pid e)" using assms(3) by (simp add: message(1) leaves_damage_def leaving_def)
    then show ?thesis by (rule unregister_ok [OF assms(2) message(2) _ False message(4) w'])
  qed
qed

section \<open>Starting and leaving\<close>

lemma session_initial:
  assumes "start_ok env" "names_free os (getpid s)" "TINYFILE_REGISTRY_QUEUE \<in> mq_names os" "\<not> INIT s"
    "352 \<le> unat sz" "unat sz < 2 ^ 31" "finite (dom (q_heap (request_queue s)))"
  shows "\<exists>s'. tinyfile_init (tinyfile_set_shm_size sz p) env os s =
      (0, \<lparr>mq_names = {client_recv_q_name (getpid s), client_send_q_name (getpid s)} \<union> mq_names os,
           shm_names = insert (client_shm_name (getpid s)) (shm_names os),
           registry_q = registry_q os @ [registry_entry_of TINYFILE_CLIENT_REGISTER s]\<rparr>, s') \<and> INIT s' \<and> getpid s' = getpid s
    \<and> initial (tinyfile_set_shm_size sz p) (new_sys s' c st)"
proof -
  let ?p = "tinyfile_set_shm_size sz p"
  have "unat (ucast sz :: u32) = unat sz" using assms(6) by (simp add: unsigned_ucast_eq take_bit_nat_eq_self_iff)
  then have p: "params_ok ?p" using assms(5,6) by (simp add: params_ok_def tinyfile_set_shm_size_def)
  obtain s' where s': "tinyfile_init ?p env os s =
      (0, \<lparr>mq_names = {client_recv_q_name (getpid s), client_send_q_name (getpid s)} \<union> mq_names os,
           shm_names = insert (client_shm_name (getpid s)) (shm_names os),
           registry_q = registry_q os @ [registry_entry_of TINYFILE_CLIENT_REGISTER s]\<rparr>, s')"
      "INIT s'" "api_ok s'" "getpid s' = getpid s" "\<forall>e \<in> set (shm s'). used e = 0"
      "queue (request_queue s') = None" "\<not> stop_worker (request_queue s')" "q_heap (request_queue s') = q_heap (request_queue s)"
      "client_send_q s' = []" "shm_size s' = sizeof_shared_entry * (size_t (TINYFILE_SHM_SIZE ?p) div sizeof_shared_entry)"
    using init_ok [OF assms(1-3) p assms(4)] by blast
  have "new_shm_size ?p s' > size_t (TINYFILE_SHM_MAX_SIZE ?p)" by (rule set_shm_size_fixes [OF assms(5,6) s'(10)])
  then show ?thesis using s' assms(7) by (simp add: initial_def new_sys_def no_worker_busy_def init_worker_threads_def)
qed

lemma exit_message:
  assumes "tinyfile_exit fuel env os l = Inr (0, os', l')"
  shows "registry_q os' = registry_q os @ [registry_entry_of TINYFILE_CLIENT_UNREGISTER l]"
    "mq_names os' = mq_names os - {client_send_q_name (getpid l), client_recv_q_name (getpid l)}"
    "shm_names os' = shm_names os - {client_shm_name (getpid l)}"
proof -
  note d = tinyfile_exit_def Let_def cbind_eq_Inr_conv destroy_queues_def destroy_shm_def api_errors
  show "registry_q os' = registry_q os @ [registry_entry_of TINYFILE_CLIENT_UNREGISTER l]"
    using assms by (auto simp: d split: if_splits)
  show "mq_names os' = mq_names os - {client_send_q_name (getpid l), client_recv_q_name (getpid l)}"
    using assms by (auto simp: d split: if_splits)
  show "shm_names os' = shm_names os - {client_shm_name (getpid l)}"
    by (cases "client_shm_name (getpid l) \<in> shm_names os") (use assms in \<open>simp_all add: d Diff_triv split: if_splits\<close>, auto)
qed

lemma pending_snoc:
  assumes "registry_q (objs w') = registry_q (objs w) @ [e]"
  shows "pending w' pid = pending w pid @ (if reg_pid e = pid then [cmd e] else [])"
  using assms by (simp add: pending_def)

lemma init_step_ok:
  assumes ok: "world_ok sz p io A w as" and new: "procs w pid = None" "getpid l = pid" "\<not> INIT l" "finite (dom (q_heap (request_queue l)))"
    "start_ok env" "names_free (objs w) pid" "352 \<le> unat (sz pid)" "unat (sz pid) < 2 ^ 31"
    and call: "tinyfile_init (tinyfile_set_shm_size (sz pid) p) env (objs w) l = (0, os, l')"
    and w': "w' = w\<lparr>objs := os, procs := (procs w)(pid \<mapsto> started l' c (disk w))\<rparr>"
  shows "world_ok sz p io A w' as"
proof -
  note D = world_okD [OF ok]
  have "TINYFILE_REGISTRY_QUEUE \<in> mq_names (objs w)" using call new(3) by (auto simp: tinyfile_init_def api_errors split: if_splits)
  then have i: "getpid l' = pid" "registry_q os = registry_q (objs w) @ [registry_entry_of TINYFILE_CLIENT_REGISTER l]"
      "initial (tinyfile_set_shm_size (sz pid) p) (psys (started l' c (disk w)))"
    using session_initial [of env "objs w" l "sz pid" p c "disk w"] new call by (auto simp: started_def)
  have pr: "process_ok sz p io A (regs w) pid (started l' c (disk w))"
    using i(1) reachable.start [OF i(3)] by (simp add: process_ok_def started_def new_sys_def no_worker_busy_def)
  have "process_ok sz p io A (regs w') q qr" if "procs w' q = Some qr" for q qr
    using that pr D(3) by (auto simp: w' split: if_splits)
  moreover have "a \<in> set as \<longleftrightarrow> (\<exists>pid pr. procs w' pid = Some pr \<and> pnode pr = Some a)" for a
    unfolding D(4) using new(1) by (auto simp: w' started_def) (metis option.distinct(1))
  moreover have "pending w' q = messages_of (procs w' q)" for q
    using pending_snoc [of w' w "registry_entry_of TINYFILE_CLIENT_REGISTER l" q] i(2) D(5) [of q] new(1,2)
    by (auto simp: w' registry_entry_of_def messages_of_def started_def)
  ultimately show ?thesis using D(1,2) unfolding world_ok_def by (simp add: w')
qed

lemma exit_step_ok:
  assumes ok: "world_ok sz p io A w as" and pr: "procs w pid = Some pr" "\<not> exited pr"
    and call: "tinyfile_exit fuel env (objs w) (lib (psys pr)) = Inr (0, os, l')"
    and w': "w' = w\<lparr>objs := os, procs := (procs w)(pid \<mapsto> pr\<lparr>exited := True\<rparr>)\<rparr>"
  shows "world_ok sz p io A w' as"
proof -
  note D = world_okD [OF ok] and P = process_okD [OF world_okD(3) [OF ok pr(1)]]
  have "process_ok sz p io A (regs w) pid (pr\<lparr>exited := True\<rparr>)" using D(3) [OF pr(1)] by (auto simp: process_ok_def split: option.splits)
  then have "process_ok sz p io A (regs w') q qr" if "procs w' q = Some qr" for q qr
    using that D(3) by (auto simp: w' split: if_splits)
  moreover have "a \<in> set as \<longleftrightarrow> (\<exists>pid pr. procs w' pid = Some pr \<and> pnode pr = Some a)" for a
    unfolding D(4) using pr(1) by (auto simp: w') (metis option.inject)
  moreover have "pending w' q = messages_of (procs w' q)" for q
    using pending_snoc [of w' w "registry_entry_of TINYFILE_CLIENT_UNREGISTER (lib (psys pr))" q] exit_message(1) [OF call] D(5) [of q] pr(1,2) P(2)
    by (auto simp: w' registry_entry_of_def messages_of_def)
  ultimately show ?thesis using D(1,2) unfolding world_ok_def by (simp add: w')
qed

lemma outside_ok:
  assumes "outside sz p A w w'" "world_ok sz p io A w as"
  shows "world_ok sz p io A w' as"
  using assms(1)
proof cases
  case (init pid l env os l' c)
  then show ?thesis by (intro init_step_ok [OF assms(2)]) auto
next
  case (call pid pr s)
  note P = process_okD [OF world_okD(3) [OF assms(2) call(2)]]
  note k = external_keeps [OF call(4) reachable_inv [OF P(1)]]
  have "process_ok sz p io A (regs w') pid (pr\<lparr>psys := s\<rparr>)"
    using P k reachable.external [OF P(1) call(4)] by (auto simp: process_ok_def call(1) split: option.splits)
  then show ?thesis
    by (rule world_ok_update [OF assms(2) call(2), rotated 2]) (use world_okD(1) [OF assms(2)] in \<open>simp_all add: call(1)\<close>)
next
  case (exit pid pr fuel env os l')
  then show ?thesis by (intro exit_step_ok [OF assms(2)]) auto
next
  case (others st)
  then show ?thesis using assms(2) by (simp add: world_ok_def pending_def)
qed

lemma possible_ok: "possible sz p io A w \<Longrightarrow> \<exists>as. world_ok sz p io A w as"
proof (induction rule: possible_induct)
  case (start w)
  then have "world_ok sz p io A w []"
    by (simp add: world_ok_def world_start_def registry_ok_def registered_def pending_def messages_of_def)
  then show ?case by blast
next
  case (ends w ys)
  then show ?case by (simp add: world_ok_def pending_def)
qed (blast intro: runs_ok outside_ok registry_step_ok)+

text \<open>While the state is intact, the registry thread does not run into a freed node.\<close>

lemma registry_no_fault:
  assumes ok: "world_ok sz p io A w as" and q: "registry_q (objs w) = e # es" and ans: "answers (objs w) (regs w) e ans" and len: "length as < fuel"
  shows "registry_handler_step fuel ans (regs w) e \<noteq> Inl Invalid_access"
proof -
  let ?pid = "reg_pid e"
  note D = world_okD [OF ok]
  have pend: "pending w ?pid = cmd e # map cmd (filter (\<lambda>x. reg_pid x = ?pid) es)" using q by (simp add: pending_def)
  then obtain pr where pr: "procs w ?pid = Some pr" using D(5) [of ?pid] by (cases "procs w ?pid") (auto simp: messages_of_def)
  show ?thesis
  proof (cases "pnode pr")
    case None
    then have c: "cmd e = TINYFILE_CLIENT_REGISTER" using pend D(5) [of ?pid] pr by (simp add: messages_of_def)
    note new = unregistered_not_found [OF ok pr None]
    have f: "find_client fuel (regs w) ?pid = Inr None" by (rule find_registered(2) [OF D(1) len new])
    obtain b where b: "new_node ans = Some b" "c_heap (regs w) b = None" using ans by (auto simp: answers_def)
    have "register_client fuel ans (regs w) e \<noteq> Inl Invalid_access"
    proof (cases "open_recv_q ans = None \<or> open_send_q ans = None \<or> open_shm_size ans = None")
      case True
      then show ?thesis using f by (auto simp: register_client_def open_shm_def split: option.splits)
    next
      case False
      then obtain x y z where "ans = \<lparr>open_recv_q = Some x, open_send_q = Some y, open_shm_size = Some z, new_node = Some b, stack_client = stack_client ans\<rparr>"
        using b(1) by (cases ans) auto
      from register_client_new [OF D(1) len this b(2) new] show ?thesis by auto
    qed
    then show ?thesis using c by (auto simp: registry_handler_step_def cbind_def split: sum.splits)
  next
    case (Some a)
    then have c: "cmd e = TINYFILE_CLIENT_UNREGISTER" using pend D(5) [of ?pid] pr by (auto simp: messages_of_def split: if_splits)
    note P = process_okD [OF D(3) [OF pr]]
    obtain n where n: "c_heap (regs w) a = Some n" "cl_pid (client n) = ?pid" using P(4,5) [OF Some] by (auto simp: data_at_def)
    have "a \<in> set as" using D(4) pr Some by blast
    then obtain xs ys where as: "as = xs @ a # ys" by (meson split_list)
    have "unregister_client fuel (regs w) ?pid False \<noteq> Inl Invalid_access"
    proof (cases "xs \<noteq> [] \<or> ys = []")
      case True
      then show ?thesis
        using unregister_client_waits [OF D(1) [unfolded as] True n(1), of fuel False] unregister_client_known [OF D(1) [unfolded as] True _ _ n(1), of fuel False]
          len n(2) as by (cases "idle (c_heap (regs w)) a") auto
    next
      case False
      then obtain b ys' where "as = a # b # ys'" using as by (cases ys) auto
      then show ?thesis using unregister_first_steps [of "regs w" a b ys' n fuel] D(1) n len by (auto split: if_splits)
    qed
    then show ?thesis using c by (auto simp: registry_handler_step_def cbind_def split: sum.splits)
  qed
qed

text \<open>
  A client that has been registered leaves its cancelled workers behind, any of which may still read the freed node: \<^verbatim>\<open>cleanup_worker_threads\<close> does
  not join them.
\<close>

lemma leaving_leaves_orphans:
  assumes "registry_step w w'" "registry_q (objs w) = e # es" "leaving e" "procs w (reg_pid e) = Some pr" "pnode pr = Some a"
  shows "damage w' (w'\<lparr>intact := False\<rparr>)"
  using assms(1)
proof cases
  case (message e' es' ans fuel r)
  then have "a \<in> set (orphans w')" using assms(2-5) by (simp add: left_behind_def THREADS_PER_CLIENT_def)
  then show ?thesis by (rule damage.orphan_reads)
qed

text \<open>The list of clients is no longer than the number of processes.\<close>

lemma length_le_processes:
  assumes "world_ok sz p io A w as"
  shows "length as \<le> card (dom (procs w))"
proof -
  note D = world_okD [OF assms]
  let ?pid = "pid_at (c_heap (regs w))"
  have "?pid ` set as \<subseteq> dom (procs w)"
  proof
    fix x
    assume "x \<in> ?pid ` set as"
    then obtain a where a: "a \<in> set as" "x = ?pid a" by blast
    then obtain pid pr where pr: "procs w pid = Some pr" "pnode pr = Some a" using D(4) by blast
    then have "?pid a = pid" by (rule node_pid [OF assms])
    then show "x \<in> dom (procs w)" using pr(1) a(2) by auto
  qed
  then have "card (set (map ?pid as)) \<le> card (dom (procs w))" using D(2) by (simp add: card_mono)
  moreover have "card (set (map ?pid as)) = length as" using D(1) distinct_card [of "map ?pid as"] by (simp add: registry_ok_def)
  ultimately show ?thesis by simp
qed

end
