(* ===== verification/Tinyfile_Progress.thy ===== *)
theory Tinyfile_Progress
  imports Tinyfile_World
begin

text \<open>
  The whole system makes progress: the workers and the registry thread finish the calls of all clients, those of processes that the server has yet
  to register too. And what stops it: a client that leaves before its registration is read.
\<close>

section \<open>The objects of the operating system\<close>

text \<open>A process owns its three objects from \<^verbatim>\<open>tinyfile_init\<close> to \<^verbatim>\<open>tinyfile_exit\<close>; a message names the objects of its sender.\<close>

definition names_taken :: "os_state \<Rightarrow> int \<Rightarrow> bool" where
  "names_taken os pid \<longleftrightarrow> client_send_q_name pid \<in> mq_names os \<and> client_recv_q_name pid \<in> mq_names os \<and> client_shm_name pid \<in> shm_names os"

definition sent_by :: "tinyfile_registry_entry \<Rightarrow> bool" where
  "sent_by e \<longleftrightarrow> send_q_name e = client_send_q_name (reg_pid e) \<and> recv_q_name e = client_recv_q_name (reg_pid e) \<and> shm_name e = client_shm_name (reg_pid e)"

definition names_for :: "os_state \<Rightarrow> int \<Rightarrow> bool \<Rightarrow> bool" where
  "names_for os pid gone = (if gone then names_free os pid else names_taken os pid)"

definition objects_ok :: "world \<Rightarrow> bool" where
  "objects_ok w \<longleftrightarrow> finite (dom (c_heap (regs w))) \<and> (\<forall>e \<in> set (registry_q (objs w)). sent_by e)
     \<and> (\<forall>pid pr. procs w pid = Some pr \<longrightarrow> names_for (objs w) pid (exited pr))"

lemma objects_okD:
  assumes "objects_ok w"
  shows "finite (dom (c_heap (regs w)))" "\<And>e. e \<in> set (registry_q (objs w)) \<Longrightarrow> sent_by e"
    "\<And>pid pr. procs w pid = Some pr \<Longrightarrow> names_for (objs w) pid (exited pr)"
  using assms by (auto simp: objects_ok_def)

lemma names_for_cong:
  "(client_send_q_name pid \<in> mq_names os' \<longleftrightarrow> client_send_q_name pid \<in> mq_names os) \<Longrightarrow>
   (client_recv_q_name pid \<in> mq_names os' \<longleftrightarrow> client_recv_q_name pid \<in> mq_names os) \<Longrightarrow>
   (client_shm_name pid \<in> shm_names os' \<longleftrightarrow> client_shm_name pid \<in> shm_names os) \<Longrightarrow> names_for os' pid gone = names_for os pid gone"
  by (simp add: names_for_def names_taken_def names_free_def)

lemma registry_entry_sent_by [simp]: "sent_by (registry_entry_of c l)"
  by (simp add: sent_by_def registry_entry_of_def)

lemma names_inject [simp]:
  "client_send_q_name a = client_send_q_name b \<longleftrightarrow> a = b" "client_recv_q_name a = client_recv_q_name b \<longleftrightarrow> a = b"
  "client_shm_name a = client_shm_name b \<longleftrightarrow> a = b" "client_send_q_name a \<noteq> client_recv_q_name b" "client_recv_q_name a \<noteq> client_send_q_name b"
  by (auto simp: name_defs dest: show_pid_inject)

text \<open>The registry thread frees nodes and allocates at most one.\<close>

lemma assign_dom: "assign h a f = Inr h' \<Longrightarrow> finite (dom h') = finite (dom h)"
  by (auto simp: assign_def node_at_def cbind_eq_Inr_conv split: option.splits)

lemma append_client_dom: "append_client s a = Inr s' \<Longrightarrow> finite (dom (c_heap s')) = finite (dom (c_heap s))"
  by (auto simp: append_client_def cbind_eq_Inr_conv dest!: assign_dom split: option.splits)

lemma remove_client_dom: "remove_client s a = Inr s' \<Longrightarrow> finite (dom (c_heap s')) = finite (dom (c_heap s))"
  by (auto simp: remove_client_def cbind_eq_Inr_conv dest!: assign_dom split: option.splits if_splits)

lemma register_client_dom:
  assumes "register_client fuel os s e = Inr (Some (x, r))" "finite (dom (c_heap s))"
  shows "finite (dom (c_heap r))"
  using assms by (auto simp: register_client_def cbind_eq_Inr_conv dest!: assign_dom append_client_dom split: option.splits if_splits)

lemma send_pill_heap: "send_pill c s = Inr s' \<Longrightarrow> c_heap s' = c_heap s"
  by (auto simp: send_pill_def split: if_splits)

lemma unregister_client_dom:
  assumes "unregister_client fuel s pid cl = Inr (x, r)" "finite (dom (c_heap s))"
  shows "finite (dom (c_heap r))"
  using assms by (auto simp: unregister_client_def cleanup_worker_threads_def cbind_eq_Inr_conv Let_def
      dest!: remove_client_dom send_pill_heap split: option.splits if_splits)

lemma registry_handler_dom:
  assumes "registry_handler_step fuel os s e = Inr (Some r)" "finite (dom (c_heap s))"
  shows "finite (dom (c_heap r))"
  using assms
  by (auto simp: registry_handler_step_def cbind_eq_Inr_conv intro: register_client_dom unregister_client_dom
      split: tinyfile_registry_cmd.splits option.splits)

lemma work_left_srv [simp]: "work_left (s\<lparr>srv := c\<rparr>) = work_left s" "work_left (s\<lparr>srv_os := st\<rparr>) = work_left s"
  by (simp_all add: work_left_def work_def)

lemma after_message_exited:
  assumes "after_message e node r ps pid = Some pr"
  shows "\<exists>pr0. ps pid = Some pr0 \<and> exited pr = exited pr0 \<and> submitted (psys pr) = submitted (psys pr0) \<and> work_left (psys pr) = work_left (psys pr0)"
proof (cases "cmd e")
  case TINYFILE_CLIENT_REGISTER
  then show ?thesis using assms by (cases "ps (reg_pid e)") (auto simp: after_message_def split: if_splits)
qed (use assms in \<open>auto simp: after_message_def split: if_splits\<close>)

lemma objects_ok_step:
  assumes "objects_ok w" "objs w' = (objs w)\<lparr>registry_q := es\<rparr>" "set es \<subseteq> set (registry_q (objs w))" "finite (dom (c_heap (regs w')))"
    "\<And>pid pr. procs w' pid = Some pr \<Longrightarrow> \<exists>pr0. procs w pid = Some pr0 \<and> exited pr = exited pr0"
  shows "objects_ok w'"
proof -
  have "names_for (objs w') pid (exited pr)" if pr: "procs w' pid = Some pr" for pid pr
  proof -
    obtain pr0 where "procs w pid = Some pr0" "exited pr = exited pr0" using assms(5) pr by blast
    then show ?thesis using objects_okD(3) [OF assms(1)] names_for_cong [of pid "objs w'" "objs w"] assms(2) by simp
  qed
  then show ?thesis using objects_okD(2) [OF assms(1)] assms(2-4) unfolding objects_ok_def by auto
qed

text \<open>\<^verbatim>\<open>tinyfile_init\<close> and \<^verbatim>\<open>tinyfile_exit\<close> send a message and create or remove the objects of the caller.\<close>

lemma objects_ok_call:
  assumes "objects_ok w" "registry_q (objs w') = registry_q (objs w) @ [registry_entry_of c l]" "names_for (objs w') pid (exited pr)"
    "\<And>q gone. q \<noteq> pid \<Longrightarrow> names_for (objs w') q gone = names_for (objs w) q gone" "regs w' = regs w" "procs w' = (procs w)(pid \<mapsto> pr)"
  shows "objects_ok w'"
  using assms by (auto simp: objects_ok_def)

lemma runs_exited:
  assumes "runs io w w'" "procs w' pid = Some pr"
  shows "\<exists>pr0. procs w pid = Some pr0 \<and> exited pr = exited pr0 \<and> pnode pr = pnode pr0"
  using assms by cases (auto split: if_splits)

lemma objects_ok_outside:
  assumes "outside sz p A w w'" "objects_ok w" "world_ok sz p io A w as"
  shows "objects_ok w'"
  using assms(1)
proof cases
  case (init pid l env os l' c)
  have "TINYFILE_REGISTRY_QUEUE \<in> mq_names (objs w)" using init(4,10) by (auto simp: tinyfile_init_def api_errors split: if_splits)
  then have os: "os = \<lparr>mq_names = {client_recv_q_name pid, client_send_q_name pid} \<union> mq_names (objs w),
      shm_names = insert (client_shm_name pid) (shm_names (objs w)), registry_q = registry_q (objs w) @ [registry_entry_of TINYFILE_CLIENT_REGISTER l]\<rparr>"
    using session_initial [of env "objs w" l "sz pid" p c "disk w"] init by auto
  show ?thesis
    by (rule objects_ok_call [OF assms(2), where l = l and pid = pid and pr = "started l' c (disk w)"])
      (simp_all add: init(1) os started_def names_for_def names_taken_def names_free_def)
next
  case (call pid pr s)
  show ?thesis by (rule objects_ok_step [OF assms(2), where es = "registry_q (objs w)"])
    (use call objects_okD(1) [OF assms(2)] in \<open>auto split: if_splits\<close>)
next
  case (exit pid pr fuel env os l')
  have "getpid (lib (psys pr)) = pid" using process_okD(2) [OF world_okD(3) [OF assms(3) exit(2)]] .
  then show ?thesis
    by (intro objects_ok_call [OF assms(2), where l = "lib (psys pr)" and pid = pid and pr = "pr\<lparr>exited := True\<rparr>"])
      (simp_all add: exit(1) exit_message [OF exit(4)] names_for_def names_taken_def names_free_def)
next
  case (others st)
  then show ?thesis using assms(2) by (simp add: objects_ok_def)
qed

lemma objects_ok_registry:
  assumes "registry_step w w'" "objects_ok w"
  shows "objects_ok w'"
  using assms(1)
proof cases
  case (message e es ans fuel r)
  have "finite (dom (c_heap r))" using registry_handler_dom [OF message(4)] objects_okD(1) [OF assms(2)] .
  then show ?thesis
    by (intro objects_ok_step [OF assms(2), where es = es]) (use message(2) in \<open>auto simp: message(1) dest: after_message_exited\<close>)
qed

lemma objects_ok_runs:
  assumes "runs io w w'" "objects_ok w"
  shows "objects_ok w'"
proof -
  have "objs w' = (objs w)\<lparr>registry_q := registry_q (objs w)\<rparr>" "dom (c_heap (regs w')) = dom (c_heap (regs w))"
    using assms(1) by (cases; auto)+
  then show ?thesis
    by (intro objects_ok_step [OF assms(2), where es = "registry_q (objs w)"]) (use assms objects_okD(1) runs_exited in \<open>auto, blast+\<close>)
qed

lemma possible_objects: "possible sz p io A w \<Longrightarrow> objects_ok w"
proof (induction rule: possible_induct)
  case (start w)
  then show ?case by (simp add: world_start_def objects_ok_def)
next
  case (ends w ys)
  then show ?case by (simp add: objects_ok_def)
qed (use possible_ok in \<open>blast intro: objects_ok_runs objects_ok_registry objects_ok_outside\<close>)+

section \<open>The first message\<close>

lemma first_message:
  assumes "world_ok sz p io A w as" "registry_q (objs w) = e # es"
  obtains pr cs where "procs w (reg_pid e) = Some pr" "messages_of (Some pr) = cmd e # cs"
proof -
  have "pending w (reg_pid e) = cmd e # map cmd (filter (\<lambda>x. reg_pid x = reg_pid e) es)" using assms(2) by (simp add: pending_def)
  then show ?thesis using world_okD(5) [OF assms(1), of "reg_pid e"] that by (cases "procs w (reg_pid e)") (auto simp: messages_of_def)
qed

section \<open>Progress\<close>

definition serves :: "io \<Rightarrow> world \<Rightarrow> world \<Rightarrow> bool" where
  "serves io w w' \<longleftrightarrow> runs io w w' \<or> registry_step w w'"

definition world_work :: "world \<Rightarrow> nat" where
  "world_work w = (\<Sum>pid \<in> dom (procs w). work_left (psys (the (procs w pid)))) + length (registry_q (objs w))"

lemma sum_upd_less:
  fixes f :: "'b \<Rightarrow> nat"
  assumes "finite (dom m)" "m k = Some x" "f y < f x"
  shows "(\<Sum>i \<in> dom (m(k \<mapsto> y)). f (the ((m(k \<mapsto> y)) i))) < (\<Sum>i \<in> dom m. f (the (m i)))"
proof -
  have "dom (m(k \<mapsto> y)) = dom m" using assms(2) by auto
  moreover have "(\<Sum>i \<in> dom m. f (the ((m(k \<mapsto> y)) i))) < (\<Sum>i \<in> dom m. f (the (m i)))"
    by (rule sum_strict_mono_ex1) (use assms in \<open>auto intro!: bexI [of _ k]\<close>)
  ultimately show ?thesis by simp
qed

lemma runs_work:
  assumes "runs io w w'" "world_ok sz p io A w as"
  shows "world_work w' < world_work w"
  using assms(1)
proof cases
  case (library pid pr s)
  have "work_left s < work_left (psys pr)"
    using internal_work(1) [OF internal.library [OF library(4)] reachable_inv [OF process_okD(1) [OF world_okD(3) [OF assms(2) library(2)]]]] .
  then show ?thesis
    using sum_upd_less [of "procs w" pid pr "\<lambda>pr. work_left (psys pr)" "pr\<lparr>psys := s\<rparr>"] world_okD(2) [OF assms(2)] library(2)
    by (simp add: world_work_def library(1))
next
  case (server pid pr a n s)
  note P = process_okD [OF world_okD(3) [OF assms(2) server(2)]]
  have "client n = srv (psys pr)" using P(4) [OF server(3)] server(4) by (simp add: data_at_def)
  then have "internal io ((psys pr)\<lparr>srv_os := disk w\<rparr>) s" using internal.worker [OF server(5)] by simp
  then have "work_left s < work_left (psys pr)" using internal_work(1) [OF _ reachable_inv [OF reachable.environment [OF P(1)]]] by fastforce
  then show ?thesis
    using sum_upd_less [of "procs w" pid pr "\<lambda>pr. work_left (psys pr)" "pr\<lparr>psys := s\<rparr>"] world_okD(2) [OF assms(2)] server(2)
    by (simp add: world_work_def server(1))
qed

lemma registry_work:
  assumes "registry_step w w'" "finite (dom (procs w))"
  shows "world_work w' < world_work w"
  using assms(1)
proof cases
  case (message e es ans fuel r)
  let ?ps = "after_message e (new_node ans) r (procs w)"
  have "(\<Sum>pid \<in> dom ?ps. work_left (psys (the (?ps pid)))) \<le> (\<Sum>pid \<in> dom (procs w). work_left (psys (the (procs w pid))))"
  proof -
    have "(\<Sum>pid \<in> dom ?ps. work_left (psys (the (?ps pid)))) = (\<Sum>pid \<in> dom ?ps. work_left (psys (the (procs w pid))))"
      by (rule sum.cong) (use after_message_exited in fastforce)+
    also have "\<dots> \<le> (\<Sum>pid \<in> dom (procs w). work_left (psys (the (procs w pid))))"
      by (rule sum_mono2) (use assms(2) after_message_exited in fastforce)+
    finally show ?thesis .
  qed
  then show ?thesis using message(2) by (simp add: world_work_def message(1))
qed

text \<open>While nobody has left, no process is removed and no call is forgotten.\<close>

definition same_calls :: "world \<Rightarrow> world \<Rightarrow> bool" where
  "same_calls w w' \<longleftrightarrow> (\<forall>pid pr. procs w pid = Some pr \<longrightarrow>
     (\<exists>pr'. procs w' pid = Some pr' \<and> exited pr' = exited pr \<and> submitted (psys pr') = submitted (psys pr)))"

lemma runs_same_calls:
  assumes "runs io w w'" "world_ok sz p io A w as"
  shows "same_calls w w'"
  using assms(1)
proof cases
  case (library pid pr s)
  have "submitted s = submitted (psys pr)"
    using internal_work(2) [OF internal.library [OF library(4)] reachable_inv [OF process_okD(1) [OF world_okD(3) [OF assms(2) library(2)]]]] .
  then show ?thesis using library(2) by (simp add: same_calls_def library(1))
next
  case (server pid pr a n s)
  from server(5) have "submitted s = submitted (psys pr)" by cases simp_all
  then show ?thesis using server(2) by (simp add: same_calls_def server(1))
qed

definition nobody_left :: "world \<Rightarrow> bool" where
  "nobody_left w \<longleftrightarrow> (\<forall>pr \<in> ran (procs w). \<not> exited pr)"

lemma first_registers:
  assumes "world_ok sz p io A w as" "registry_q (objs w) = e # es" "nobody_left w"
  obtains pr where "procs w (reg_pid e) = Some pr" "pnode pr = None" "\<not> exited pr" "cmd e = TINYFILE_CLIENT_REGISTER"
proof -
  obtain pr cs where pr: "procs w (reg_pid e) = Some pr" "messages_of (Some pr) = cmd e # cs" using first_message [OF assms(1,2)] .
  then have "\<not> exited pr" using assms(3) by (auto simp: nobody_left_def ran_def)
  then show ?thesis using that pr by (auto simp: messages_of_def split: if_splits)
qed

lemma registry_same_calls:
  assumes "registry_step w w'" "world_ok sz p io A w as" "nobody_left w"
  shows "same_calls w w'"
  using assms(1)
proof cases
  case (message e es ans fuel r)
  obtain pr where "procs w (reg_pid e) = Some pr" "cmd e = TINYFILE_CLIENT_REGISTER"
    using first_registers [OF assms(2) message(2) assms(3)] by blast
  then show ?thesis by (auto simp: same_calls_def message(1) after_message_def)
qed

lemma same_calls_nobody_left:
  assumes "serves io w w'" "nobody_left w"
  shows "nobody_left w'"
proof -
  have "\<exists>pr0. procs w pid = Some pr0 \<and> exited pr = exited pr0" if "procs w' pid = Some pr" for pid pr
    using assms(1) unfolding serves_def
  proof
    assume "runs io w w'"
    from runs_exited [OF this that] show ?thesis by blast
  next
    assume "registry_step w w'"
    then show ?thesis by cases (use that in \<open>auto dest: after_message_exited\<close>)
  qed
  then show ?thesis using assms(2) by (fastforce simp: nobody_left_def ran_def)
qed

lemma registry_intact:
  assumes "registry_step w w'" "world_ok sz p io A w as" "nobody_left w"
  shows "intact w' = intact w"
  using assms(1)
proof cases
  case (message e es ans fuel r)
  obtain pr where "cmd e = TINYFILE_CLIENT_REGISTER" using first_registers [OF assms(2) message(2) assms(3)] .
  then have "\<not> leaves_damage w e" by (simp add: leaves_damage_def leaving_def)
  then show ?thesis by (simp add: message(1))
qed

lemma serves_possible:
  assumes "serves io w w'" "possible sz p io A w" "nobody_left w"
  shows "possible sz p io A w'"
proof -
  obtain as where ok: "world_ok sz p io A w as" using possible_ok [OF assms(2)] by blast
  then have "registry_step w w' \<Longrightarrow> intact w'" using registry_intact [OF _ ok assms(3)] assms(2) by (simp add: possible_def)
  then show ?thesis using assms(1,2) possible_runs possible_registry unfolding serves_def by blast
qed

lemma serves_work:
  assumes "serves io w w'" "possible sz p io A w"
  shows "world_work w' < world_work w"
  using assms possible_ok [OF assms(2)] runs_work registry_work world_okD(2) unfolding serves_def by blast

lemma serves_same_calls:
  assumes "serves io w w'" "possible sz p io A w" "nobody_left w"
  shows "same_calls w w'"
  using assms possible_ok [OF assms(2)] runs_same_calls registry_same_calls unfolding serves_def by blast

lemma same_calls_trans: "same_calls w w' \<Longrightarrow> same_calls w' w'' \<Longrightarrow> same_calls w w''"
  unfolding same_calls_def by metis

lemma serves_dom: "(serves io)\<^sup>*\<^sup>* w w' \<Longrightarrow> dom (procs w') \<subseteq> dom (procs w)"
proof (induction rule: rtranclp_induct)
  case (step w' w'')
  have "dom (procs w'') \<subseteq> dom (procs w')" if "runs io w' w''" using runs_exited [OF that] by blast
  moreover have "dom (procs w'') \<subseteq> dom (procs w')" if "registry_step w' w''"
    using that by cases (auto dest: after_message_exited)
  ultimately show ?case using step(2,3) unfolding serves_def by (meson order_trans)
qed simp

interpretation whole: ending_runs "serves io" "\<lambda>w. possible sz p io A w \<and> nobody_left w" world_work for sz p io A
  by unfold_locales (auto intro: serves_possible serves_work same_calls_nobody_left)

lemma serves_run:
  assumes "(serves io)\<^sup>*\<^sup>* w w'" "possible sz p io A w" "nobody_left w"
  shows "possible sz p io A w' \<and> nobody_left w' \<and> same_calls w w'"
  using assms
proof (induction rule: rtranclp_induct)
  case base
  then show ?case by (simp add: same_calls_def)
next
  case (step w' w'')
  then show ?case using serves_possible serves_same_calls same_calls_nobody_left same_calls_trans by blast
qed

text \<open>A registration can be handled as long as its sender is there.\<close>

lemma registration_moves:
  assumes "world_ok sz p io A w as" "objects_ok w" "registry_q (objs w) = e # es" "nobody_left w"
  shows "\<exists>w'. registry_step w w'"
proof -
  obtain pr where pr: "procs w (reg_pid e) = Some pr" "pnode pr = None" "\<not> exited pr" "cmd e = TINYFILE_CLIENT_REGISTER"
    using first_registers [OF assms(1,3,4)] .
  note O = objects_okD [OF assms(2)]
  obtain b where b: "c_heap (regs w) b = None" using ex_new_if_finite [OF infinite_UNIV_nat O(1)] by auto
  define ans where "ans = \<lparr>open_recv_q = Some 3, open_send_q = Some 4, open_shm_size = Some 704, new_node = Some b, stack_client = example_client_record\<rparr>"
  have a: "answers (objs w) (regs w) e ans"
    using O(3) [OF pr(1)] O(2) [of e] assms(3) pr(3) b unfolding answers_def names_for_def names_taken_def sent_by_def by (simp add: ans_def)
  obtain r where "register_client (Suc (length as)) ans (regs w) e = Inr (Some (0, r))"
    using register_client_new [OF world_okD(1) [OF assms(1)] _ ans_def b unregistered_not_found [OF assms(1) pr(1,2)], of "Suc (length as)"] by auto
  then have "registry_handler_step (Suc (length as)) ans (regs w) e = Inr (Some r)" using pr(4) by (simp add: registry_handler_step_def)
  from registry_step.message [OF assms(3) a this] show ?thesis by blast
qed

text \<open>The workers of a registered client can move as in the system of the client and the server alone.\<close>

lemma library_step_os:
  assumes "library_step (s\<lparr>srv_os := st\<rparr>) s'"
  shows "\<exists>s''. library_step s s''"
  using assms
proof cases
  case (enqueue xs req ys mem fuel l)
  then show ?thesis using library_step.enqueue [of s xs req ys mem fuel l] by fastforce
next
  case (dequeue req q)
  then show ?thesis using library_step.dequeue [of s req q] by fastforce
next
  case (send req q)
  then show ?thesis using library_step.send [of s req q] by fastforce
qed

lemma registered_moves:
  assumes "world_ok sz p io A w as" "procs w pid = Some pr" "\<not> exited pr" "pnode pr = Some a" "internal io ((psys pr)\<lparr>srv_os := disk w\<rparr>) s"
  shows "\<exists>w'. runs io w w'"
  using assms(5)
proof cases
  case library
  then show ?thesis using library_step_os runs.library [OF assms(2,3)] by blast
next
  case worker
  obtain n where n: "c_heap (regs w) a = Some n" "client n = srv (psys pr)"
    using process_okD(4) [OF world_okD(3) [OF assms(1,2)] assms(4)] by (auto simp: data_at_def)
  then have "worker_step io ((psys pr)\<lparr>srv := client n, srv_os := disk w\<rparr>) s" using worker by simp
  then show ?thesis using runs.server [OF assms(2,4) n(1)] by blast
qed

lemma stuck_world_done:
  assumes "possible sz p io A w" "nobody_left w" "\<nexists>w'. serves io w w'" "\<forall>pid. service_returns io (A pid)"
  shows "registry_q (objs w) = []"
    "procs w pid = Some pr \<Longrightarrow> pnode pr \<noteq> None \<and> (\<forall>i \<in> dom (submitted (psys pr)). \<exists>out l. is_request_done i (lib (psys pr)) = Inr (Some out, l))"
proof -
  obtain as where ok: "world_ok sz p io A w as" using possible_ok [OF assms(1)] by blast
  show q: "registry_q (objs w) = []"
  proof (cases "registry_q (objs w)")
    case (Cons e es)
    then show ?thesis using registration_moves [OF ok possible_objects [OF assms(1)] _ assms(2)] assms(3) by (auto simp: serves_def)
  qed
  assume pr: "procs w pid = Some pr"
  have "messages_of (Some pr) = []" using world_okD(5) [OF ok, of pid] q pr by (simp add: pending_def)
  then obtain a where a: "pnode pr = Some a" by (auto simp: messages_of_def split: if_splits)
  have "\<not> exited pr" using assms(2) pr by (auto simp: nobody_left_def ran_def)
  then have "\<nexists>s. internal io ((psys pr)\<lparr>srv_os := disk w\<rparr>) s" using registered_moves [OF ok pr _ a] assms(3) by (auto simp: serves_def)
  from stuck_calls_done [OF reachable.environment [OF process_okD(1) [OF world_okD(3) [OF ok pr]]] _ this] assms(4)
  show "pnode pr \<noteq> None \<and> (\<forall>i \<in> dom (submitted (psys pr)). \<exists>out l. is_request_done i (lib (psys pr)) = Inr (Some out, l))"
    using a by simp
qed

section \<open>A client and its call, for the witnesses\<close>

definition empty_registry :: registry where
  "empty_registry = \<lparr>c_heap = Map.empty, clients = None, sent = [], stop_registry = False, full_queues = {}, closed_queues = [], cancelled = [],
     unmapped = [], send_errors = []\<rparr>"

definition first_client :: "int \<Rightarrow> u64" where "first_client pid = 704"

lemma start_possible: "possible sz p io A \<lparr>objs = server_running, regs = empty_registry, procs = Map.empty, disk = st, intact = True, orphans = []\<rparr>"
  by (rule possible_start) (simp add: world_start_def empty_registry_def server_running_def)

text \<open>Process 7 has called \<^verbatim>\<open>tinyfile_init\<close>.\<close>

definition joined :: os_state where
  "joined = \<lparr>mq_names = {client_recv_q_name 7, client_send_q_name 7} \<union> mq_names server_running,
     shm_names = insert (client_shm_name 7) (shm_names server_running), registry_q = [registry_entry_of TINYFILE_CLIENT_REGISTER new_process]\<rparr>"

lemma new_process_pid [simp]: "getpid new_process = 7"
  by (simp add: new_process_def example_api_def)

lemma joined_possible:
  obtains l where "\<And>io A. possible first_client default_params io A
        \<lparr>objs = joined, regs = empty_registry, procs = [7 \<mapsto> started l example_client_record st], disk = st, intact = True, orphans = []\<rparr>"
    "initial (tinyfile_set_shm_size 704 default_params) (psys (started l example_client_record st))"
    "INIT l" "getpid l = 7" "global_request_id l = 0"
proof -
  obtain l where l: "tinyfile_init (tinyfile_set_shm_size 704 default_params) example_start server_running new_process = (0, joined, l)" "INIT l" "getpid l = 7"
      "initial (tinyfile_set_shm_size 704 default_params) (psys (started l example_client_record st))"
    using session_initial [OF example_session(1-3,5), of 704 default_params example_client_record st]
    by (auto simp: joined_def started_def server_running_def new_process_def example_api_def)
  have "global_request_id l = 0" using l(1,2) by (auto simp: tinyfile_init_def api_errors split: if_splits prod.splits)
  moreover have "possible first_client default_params io A
      \<lparr>objs = joined, regs = empty_registry, procs = [7 \<mapsto> started l example_client_record st], disk = st, intact = True, orphans = []\<rparr>" for io A
  proof (rule possible_outside [OF start_possible])
    let ?w = "\<lparr>objs = server_running, regs = empty_registry, procs = Map.empty, disk = st, intact = True, orphans = []\<rparr>"
    have "outside first_client default_params A ?w (?w\<lparr>objs := joined, procs := (procs ?w)(7 \<mapsto> started l example_client_record (disk ?w))\<rparr>)"
      by (rule outside.init [where l = new_process and env = example_start])
        (use l(1) example_session in \<open>simp_all add: first_client_def new_process_def example_api_def\<close>)
    then show "outside first_client default_params A ?w
        \<lparr>objs = joined, regs = empty_registry, procs = [7 \<mapsto> started l example_client_record st], disk = st, intact = True, orphans = []\<rparr>" by simp
  qed
  ultimately show ?thesis using that l by blast
qed

text \<open>A new session has room for a call.\<close>

lemma initial_submits:
  assumes "initial p s" "a \<in> A" "global_request_id (lib s) = 0"
  shows "\<exists>s'. (external p A)\<^sup>*\<^sup>* s s' \<and> submitted s' = [0 \<mapsto> a]"
proof -
  let ?l = "(lib s)\<lparr>global_request_id := global_request_id (lib s) + 1\<rparr>"
  have ok: "api_ok ?l" "new_shm_size p ?l > size_t (TINYFILE_SHM_MAX_SIZE p)" "0 < length (shm ?l)" "\<forall>e \<in> set (shm ?l). used e = 0"
    using assms(1) by (auto simp: initial_def api_ok_def new_shm_size_def)
  have "used (shm ?l ! 0) = 0" using ok(3,4) nth_mem by blast
  then have "find_shared_entry (Suc 0) p failing_env a ?l = Inr (0, claim a 0 ?l)"
    using look_entry_fixed [OF ok(1-3)] unfolding find_shared_entry_def entries_in_ok [OF ok(1)] find_entry_loop.simps by simp
  then obtain r l where "prepare_request (Suc 0) p failing_env a 0 1 (lib s) = Inr (0, Some r, l)" "entry_idx r = 0"
    by (simp add: prepare_request_def Let_def)
  moreover have "submitted s = Map.empty" "searching s = None" using assms(1) by (simp_all add: initial_def)
  ultimately show ?thesis using prepare_request_steps [of "Suc 0" p failing_env a 0 1 s r l A] assms(2,3) by fastforce
qed

text \<open>The calls of one process are steps of the whole system.\<close>

lemma calls_possible:
  assumes "(external (tinyfile_set_shm_size (sz pid) p) (A pid))\<^sup>*\<^sup>* s s'" "possible sz p io A (w\<lparr>procs := [pid \<mapsto> pr\<lparr>psys := s\<rparr>]\<rparr>)" "\<not> exited pr"
  shows "possible sz p io A (w\<lparr>procs := [pid \<mapsto> pr\<lparr>psys := s'\<rparr>]\<rparr>)"
  using assms(1,2)
proof (induction rule: rtranclp_induct)
  case (step t u)
  have "outside sz p A (w\<lparr>procs := [pid \<mapsto> pr\<lparr>psys := t\<rparr>]\<rparr>) (w\<lparr>procs := [pid \<mapsto> pr\<lparr>psys := u\<rparr>]\<rparr>)"
    using outside.call [of "w\<lparr>procs := [pid \<mapsto> pr\<lparr>psys := t\<rparr>]\<rparr>" pid "pr\<lparr>psys := t\<rparr>" sz p A u] assms(3) step(2) by simp
  then show ?case using possible_outside step by blast
qed simp

lemma submitted_possible:
  obtains s where "\<And>io. possible first_client default_params io (\<lambda>_. {a})
        \<lparr>objs = joined, regs = empty_registry, procs = [7 \<mapsto> \<lparr>psys = s, pnode = None, exited = False\<rparr>], disk = st, intact = True, orphans = []\<rparr>"
    "submitted s = [0 \<mapsto> a]"
proof -
  obtain l where l: "\<And>io. possible first_client default_params io (\<lambda>_. {a})
        \<lparr>objs = joined, regs = empty_registry, procs = [7 \<mapsto> started l example_client_record st], disk = st, intact = True, orphans = []\<rparr>"
      "initial (tinyfile_set_shm_size 704 default_params) (psys (started l example_client_record st))" "global_request_id l = 0"
    by (rule joined_possible [of st]) blast
  obtain s where s: "(external (tinyfile_set_shm_size 704 default_params) {a})\<^sup>*\<^sup>* (psys (started l example_client_record st)) s" "submitted s = [0 \<mapsto> a]"
    using initial_submits [OF l(2), of a "{a}"] l(3) by (auto simp: started_def new_sys_def)
  let ?w = "\<lparr>objs = joined, regs = empty_registry, procs = [7 \<mapsto> started l example_client_record st], disk = st, intact = True, orphans = []\<rparr>"
  have "possible first_client default_params io (\<lambda>_. {a}) (?w\<lparr>procs := [7 \<mapsto> (started l example_client_record st)\<lparr>psys := s\<rparr>]\<rparr>)" for io
    by (rule calls_possible [where s = "psys (started l example_client_record st)"])
      (use s(1) l(1) [of io] in \<open>simp_all add: first_client_def started_def\<close>)
  then show ?thesis using s(2) by (intro that [of s]) (simp_all add: started_def)
qed

text \<open>A run of the whole system until nothing is left to do.\<close>

lemma served_possible:
  obtains w pr b where "possible first_client default_params (example_io\<lparr>seek_end_ok := False\<rparr>) (\<lambda>_. {arg zero_entry}) w"
    "procs w 7 = Some pr" "pnode pr = Some b" "card (dom (procs w)) < 2"
proof -
  let ?io = "example_io\<lparr>seek_end_ok := False\<rparr>" and ?A = "\<lambda>_ :: int. {arg zero_entry}"
  obtain s where w: "possible first_client default_params ?io ?A
      \<lparr>objs = joined, regs = empty_registry, procs = [7 \<mapsto> \<lparr>psys = s, pnode = None, exited = False\<rparr>], disk = example_os ''a'' [65], intact = True, orphans = []\<rparr>"
    using submitted_possible [of "arg zero_entry" "example_os ''a'' [65]"] by blast
  let ?w = "\<lparr>objs = joined, regs = empty_registry, procs = [7 \<mapsto> \<lparr>psys = s, pnode = None, exited = False\<rparr>], disk = example_os ''a'' [65], intact = True, orphans = []\<rparr>"
  have n: "nobody_left ?w" by (simp add: nobody_left_def ran_def)
  obtain w' where w': "(serves ?io)\<^sup>*\<^sup>* ?w w'" "\<nexists>w''. serves ?io w' w''"
    using whole.complete_run [of first_client default_params ?io ?A ?w] w n by blast
  have r: "possible first_client default_params ?io ?A w'" "nobody_left w'" "same_calls ?w w'" using serves_run [OF w'(1) w n] by blast+
  have "\<exists>pr. procs w' 7 = Some pr" using r(3) [unfolded same_calls_def, rule_format, of 7] by auto
  then obtain pr where pr: "procs w' 7 = Some pr" ..
  then obtain b where b: "pnode pr = Some b"
    using stuck_world_done(2) [OF r(1,2) w'(2) _ pr] failing_seek_returns by blast
  have "card (dom (procs w')) \<le> card (dom (procs ?w))" using serves_dom [OF w'(1)] by (intro card_mono) auto
  then show ?thesis using that r(1) pr b by simp
qed

end
