(* ===== verification/Sample_Client.thy ===== *)
theory Sample_Client
  imports Client_Session Server_Worker Getopt
begin

text \<open>
  The sample client \<^verbatim>\<open>client.c\<close>: its options, the list of files, the requests and the measured time. The contents of the list file, the clock and
  what other threads and the server do are arguments. A local variable that has not been set is \<^verbatim>\<open>None\<close>.
\<close>

section \<open>Options\<close>

record client_opts =
  file_path :: "string option"
  file_list_path :: "string option"
  file_list :: bool
  call_method :: "char option"
  opt_params :: params

definition no_opts :: client_opts where
  "no_opts = \<lparr>file_path = None, file_list_path = None, file_list = False, call_method = None, opt_params = default_params\<rparr>"

text \<open>\<^verbatim>\<open>strtol(s, \&ptr, 10)\<close>: white space, a sign and digits; a value out of range is cut to \<^verbatim>\<open>LONG_MIN\<close> or \<^verbatim>\<open>LONG_MAX\<close>.\<close>

definition is_space :: "char \<Rightarrow> bool" where
  "is_space c \<longleftrightarrow> of_char c \<in> {9, 10, 11, 12, 13, 32 :: nat}"

definition is_digit :: "char \<Rightarrow> bool" where
  "is_digit c \<longleftrightarrow> 48 \<le> (of_char c :: nat) \<and> (of_char c :: nat) \<le> 57"

definition strtol :: "string \<Rightarrow> int" where
  "strtol s =
    (let s = dropWhile is_space s;
         (neg, s) = (case s of c # cs \<Rightarrow> if c = CHR ''-'' then (True, cs) else if c = CHR ''+'' then (False, cs) else (False, s)
                     | [] \<Rightarrow> (False, []));
         n = int (read_digits (takeWhile is_digit s)) in
     if neg then max (- (2 ^ 63)) (- n) else min (2 ^ 63 - 1) n)"

text \<open>One round of the \<^verbatim>\<open>switch\<close>; \<^verbatim>\<open>None\<close> is \<^verbatim>\<open>abort()\<close>.\<close>

definition client_option :: "char \<times> string \<Rightarrow> client_opts \<Rightarrow> client_opts option c_result" where
  "client_option opt co =
    (case opt of (c, optarg) \<Rightarrow>
     if c = CHR ''f'' then cbind (strcpy_path optarg) (\<lambda>path. Inr (Some (co\<lparr>file_path := Some path\<rparr>)))
     else if c = CHR ''l'' then
       cbind (strcpy_path optarg) (\<lambda>path. Inr (Some (co\<lparr>file_list := True, file_list_path := Some path\<rparr>)))
     else if c = CHR ''s'' then
       Inr (Some (if optarg = ''ASYNC'' then co\<lparr>call_method := Some (CHR ''a'')\<rparr>
                  else if optarg = ''SYNC'' then co\<lparr>call_method := Some (CHR ''s'')\<rparr>
                  else co))
     else if c = CHR ''m'' then
       Inr (Some (co\<lparr>opt_params := tinyfile_set_shm_size (word_of_int (strtol optarg)) (opt_params co)\<rparr>))
     else Inr None)"

fun client_options :: "(char \<times> string) list \<Rightarrow> client_opts \<Rightarrow> client_opts option c_result" where
  "client_options [] co = Inr (Some co)"
| "client_options (opt # opts) co =
     cbind (client_option opt co) (\<lambda>r. case r of None \<Rightarrow> Inr None | Some co \<Rightarrow> client_options opts co)"

definition long_options :: long_opts where
  "long_options = [(''file'', required_argument, CHR ''f''), (''files'', required_argument, CHR ''l''), (''state'', required_argument, CHR ''s''),
     (''sms_size'', required_argument, CHR ''m'')]"

section \<open>The list of files\<close>

definition newline :: char where "newline = CHR 0x0A"

text \<open>The loop over \<^verbatim>\<open>fgetc\<close>.\<close>

definition count_lines :: "string \<Rightarrow> nat" where
  "count_lines cs = length (filter (\<lambda>c. c = newline) cs)"

text \<open>\<^verbatim>\<open>getline\<close>: up to and including the next newline, or what is left; \<^verbatim>\<open>None\<close> is \<^verbatim>\<open>-1\<close>.\<close>

definition getline :: "string \<Rightarrow> (string \<times> string) option" where
  "getline cs =
     (if cs = [] then None
      else let line = takeWhile (\<lambda>c. c \<noteq> newline) cs; rest = dropWhile (\<lambda>c. c \<noteq> newline) cs in
        Some (line @ take 1 rest, drop 1 rest))"

text \<open>\<^verbatim>\<open>line[strcspn(line, "\n")] = 0\<close> and reading \<^verbatim>\<open>line\<close> as a string.\<close>

definition chomp :: "string \<Rightarrow> string" where
  "chomp line = takeWhile (\<lambda>c. c \<noteq> newline \<and> c \<noteq> CHR 0x00) line"

text \<open>The loop that fills \<^verbatim>\<open>args\<close>, an array of \<open>lines\<close> elements; \<open>paths\<close> are those filled already.\<close>

function fill_args :: "nat \<Rightarrow> string list \<Rightarrow> string \<Rightarrow> string list c_result" where
  "fill_args lines paths cs =
     (case getline cs of
        None \<Rightarrow> Inr paths
      | Some (line, rest) \<Rightarrow>
          if length paths < lines then
            cbind (strcpy_path (chomp line)) (\<lambda>path. fill_args lines (paths @ [path]) rest)
          else Inl Invalid_access)"
  by pat_completeness auto
termination
proof (relation "measure (\<lambda>(lines, paths, cs). length cs)", simp)
  fix lines paths cs p line rest path
  assume "getline cs = Some p" "(line, rest) = p"
  then have g: "cs \<noteq> []" "rest = drop 1 (dropWhile (\<lambda>c. c \<noteq> newline) cs)"
    by (auto simp: getline_def Let_def split: if_splits)
  have "length (dropWhile (\<lambda>c. c \<noteq> newline) cs) \<le> length cs" by (rule length_dropWhile_le)
  moreover have "0 < length cs" using g(1) by simp
  ultimately have "length rest < length cs" unfolding g(2) length_drop by linarith
  then show "((lines, paths @ [path], rest), lines, paths, cs) \<in> measure (\<lambda>(lines, paths, cs). length cs)" by simp
qed

declare fill_args.simps [simp del]

definition read_file_list :: "string \<Rightarrow> string list c_result" where
  "read_file_list cs = fill_args (count_lines cs) [] cs"

section \<open>Requests\<close>

text \<open>\<^verbatim>\<open>diff_msec\<close>: the quotient by \<^verbatim>\<open>1000000.0\<close> is cut towards zero; a \<^verbatim>\<open>double\<close> holds it closely enough for that.\<close>

definition diff_msec :: "int \<times> int \<Rightarrow> int \<times> int \<Rightarrow> int" where
  "diff_msec ts1 ts2 =
    (let sec = fst ts2 - fst ts1; nsec = snd ts2 - snd ts1 in
     sec * 1000 + (if nsec \<ge> 0 then nsec div 1000000 else - ((- nsec) div 1000000)))"

text \<open>A thread of the client, by its index, and what the rest of the world does before it goes on.\<close>

type_synonym event = "nat \<times> (api \<Rightarrow> api)"

datatype client_msg = Time_single int | Time_many nat int | Compressed string | Fopen_failed | Fseek_failed | Unexpected_state

record client_env =
  c_start :: start_env
  c_resize :: resize_env
  c_nodes :: "nat list" \<comment> \<open>what \<^verbatim>\<open>malloc\<close> returns for the nodes of the request queue\<close>
  c_worlds :: "(u32 \<Rightarrow> api \<Rightarrow> api) list list" \<comment> \<open>what happens during each wait\<close>
  c_events :: "event list list" \<comment> \<open>after each asynchronous request\<close>
  c_joining :: "event list" \<comment> \<open>after the last one\<close>
  c_lists :: "string \<rightharpoonup> string"
  c_fseek_ok :: bool
  c_garbage :: string
  c_clock :: "(int \<times> int) \<times> (int \<times> int)"

definition client_arg :: "client_env \<Rightarrow> string \<Rightarrow> tinyfile_arg" where
  "client_arg env path = \<lparr>source_file_path = path, compressed_file_path = c_garbage env\<rparr>"

text \<open>
  The single request; the results of the library calls are ignored, so after an error \<^verbatim>\<open>key\<close> and \<^verbatim>\<open>out\<close> are not set.
  \<open>Inr (None, s)\<close> is \<^verbatim>\<open>exit(EXIT_FAILURE)\<close>.
\<close>

definition single_request :: "nat \<Rightarrow> params \<Rightarrow> client_env \<Rightarrow> char \<Rightarrow> tinyfile_arg \<Rightarrow> api \<Rightarrow> (tinyfile_arg option \<times> api) c_result" where
  "single_request fuel p env m a s =
    (let node = (case c_nodes env of [] \<Rightarrow> None | x # _ \<Rightarrow> Some x);
         world = (case c_worlds env of [] \<Rightarrow> [] | w # _ \<Rightarrow> w) in
     if m = CHR ''a'' then
       cbind (tinyfile_async fuel p (c_resize env) node a TINYFILE_COMPRESS 1 s) (\<lambda>(_, key, s).
       case key of
         None \<Rightarrow> Inl Uninitialised_read
       | Some key \<Rightarrow> cbind (tinyfile_async_wait world key s) (\<lambda>(_, out, s). Inr (Some out, s)))
     else if m = CHR ''s'' then
       cbind (tinyfile_sync fuel p (c_resize env) node world a TINYFILE_COMPRESS 1 s) (\<lambda>(_, out, s).
       case out of None \<Rightarrow> Inl Uninitialised_read | Some out \<Rightarrow> Inr (Some out, s))
     else Inr (None, s))"

text \<open>
  The asynchronous loop over the files: every request gets a thread that runs \<open>async_join\<close>, polling its entry until it is done. After each
  request comes a list of events, in which threads poll. A thread is the key it waits for, \<^verbatim>\<open>None\<close> when it has ended.
\<close>

definition async_join :: "nat option \<Rightarrow> api \<Rightarrow> (nat option \<times> api) c_result" where
  "async_join thread s =
     (case thread of
        None \<Rightarrow> Inr (None, s)
      | Some key \<Rightarrow> cbind (is_request_done key s) (\<lambda>(out, s). Inr (if out = None then Some key else None, s)))"

fun run_threads :: "event list \<Rightarrow> nat option list \<Rightarrow> api \<Rightarrow> (nat option list \<times> api) c_result" where
  "run_threads [] threads s = Inr (threads, s)"
| "run_threads ((i, world) # events) threads s =
     (if i < length threads then
        cbind (async_join (threads ! i) (world s)) (\<lambda>(t, s). run_threads events (threads[i := t]) s)
      else run_threads events threads (world s))"

fun submit_all ::
    "nat \<Rightarrow> params \<Rightarrow> resize_env \<Rightarrow> nat list \<Rightarrow> event list list \<Rightarrow> tinyfile_arg list \<Rightarrow> nat option list \<Rightarrow> api \<Rightarrow>
     (nat option list \<times> api) c_result" where
  "submit_all fuel p renv nodes events [] threads s = Inr (threads, s)"
| "submit_all fuel p renv nodes events (a # as) threads s =
     cbind (tinyfile_async fuel p renv (case nodes of [] \<Rightarrow> None | x # _ \<Rightarrow> Some x) a TINYFILE_COMPRESS 1 s) (\<lambda>(_, key, s).
     case key of
       None \<Rightarrow> Inl Uninitialised_read
     | Some key \<Rightarrow>
         cbind (run_threads (case events of [] \<Rightarrow> [] | es # _ \<Rightarrow> es) (threads @ [Some key]) s) (\<lambda>(threads, s).
           submit_all fuel p renv (drop 1 nodes) (drop 1 events) as threads s))"

text \<open>The loop over \<^verbatim>\<open>pthread_join\<close> returns when every thread has ended.\<close>

definition join_all :: "event list \<Rightarrow> nat option list \<Rightarrow> api \<Rightarrow> api c_result" where
  "join_all events threads s =
     cbind (run_threads events threads s) (\<lambda>(threads, s).
       if \<forall>t \<in> set threads. t = None then Inr s else Inl Nontermination)"

fun sync_all :: "nat \<Rightarrow> params \<Rightarrow> client_env \<Rightarrow> nat list \<Rightarrow> (u32 \<Rightarrow> api \<Rightarrow> api) list list \<Rightarrow> tinyfile_arg list \<Rightarrow> api \<Rightarrow> api c_result" where
  "sync_all fuel p env nodes worlds [] s = Inr s"
| "sync_all fuel p env nodes worlds (a # as) s =
     cbind (tinyfile_sync fuel p (c_resize env) (case nodes of [] \<Rightarrow> None | x # _ \<Rightarrow> Some x)
              (case worlds of [] \<Rightarrow> [] | w # _ \<Rightarrow> w) a TINYFILE_COMPRESS 1 s) (\<lambda>(_, out, s).
       sync_all fuel p env (drop 1 nodes) (drop 1 worlds) as s)"

text \<open>Requests for a list of files; \<^verbatim>\<open>None\<close> is \<^verbatim>\<open>exit(EXIT_FAILURE)\<close> in the first round of the loop.\<close>

definition many_requests :: "nat \<Rightarrow> params \<Rightarrow> client_env \<Rightarrow> char option \<Rightarrow> string list \<Rightarrow> api \<Rightarrow> api option c_result" where
  "many_requests fuel p env m paths s =
    (case m of
       None \<Rightarrow> Inl Uninitialised_read
     | Some m \<Rightarrow>
         if m = CHR ''a'' then
           cbind (submit_all fuel p (c_resize env) (c_nodes env) (c_events env) (map (client_arg env) paths) [] s) (\<lambda>(threads, s).
           cbind (join_all (c_joining env) threads s) (\<lambda>s. Inr (Some s)))
         else if m = CHR ''s'' then
           cbind (sync_all fuel p env (c_nodes env) (c_worlds env) (map (client_arg env) paths) s) (\<lambda>s. Inr (Some s))
         else if paths = [] then Inr (Some s) else Inr None)"

text \<open>
  \<^verbatim>\<open>main\<close>: the exit status (\<^verbatim>\<open>None\<close> is \<^verbatim>\<open>abort()\<close>), the messages and the state left behind. The results of \<^verbatim>\<open>tinyfile_init\<close> and
  \<^verbatim>\<open>tinyfile_exit\<close> are ignored.
\<close>

definition client_main ::
    "nat \<Rightarrow> client_env \<Rightarrow> string list \<Rightarrow> os_state \<Rightarrow> api \<Rightarrow> (int option \<times> client_msg list \<times> os_state \<times> api) c_result" where
  "client_main fuel env argv os s =
     cbind (client_options (fst (getopt_long ''f:l:s:'' long_options argv)) no_opts) (\<lambda>r.
     case r of
       None \<Rightarrow> Inr (None, [], os, s)
     | Some co \<Rightarrow>
         case tinyfile_init (opt_params co) (c_start env) os s of (_, os, s) \<Rightarrow>
         let msec = diff_msec (fst (c_clock env)) (snd (c_clock env));
             finish = (\<lambda>msgs s. cbind (tinyfile_exit fuel (c_start env) os s) (\<lambda>(_, os, s). Inr (Some 0, msgs, os, s))) in
         if file_list co then
           (case file_list_path co of
              None \<Rightarrow> Inl Uninitialised_read
            | Some path \<Rightarrow>
                (case c_lists env path of
                   None \<Rightarrow> Inr (Some 1, [Fopen_failed], os, s)
                 | Some cs \<Rightarrow>
                     if \<not> c_fseek_ok env then Inr (Some 1, [Fseek_failed], os, s)
                     else
                       cbind (read_file_list cs) (\<lambda>paths.
                       cbind (many_requests fuel (opt_params co) env (call_method co) paths s) (\<lambda>r.
                       case r of
                         None \<Rightarrow> Inr (Some 1, [Unexpected_state], os, s)
                       | Some s \<Rightarrow> finish [Time_many (count_lines cs) msec] s))))
         else
           (case (file_path co, call_method co) of
              (Some path, Some m) \<Rightarrow>
                cbind (single_request fuel (opt_params co) env m (client_arg env path) s) (\<lambda>(out, s).
                case out of
                  None \<Rightarrow> Inr (Some 1, [Unexpected_state], os, s)
                | Some out \<Rightarrow> finish [Time_single msec, Compressed (compressed_file_path out)] s)
            | _ \<Rightarrow> Inl Uninitialised_read))"

section \<open>Reading the options\<close>

text \<open>Options that are written with their full names, in one word or in two, are read as they were written.\<close>

lemma long_options_read:
  assumes "\<forall>(name, v, joined) \<in> set xs. name \<in> {''file'', ''files'', ''state'', ''sms_size''}"
  shows "fst (getopt_long ''f:l:s:'' long_options (concat (map written xs))) = map (\<lambda>(name, v, _). (snd (the (map_of long_options name)), v)) xs"
proof -
  have "\<forall>(name, v, joined) \<in> set xs. \<exists>c. map_of long_options name = Some (required_argument, c) \<and> CHR ''='' \<notin> set name \<and> name \<noteq> []"
    using assms by (fastforce simp: long_options_def)
  from getopt_long_written [OF this] show ?thesis by (simp add: getopt_long_def)
qed

lemma command_line:
  "fst (getopt_long ''f:l:s:'' long_options [''--file'', path, ''--state'', st, ''--sms_size'', m]) = [(CHR ''f'', path), (CHR ''s'', st), (CHR ''m'', m)]"
  using long_options_read [of "[(''file'', path, False), (''state'', st, False), (''sms_size'', m, False)]"]
  by (simp add: written_def long_options_def)

section \<open>Reading the list\<close>

abbreviation lines_of :: "string list \<Rightarrow> string" where
  "lines_of ps \<equiv> concat (map (\<lambda>p. p @ [newline]) ps)"

definition path_ok :: "string \<Rightarrow> bool" where
  "path_ok p \<longleftrightarrow> length p < path_size \<and> newline \<notin> set p \<and> CHR 0x00 \<notin> set p"

lemma getline_line:
  assumes "newline \<notin> set p"
  shows "getline (p @ newline # rest) = Some (p @ [newline], rest)"
    "p \<noteq> [] \<Longrightarrow> getline p = Some (p, [])"
proof -
  have tw: "takeWhile (\<lambda>c. c \<noteq> newline) (p @ q) = p @ takeWhile (\<lambda>c. c \<noteq> newline) q"
    "dropWhile (\<lambda>c. c \<noteq> newline) (p @ q) = dropWhile (\<lambda>c. c \<noteq> newline) q" for q
    using assms by (auto intro!: takeWhile_append2 dropWhile_append2)
  show "getline (p @ newline # rest) = Some (p @ [newline], rest)" by (simp add: getline_def tw)
  show "p \<noteq> [] \<Longrightarrow> getline p = Some (p, [])" using tw [of "[]"] unfolding getline_def Let_def append_Nil2 takeWhile.simps dropWhile.simps
    by (simp del: takeWhile_eq_all_conv dropWhile_eq_Nil_conv)
qed

lemma chomp_line:
  assumes "path_ok p"
  shows "strcpy_path (chomp (p @ [newline])) = Inr p"
proof -
  have "takeWhile (\<lambda>c. c \<noteq> newline \<and> c \<noteq> CHR 0x00) (p @ [newline]) = p"
    using assms by (subst takeWhile_append2) (auto simp: path_ok_def)
  then show ?thesis using assms by (simp add: chomp_def strcpy_path_def path_ok_def)
qed

lemma fill_args_lines:
  assumes "\<forall>p \<in> set ps. path_ok p" "length acc + length ps \<le> lines"
  shows "fill_args lines acc (lines_of ps @ rest) = fill_args lines (acc @ ps) rest"
  using assms
proof (induction ps arbitrary: acc)
  case (Cons p ps)
  then have p: "path_ok p" "newline \<notin> set p" "length acc < lines" by (auto simp: path_ok_def)
  have "fill_args lines acc (lines_of (p # ps) @ rest) = fill_args lines (acc @ [p]) (lines_of ps @ rest)"
    using p(3) chomp_line [OF p(1)] by (subst fill_args.simps) (simp add: getline_line(1) [OF p(2)])
  then show ?case using Cons.IH [of "acc @ [p]"] Cons.prems by simp
qed simp

lemma count_lines_of: "\<forall>p \<in> set ps. path_ok p \<Longrightarrow> count_lines (lines_of ps @ rest) = length ps + count_lines rest"
proof (induction ps)
  case (Cons p ps)
  then have "filter (\<lambda>c. c = newline) p = []" by (auto simp: path_ok_def filter_empty_conv)
  then show ?case using Cons by (simp add: count_lines_def)
qed simp

text \<open>
  Writing paths one per line, each with its newline, and reading the list gives the paths back, in order, as long as each fits the array
  of an argument and contains neither a newline nor a NUL.
\<close>

theorem file_list_roundtrip:
  assumes "\<forall>p \<in> set ps. path_ok p"
  shows "read_file_list (lines_of ps) = Inr ps"
  using fill_args_lines [OF assms, of "[]" "length ps" "[]"] count_lines_of [OF assms, of "[]"]
  by (simp add: read_file_list_def count_lines_def fill_args.simps [of _ _ "[]"] getline_def)

theorem file_list_roundtrip_witness:
  "read_file_list (lines_of [''a.txt'', ''b.txt'']) = Inr [''a.txt'', ''b.txt'']"
  by (rule file_list_roundtrip) (simp add: path_ok_def path_size_def newline_def)

text \<open>
  A list whose last line does not end in a newline: the loop that counts the newlines reserves one element too few, and the last path is
  written behind the end of the array \<^verbatim>\<open>args\<close>.
\<close>

theorem unterminated_list_overflows:
  assumes "\<forall>p \<in> set ps. path_ok p" "p \<noteq> []" "newline \<notin> set p"
  shows "read_file_list (lines_of ps @ p) = Inl Invalid_access"
proof -
  have "count_lines p = 0" using assms(3) by (auto simp: count_lines_def filter_empty_conv)
  then have "read_file_list (lines_of ps @ p) = fill_args (length ps) ps p"
    using fill_args_lines [OF assms(1), of "[]" "length ps" p] count_lines_of [OF assms(1), of p] by (simp add: read_file_list_def)
  then show ?thesis by (simp add: fill_args.simps getline_line(2) [OF assms(3,2)])
qed

theorem unterminated_list_overflows_witness:
  "read_file_list (lines_of [''a.txt''] @ ''b.txt'') = Inl Invalid_access"
  by (rule unterminated_list_overflows) (simp_all add: path_ok_def path_size_def newline_def)

section \<open>Time\<close>

text \<open>
  The milliseconds printed differ from the true time by less than one, also when the nanoseconds of the end are smaller than those
  of the start.
\<close>

theorem diff_msec_close:
  "\<bar>1000000 * diff_msec ts1 ts2 - ((fst ts2 * 1000000000 + snd ts2) - (fst ts1 * 1000000000 + snd ts1))\<bar> < 1000000"
proof -
  define d where "d = snd ts2 - snd ts1"
  define q where "q = (if d \<ge> 0 then d div 1000000 else - ((- d) div 1000000))"
  have "\<bar>1000000 * q - d\<bar> < 1000000"
    using mult_div_mod_eq [of 1000000 d] mult_div_mod_eq [of 1000000 "- d"] pos_mod_bound [of 1000000 d] pos_mod_sign [of 1000000 d]
      pos_mod_bound [of 1000000 "- d"] pos_mod_sign [of 1000000 "- d"]
    by (auto simp: q_def)
  moreover have "diff_msec ts1 ts2 = (fst ts2 - fst ts1) * 1000 + q" by (simp add: diff_msec_def q_def d_def Let_def)
  ultimately show ?thesis by (simp add: d_def algebra_simps)
qed

section \<open>Initialisation that fails\<close>

lemma small_memory_size:
  assumes "0 \<le> n" "n < 352"
  shows "size_t (TINYFILE_SHM_SIZE (tinyfile_set_shm_size (word_of_int n) p)) div sizeof_shared_entry = 0"
proof -
  define k where "k = nat n"
  have k: "(word_of_int n :: u64) = word_of_nat k" "k < 352" using assms by (simp_all add: k_def)
  have "unat (ucast (word_of_nat k :: u64) :: u32) = k"
    using k(2) by (simp add: unsigned_ucast_eq unat_of_nat take_bit_nat_eq_self_iff)
  then have "unat (size_t (TINYFILE_SHM_SIZE (tinyfile_set_shm_size (word_of_int n) p))) = k"
    using k unat_size_t [of "ucast (word_of_nat k :: u64)"] by (simp add: tinyfile_set_shm_size_def)
  then show ?thesis using k(2) by (simp add: unat_eq_zero [symmetric] unat_div sizeof_shared_entry_def)
qed

lemma init_small_memory:
  assumes "size_t (TINYFILE_SHM_SIZE p) div sizeof_shared_entry = 0" "\<not> INIT s" "TINYFILE_REGISTRY_QUEUE \<in> mq_names os"
    "names_free os (getpid s)" "start_ok env"
  shows "\<exists>os'. tinyfile_init p env os s = (TINYFILE_CREATE_SHM_ERROR, os', s\<lparr>client_send_q := [], shm_size := 0\<rparr>)"
  using assms create_queues_ok [OF assms(5,4)]
  by (simp add: tinyfile_init_def create_shm_def Let_def names_free_def start_ok_def TINYFILE_CREATE_SHM_ERROR_def)

lemma no_memory_no_entry:
  assumes "size_t (TINYFILE_SHM_SIZE p) div sizeof_shared_entry = 0" "shm_size s = 0" "\<not> shm_resize_lock s" "0 < fuel"
  shows "find_shared_entry fuel p env a s = Inl Invalid_access"
proof -
  have new: "new_shm_size p s = 0" using assms(1,2) by (simp add: new_shm_size_def)
  have "\<exists>e s'. resize_shm p env s = Inr (e, s') \<and> shm_size s' = 0"
    using assms(2,3) new by (simp add: resize_shm_def Let_def)
  moreover obtain f where "fuel = Suc f" using assms(4) by (cases fuel) simp_all
  ultimately show ?thesis using assms(2) by (auto simp: find_shared_entry_def entries_in_def entry_at_def)
qed

text \<open>
  \<^verbatim>\<open>client.c\<close> ignores the result of \<^verbatim>\<open>tinyfile_init\<close>: run with a memory smaller than one entry, as in the examples of the README, it goes
  on without shared memory and accesses an entry that does not exist, in both modes.
\<close>

theorem small_memory_crashes_client:
  assumes "length path < path_size" "st = ''SYNC'' \<or> st = ''ASYNC''" "0 \<le> strtol m" "strtol m < 352"
    and "\<not> INIT s" "\<not> shm_resize_lock s" "TINYFILE_REGISTRY_QUEUE \<in> mq_names os" "names_free os (getpid s)" "start_ok (c_start env)"
    and "0 < fuel"
  shows "client_main fuel env [''--file'', path, ''--state'', st, ''--sms_size'', m] os s = Inl Invalid_access"
proof -
  let ?p = "tinyfile_set_shm_size (word_of_int (strtol m)) default_params"
  let ?s = "s\<lparr>client_send_q := [], shm_size := 0\<rparr>"
  define me where "me = (if st = ''ASYNC'' then CHR ''a'' else CHR ''s'')"
  note sz = small_memory_size [OF assms(3,4), of default_params]
  have opts: "client_options [(CHR ''f'', path), (CHR ''s'', st), (CHR ''m'', m)] no_opts =
      Inr (Some \<lparr>file_path = Some path, file_list_path = None, file_list = False, call_method = Some me, opt_params = ?p\<rparr>)"
    using assms(1,2) by (auto simp: client_option_def strcpy_path_def no_opts_def me_def)
  obtain os' where i: "tinyfile_init ?p (c_start env) os s = (TINYFILE_CREATE_SHM_ERROR, os', ?s)"
    using init_small_memory [OF sz assms(5,7-9)] by blast
  have "find_shared_entry fuel ?p (c_resize env) a (?s\<lparr>global_request_id := g\<rparr>) = Inl Invalid_access" for a g
    using assms(6,10) by (intro no_memory_no_entry [OF sz]) simp_all
  then have "prepare_request fuel ?p (c_resize env) a TINYFILE_COMPRESS 1 ?s = Inl Invalid_access" for a
    by (simp add: prepare_request_def Let_def)
  then have "single_request fuel ?p env me a ?s = Inl Invalid_access" for a
    using assms(2) by (auto simp: single_request_def tinyfile_async_def tinyfile_sync_def me_def Let_def)
  then show ?thesis using opts i by (simp add: client_main_def command_line Let_def)
qed

definition sample_env :: client_env where
  "sample_env = \<lparr>c_start = example_start, c_resize = failing_env, c_nodes = [0], c_worlds = [], c_events = [], c_joining = [], c_lists = Map.empty,
     c_fseek_ok = True, c_garbage = [], c_clock = ((0, 0), (0, 0))\<rparr>"

theorem small_memory_crashes_client_witness:
  "client_main 3 sample_env [''--file'', ''a.txt'', ''--state'', ''SYNC'', ''--sms_size'', ''32''] server_running new_process
     = Inl Invalid_access"
proof (rule small_memory_crashes_client)
  have "strtol ''32'' = 32" by code_simp
  then show "0 \<le> strtol ''32''" "strtol ''32'' < 352" by simp_all
  show "\<not> INIT new_process" "\<not> shm_resize_lock new_process" by (simp_all add: new_process_def example_api_def)
  show "TINYFILE_REGISTRY_QUEUE \<in> mq_names server_running" "names_free server_running (getpid new_process)"
    "start_ok (c_start sample_env)"
    using example_session by (simp_all add: sample_env_def)
qed (simp_all add: path_size_def)

section \<open>A complete run\<close>

text \<open>
  What happens while the client sleeps: the request worker takes the first request off the queue and a worker of the server handles it.
\<close>

definition serve_one :: "io \<Rightarrow> server_os \<Rightarrow> api \<Rightarrow> api" where
  "serve_one io st s =
     (case request_q_dequeue (request_queue s) of
        Inr (Some req, q) \<Rightarrow>
          (case handle_request io req (shm s) st of Inr (m, _) \<Rightarrow> s\<lparr>shm := m, request_queue := q\<rparr> | Inl _ \<Rightarrow> s)
      | _ \<Rightarrow> s)"

lemma first_entry_claimed:
  assumes "352 \<le> unat sz" "unat sz < 2 ^ 31" "api_ok s" "used (shm s ! 0) = 0" "0 < fuel"
    "shm_size s = sizeof_shared_entry * (size_t (TINYFILE_SHM_SIZE (tinyfile_set_shm_size sz p)) div sizeof_shared_entry)"
  shows "find_shared_entry fuel (tinyfile_set_shm_size sz p) env a s =
    Inr (0, s\<lparr>shm := (shm s)[0 := \<lparr>used = 1, completed = 0, arg = a\<rparr>]\<rparr>)"
proof -
  have "resize_shm (tinyfile_set_shm_size sz p) env s = Inr (0, s)"
    using set_shm_size_fixes [OF assms(1,2,6)] by (simp add: resize_shm_def)
  moreover have "entry_at s 0 = Inr (shm s ! 0)" using assms(3) by (intro entry_at_ok) (auto simp: api_ok_def)
  moreover obtain f where "fuel = Suc f" using assms(5) by (cases fuel) auto
  moreover have claimed: "(shm s ! 0)\<lparr>arg := a, used := 1, completed := 0\<rparr> = \<lparr>used = 1, completed = 0, arg = a\<rparr>" by simp
  ultimately show ?thesis using assms(4) by (simp add: find_shared_entry_def claimed)
qed

lemma sync_call_served:
  assumes "352 \<le> unat sz" "unat sz < 2 ^ 31" "api_ok s" "used (shm s ! 0) = 0" "0 < fuel"
    "shm_size s = sizeof_shared_entry * (size_t (TINYFILE_SHM_SIZE (tinyfile_set_shm_size sz p)) div sizeof_shared_entry)"
    and q: "queue (request_queue s) = None" "q_heap (request_queue s) x = None"
    and svc: "compress_service io a st = Inr (0, out, st')"
  shows "\<exists>s'. tinyfile_sync fuel (tinyfile_set_shm_size sz p) env (Some x) [\<lambda>_. serve_one io st] a TINYFILE_COMPRESS 1 s =
      Inr (0, Some out, s') \<and> queue (request_queue s') = None \<and> INIT s' = INIT s \<and> getpid s' = getpid s"
proof -
  let ?p = "tinyfile_set_shm_size sz p" and ?g = "s\<lparr>global_request_id := global_request_id s + 1\<rparr>"
  let ?req = "\<lparr>service = TINYFILE_COMPRESS, priority = 1, request_id = global_request_id s, entry_idx = 0, req_pid = getpid s\<rparr>"
  let ?e = "\<lparr>used = 1, completed = 0, arg = a\<rparr> :: tinyfile_shared_entry"
  define s1 where "s1 = ?g\<lparr>shm := (shm s)[0 := ?e]\<rparr>"
  have ne: "shm s \<noteq> []" "\<not> shm_resize_lock s" "entries_in (shm_size s) = length (shm s)"
    using assms(3) entries_in_ok by (auto simp: api_ok_def)
  have "api_ok ?g" using assms(3) by (simp add: api_ok_def)
  then have prep: "prepare_request fuel ?p env a TINYFILE_COMPRESS 1 s = Inr (0, Some ?req, s1)"
    using first_entry_claimed [OF assms(1,2), of ?g fuel p env a] assms(4-6) by (simp add: prepare_request_def Let_def s1_def)
  obtain f where f: "fuel = Suc f" using assms(5) by (cases fuel) auto
  define s2 where "s2 = s1\<lparr>request_queue := (request_queue s)\<lparr>q_heap := (q_heap (request_queue s))(x \<mapsto> \<lparr>request = ?req, q_next = None\<rparr>), queue := Some x\<rparr>\<rparr>"
  have enq: "api_enqueue fuel (Some x) ?req s1 = Inr s2"
    using q f by (simp add: api_enqueue_def request_q_enqueue_def s1_def s2_def Let_def)
  have hd: "shm s2 ! 0 = ?e" "0 < length (shm s2)" using ne(1) by (simp_all add: s2_def s1_def)
  define s3 where "s3 = s2\<lparr>shm := (shm s2)[0 := ?e\<lparr>arg := out, completed := 1\<rparr>], request_queue := (request_queue s)\<lparr>queue := None\<rparr>\<rparr>"
  have "handle_request io ?req (shm s2) st = Inr ((shm s2)[0 := ?e\<lparr>arg := out, completed := 1\<rparr>], st')"
    using hd svc by (simp add: handle_request_def Let_def)
  moreover have "request_q_dequeue (request_queue s2) = Inr (Some ?req, (request_queue s)\<lparr>queue := None\<rparr>)"
    using q(2) by (simp add: request_q_dequeue_def deref_def s2_def fun_upd_idem)
  ultimately have w: "serve_one io st s2 = s3" by (simp add: serve_one_def s3_def)
  have "pollable 0 s2" "pollable 0 s3" using ne by (simp_all add: pollable_def s2_def s1_def s3_def)
  then have "recv_response [\<lambda>_. serve_one io st] 1 0 s2 = Inr (out, release 0 s3)"
    using hd by (simp add: recv_response.simps is_request_done_eq w) (simp add: s3_def)
  then have "tinyfile_sync fuel ?p env (Some x) [\<lambda>_. serve_one io st] a TINYFILE_COMPRESS 1 s = Inr (0, Some out, release 0 s3)"
    using prep enq by (simp add: tinyfile_sync_def)
  then show ?thesis by (simp add: release_def s3_def s2_def s1_def)
qed

text \<open>
  C13. A complete run of the client in synchronous mode, from the options to the end, with a server that serves its request while it sleeps: it
  returns \<open>0\<close>, prints the path that the service has left in the argument, and leaves no queue and no shared memory behind; the
  server has received a registration and an unregistration.
\<close>

theorem client_run_completes:
  assumes "length path < path_size" "352 \<le> strtol m" "strtol m < 2 ^ 31"
    and "\<not> INIT s" "TINYFILE_REGISTRY_QUEUE \<in> mq_names os" "names_free os (getpid s)" "start_ok (c_start env)" "0 < fuel"
    and "c_nodes env = [x]" "q_heap (request_queue s) x = None" "c_worlds env = [[\<lambda>_. serve_one io st]]"
    and svc: "compress_service io (client_arg env path) st = Inr (0, out, st')"
  shows "\<exists>s'. client_main fuel env [''--file'', path, ''--state'', ''SYNC'', ''--sms_size'', m] os s =
    Inr (Some 0, [Time_single (diff_msec (fst (c_clock env)) (snd (c_clock env))), Compressed (compressed_file_path out)],
      os\<lparr>registry_q := registry_q os @
          [registry_entry_of TINYFILE_CLIENT_REGISTER s, registry_entry_of TINYFILE_CLIENT_UNREGISTER s]\<rparr>, s')"
proof -
  define sz where "sz = (word_of_int (strtol m) :: u64)"
  let ?p = "tinyfile_set_shm_size sz default_params"
  have "take_bit 64 (strtol m) = strtol m" using assms(2,3) by (simp add: take_bit_int_eq_self_iff)
  then have sz: "352 \<le> unat sz" "unat sz < 2 ^ 31"
    using assms(2,3) by (auto simp: sz_def unsigned_of_int le_nat_iff)
  have p: "params_ok ?p"
    using sz take_bit_nat_eq_self [of "unat sz" 32] by (simp add: params_ok_def tinyfile_set_shm_size_def unsigned_ucast_eq)
  have opts: "client_options [(CHR ''f'', path), (CHR ''s'', ''SYNC''), (CHR ''m'', m)] no_opts =
      Inr (Some \<lparr>file_path = Some path, file_list_path = None, file_list = False, call_method = Some (CHR ''s''), opt_params = ?p\<rparr>)"
    using assms(1) by (simp add: client_option_def strcpy_path_def no_opts_def sz_def)
  obtain s1 where i: "tinyfile_init ?p (c_start env) os s =
      (0, \<lparr>mq_names = {client_recv_q_name (getpid s), client_send_q_name (getpid s)} \<union> mq_names os,
           shm_names = insert (client_shm_name (getpid s)) (shm_names os),
           registry_q = registry_q os @ [registry_entry_of TINYFILE_CLIENT_REGISTER s]\<rparr>, s1)"
      "INIT s1" "api_ok s1" "getpid s1 = getpid s" "\<forall>e \<in> set (shm s1). used e = 0" "queue (request_queue s1) = None"
      "q_heap (request_queue s1) = q_heap (request_queue s)"
      "shm_size s1 = sizeof_shared_entry * (size_t (TINYFILE_SHM_SIZE ?p) div sizeof_shared_entry)"
    using init_ok [OF assms(7,6,5) p assms(4)] by blast
  have "used (shm s1 ! 0) = 0" using i(3,5) by (simp add: api_ok_def)
  then obtain s2 where s2: "tinyfile_sync fuel ?p (c_resize env) (Some x) [\<lambda>_. serve_one io st] (client_arg env path) TINYFILE_COMPRESS 1 s1 =
      Inr (0, Some out, s2)" "queue (request_queue s2) = None" "INIT s2 = INIT s1" "getpid s2 = getpid s1"
    using sync_call_served [OF sz i(3) _ assms(8) i(8,6) _ svc, of x "c_resize env"] assms(10) i(7) by auto
  have "names_free os (getpid s2)" using assms(6) s2(4) i(4) by simp
  from exit_ok [OF assms(7) this _ s2(2) assms(8), of "registry_q os @ [registry_entry_of TINYFILE_CLIENT_REGISTER s]"]
  obtain s3 where s3: "tinyfile_exit fuel (c_start env)
      \<lparr>mq_names = {client_recv_q_name (getpid s), client_send_q_name (getpid s)} \<union> mq_names os,
           shm_names = insert (client_shm_name (getpid s)) (shm_names os),
           registry_q = registry_q os @ [registry_entry_of TINYFILE_CLIENT_REGISTER s]\<rparr> s2 =
      Inr (0, os\<lparr>registry_q := (registry_q os @ [registry_entry_of TINYFILE_CLIENT_REGISTER s]) @ [registry_entry_of TINYFILE_CLIENT_UNREGISTER s2]\<rparr>, s3)"
    using s2(3,4) i(2,4) by auto
  have "registry_entry_of TINYFILE_CLIENT_UNREGISTER s2 = registry_entry_of TINYFILE_CLIENT_UNREGISTER s"
    using s2(4) i(4) by (simp add: registry_entry_of_def)
  then show ?thesis
    using opts i(1) s2(1) s3 assms(9,11) by (simp add: client_main_def command_line single_request_def Let_def)
qed

theorem client_run_completes_witness:
  "\<exists>s' os'. client_main 3 (sample_env\<lparr>c_worlds := [[\<lambda>_. serve_one example_io (example_os ''a.txt'' [65])]]\<rparr>)
      [''--file'', ''a.txt'', ''--state'', ''SYNC'', ''--sms_size'', ''704''] server_running new_process =
    Inr (Some 0, [Time_single 0, Compressed ''a.txt.compressed''], os', s')"
proof -
  let ?env = "sample_env\<lparr>c_worlds := [[\<lambda>_. serve_one example_io (example_os ''a.txt'' [65])]]\<rparr>"
  have "files (example_os ''a.txt'' [65]) (source_file_path (client_arg ?env ''a.txt'')) = Some [65]"
    "length (compressed_path (source_file_path (client_arg ?env ''a.txt''))) < path_size"
    by (simp_all add: example_os_def client_arg_def compressed_path_def path_size_def)
  then obtain st' where c: "compress_service example_io (client_arg ?env ''a.txt'') (example_os ''a.txt'' [65]) =
      Inr (0, (client_arg ?env ''a.txt'')\<lparr>compressed_file_path := compressed_path (source_file_path (client_arg ?env ''a.txt''))\<rparr>, st')"
    using compress_service_truncates [OF example_io_ok, of "example_os ''a.txt'' [65]" "client_arg ?env ''a.txt''" "[65]"] stream_has_nul [of "[65]"] by auto
  have m: "strtol ''704'' = 704" by code_simp
  have p: "\<not> INIT new_process" "q_heap (request_queue new_process) 0 = None" by (simp_all add: new_process_def example_api_def)
  have e: "c_start ?env = example_start" "c_nodes ?env = [0]" "c_clock ?env = ((0, 0), (0, 0))" by (simp_all add: sample_env_def)
  show ?thesis
    using client_run_completes [of "''a.txt''" "''704''" new_process server_running ?env 3 0 example_io "example_os ''a.txt'' [65]", OF _ _ _ p(1) _ _ _ _ _ p(2) _ c]
      example_session
    by (simp add: m e path_size_def client_arg_def compressed_path_def diff_msec_def) blast
qed

end
