(* ===== verification/Server_Main.thy ===== *)
theory Server_Main
  imports Client_List Client_Session
begin

text \<open>
  Start and end of the server (\<^verbatim>\<open>init_server\<close>, \<^verbatim>\<open>exit_server\<close> and \<^verbatim>\<open>main\<close> of \<^verbatim>\<open>server.c\<close>) around the client registry: the registry
  queue, the registry thread, the console loop, and the handler that \<^verbatim>\<open>atexit\<close> runs when the program ends.
\<close>

section \<open>State\<close>

datatype thread = Not_created | Running | Joined

record server =
  reg :: registry
  global_registry :: int \<comment> \<open>queue descriptor; \<open>0\<close> before \<^verbatim>\<open>mq_open\<close>, \<open>-1\<close> after it has failed\<close>
  registry_thread :: thread
  atexit_handler :: bool
  server_mqs :: "string set"

definition server_before_main :: "string set \<Rightarrow> server" where
  "server_before_main names = \<lparr>reg = \<lparr>c_heap = Map.empty, clients = None, sent = [], stop_registry = False,
       full_queues = {}, closed_queues = [], cancelled = [], unmapped = [], send_errors = []\<rparr>,
     global_registry = 0, registry_thread = Not_created, atexit_handler = False, server_mqs = names\<rparr>"

text \<open>Whether \<^verbatim>\<open>mq_open\<close> and \<^verbatim>\<open>pthread_create\<close> succeed when the name is not taken; \<open>mqd\<close> is the descriptor.\<close>

record server_env =
  reg_open_ok :: bool
  mqd :: int
  thread_ok :: bool

text \<open>The outcome of a function that may call \<^verbatim>\<open>exit\<close>.\<close>

datatype 'a outcome = Exits int 'a | Returns 'a

section \<open>Operations\<close>

text \<open>
  \<^verbatim>\<open>exit_server\<close> around the loop over the clients: closing and removing the queue, stopping and joining the thread. Joining
  a thread that was not created or has been joined is undefined.
\<close>

definition server_exit :: "nat \<Rightarrow> server \<Rightarrow> server c_result" where
  "server_exit fuel s =
     cbind (exit_server fuel (reg s)) (\<lambda>r.
     let s = s\<lparr>reg := r, server_mqs := (if global_registry s \<noteq> 0 then server_mqs s - {TINYFILE_REGISTRY_QUEUE} else server_mqs s)\<rparr> in
     case registry_thread s of
       Running \<Rightarrow> Inr (s\<lparr>registry_thread := Joined\<rparr>)
     | Joined \<Rightarrow> Inl Double_join
     | Not_created \<Rightarrow> Inl Join_without_thread)"

text \<open>\<^verbatim>\<open>mq_open\<close> with \<^verbatim>\<open>O_EXCL | O_CREAT\<close>; the answer tells \<^verbatim>\<open>EEXIST\<close> from other errors.\<close>

definition open_registry :: "server_env \<Rightarrow> server \<Rightarrow> server \<times> bool" where
  "open_registry env s =
     (if TINYFILE_REGISTRY_QUEUE \<in> server_mqs s then (s\<lparr>global_registry := -1\<rparr>, True)
      else if reg_open_ok env then (s\<lparr>global_registry := mqd env, server_mqs := insert TINYFILE_REGISTRY_QUEUE (server_mqs s)\<rparr>, False)
      else (s\<lparr>global_registry := -1\<rparr>, False))"

definition init_server :: "server_env \<Rightarrow> server \<Rightarrow> server outcome" where
  "init_server env s =
    (let start_thread = (\<lambda>s. if thread_ok env then Returns (s\<lparr>registry_thread := Running\<rparr>) else Exits 1 s) in
     case open_registry env (s\<lparr>atexit_handler := True\<rparr>) of (s, eexist) \<Rightarrow>
     if global_registry s = -1 then
       if eexist then
         start_thread (fst (open_registry env (s\<lparr>server_mqs := server_mqs s - {TINYFILE_REGISTRY_QUEUE}\<rparr>)))
       else Exits 1 s
     else start_thread s)"

text \<open>
  The loop \<^verbatim>\<open>while (input[0] != 'q') fgets(input, 2, stdin)\<close>: each call reads one character; at the end of the input the array is
  left as it is. \<open>c\<close> is \<^verbatim>\<open>input[0]\<close>, which is not initialised.
\<close>

fun console :: "char \<Rightarrow> char list \<Rightarrow> unit c_result" where
  "console c cs =
     (if c = CHR ''q'' then Inr ()
      else case cs of [] \<Rightarrow> Inl Nontermination | x # xs \<Rightarrow> console x xs)"

declare console.simps [simp del]

text \<open>Leaving the program runs the handler: the exit status and the state.\<close>

definition run_exit_handler :: "nat \<Rightarrow> int \<Rightarrow> server \<Rightarrow> (int \<times> server) c_result" where
  "run_exit_handler fuel status s =
     (if atexit_handler s then cbind (server_exit fuel s) (\<lambda>s. Inr (status, s)) else Inr (status, s))"

text \<open>\<^verbatim>\<open>main\<close>; \<open>world\<close> is what the registry thread does to the list of clients before the loop ends.\<close>

definition server_main :: "nat \<Rightarrow> server_env \<Rightarrow> (registry \<Rightarrow> registry) \<Rightarrow> char \<Rightarrow> char list \<Rightarrow> server \<Rightarrow> (int \<times> server) c_result" where
  "server_main fuel env world garbage stdin s =
     (case init_server env s of
        Exits status s \<Rightarrow> run_exit_handler fuel status s
      | Returns s \<Rightarrow>
          cbind (console garbage stdin) (\<lambda>_.
          cbind (server_exit fuel (s\<lparr>reg := world (reg s)\<rparr>)) (\<lambda>s.
            run_exit_handler fuel 0 s)))"

section \<open>Start\<close>

text \<open>
  \<^verbatim>\<open>init_server\<close>, when the system provides a queue and a thread: it returns with the registry queue in place, replacing one that an
  earlier server has left behind, and the registry thread running.
\<close>

theorem init_server_correct:
  assumes "reg_open_ok env" "thread_ok env" "mqd env > 0" "registry_thread s = Not_created"
  shows "init_server env s = Returns (s\<lparr>atexit_handler := True, global_registry := mqd env,
    server_mqs := insert TINYFILE_REGISTRY_QUEUE (server_mqs s), registry_thread := Running\<rparr>)"
  using assms by (auto simp: init_server_def open_registry_def Let_def)

definition example_server :: server_env where
  "example_server = \<lparr>reg_open_ok = True, mqd = 5, thread_ok = True\<rparr>"

theorem init_server_correct_witness:
  "init_server example_server (server_before_main {TINYFILE_REGISTRY_QUEUE}) = Returns ((server_before_main {TINYFILE_REGISTRY_QUEUE})\<lparr>
     atexit_handler := True, global_registry := 5, registry_thread := Running\<rparr>)"
  using init_server_correct [of example_server "server_before_main {TINYFILE_REGISTRY_QUEUE}"]
  by (simp add: example_server_def server_before_main_def)

section \<open>End\<close>

lemma console_eq: "console c cs = (if CHR ''q'' \<in> set (c # cs) then Inr () else Inl Nontermination)"
proof (induction cs arbitrary: c)
  case (Cons x cs)
  then show ?case by (subst console.simps) auto
qed (simp add: console.simps)

text \<open>Without clients, \<^verbatim>\<open>exit_server\<close> only stops the registry thread.\<close>

lemma server_exit_idle:
  assumes "clients (reg s) = None" "0 < fuel"
  shows "\<exists>s'. clients (reg s') = None \<and> atexit_handler s' = atexit_handler s \<and> registry_thread s' = Joined \<and> server_exit fuel s =
    (case registry_thread s of Running \<Rightarrow> Inr s' | Joined \<Rightarrow> Inl Double_join | Not_created \<Rightarrow> Inl Join_without_thread)"
proof -
  obtain k where k: "fuel = Suc k" using assms(2) by (cases fuel) auto
  let ?s = "s\<lparr>reg := (reg s)\<lparr>stop_registry := True\<rparr>,
    server_mqs := (if global_registry s \<noteq> 0 then server_mqs s - {TINYFILE_REGISTRY_QUEUE} else server_mqs s), registry_thread := Joined\<rparr>"
  show ?thesis
    using assms(1) by (intro exI [of _ ?s]) (simp add: server_exit_def exit_server_def k Let_def split: thread.splits)
qed

lemma init_server_keeps:
  "init_server env s = Exits x s' \<Longrightarrow> reg s' = reg s \<and> registry_thread s' = registry_thread s \<and> atexit_handler s'"
  "init_server env s = Returns s' \<Longrightarrow> reg s' = reg s \<and> registry_thread s' = Running \<and> atexit_handler s'"
  by (auto simp: init_server_def open_registry_def Let_def split: if_splits)

text \<open>
  C40. The server has no run that ends with an exit status, since \<^verbatim>\<open>main\<close> calls \<^verbatim>\<open>exit_server\<close> and then returns, which runs \<^verbatim>\<open>exit_server\<close> again through
  \<^verbatim>\<open>atexit\<close>. When the start fails, the handler joins a registry thread that was never created. After a start that succeeds, a console
  without \<^verbatim>\<open>q\<close> goes on for ever; with it and without clients, the first \<^verbatim>\<open>exit_server\<close> joins the registry thread and the second joins it once more; with clients,
  the first of which is idle and can be sent its message, the first \<^verbatim>\<open>exit_server\<close> already uses freed memory.
\<close>

theorem server_never_exits_cleanly:
  assumes "registry_thread s = Not_created" "clients (reg s) = None" "0 < fuel"
  shows "case init_server env s of
      Exits _ _ \<Rightarrow> server_main fuel env world garbage stdin s = Inl Join_without_thread
    | Returns s' \<Rightarrow>
        (\<exists>f. server_main fuel env world garbage stdin s = Inl f)
        \<and> (if CHR ''q'' \<notin> set (garbage # stdin) then server_main fuel env world garbage stdin s = Inl Nontermination
           else
             (clients (world (reg s)) = None \<longrightarrow>
                (\<exists>s2. server_exit fuel (s'\<lparr>reg := world (reg s)\<rparr>) = Inr s2 \<and> registry_thread s2 = Joined \<and> server_exit fuel s2 = Inl Double_join)
                \<and> server_main fuel env world garbage stdin s = Inl Double_join)
             \<and> (\<forall>a as n. registry_ok (world (reg s)) (a # as) \<and> c_heap (world (reg s)) a = Some n \<and> idle (c_heap (world (reg s))) a
                   \<and> \<not> pill_blocks (world (reg s)) (client n) \<longrightarrow>
                 server_main fuel env world garbage stdin s = Inl Invalid_access))"
proof (cases "init_server env s")
  case (Exits status s')
  note k = init_server_keeps(1) [OF Exits]
  have "server_exit fuel s' = Inl Join_without_thread" using server_exit_idle [of s' fuel] k assms by auto
  then show ?thesis using Exits k by (simp add: server_main_def run_exit_handler_def)
next
  case (Returns s')
  note k = init_server_keeps(2) [OF Returns]
  let ?t = "s'\<lparr>reg := world (reg s)\<rparr>"
  have main: "server_main fuel env world garbage stdin s =
      (if CHR ''q'' \<notin> set (garbage # stdin) then Inl Nontermination
       else cbind (server_exit fuel ?t) (\<lambda>s. run_exit_handler fuel 0 s))"
    using Returns k by (simp add: server_main_def console_eq)
  have "\<exists>f. cbind (server_exit fuel ?t) (\<lambda>s. run_exit_handler fuel 0 s) = Inl f"
  proof (cases "server_exit fuel ?t")
    case (Inr s2)
    then have "registry_thread s2 = Joined" "atexit_handler s2" using k by (auto simp: server_exit_def cbind_eq_Inr_conv Let_def)
    then have "\<exists>f. run_exit_handler fuel 0 s2 = Inl f"
      by (cases "exit_server fuel (reg s2)") (simp_all add: run_exit_handler_def server_exit_def Let_def)
    then show ?thesis using Inr by simp
  qed simp
  moreover have "(\<exists>s2. server_exit fuel ?t = Inr s2 \<and> registry_thread s2 = Joined \<and> server_exit fuel s2 = Inl Double_join)
      \<and> cbind (server_exit fuel ?t) (\<lambda>s. run_exit_handler fuel 0 s) = Inl Double_join" if none: "clients (world (reg s)) = None"
  proof -
    obtain s2 where s2: "clients (reg s2) = None" "atexit_handler s2" "registry_thread s2 = Joined" "server_exit fuel ?t = Inr s2"
    proof -
      have "clients (reg ?t) = None" using none by simp
      from server_exit_idle [OF this assms(3)] show ?thesis using k by (auto intro: that)
    qed
    moreover have "server_exit fuel s2 = Inl Double_join" using server_exit_idle [OF s2(1) assms(3)] s2(3) by auto
    ultimately show ?thesis by (simp add: run_exit_handler_def)
  qed
  moreover have "cbind (server_exit fuel ?t) (\<lambda>s. run_exit_handler fuel 0 s) = Inl Invalid_access"
    if "registry_ok (world (reg s)) (a # as)" "c_heap (world (reg s)) a = Some n" "idle (c_heap (world (reg s))) a"
      "\<not> pill_blocks (world (reg s)) (client n)" for a as n
    using exit_server_uses_freed_node [OF that(1,3) assms(3)] that(2,4) by (simp add: server_exit_def)
  ultimately show ?thesis unfolding main Returns by auto
qed

theorem server_never_exits_cleanly_witness:
  "server_main 5 example_server (\<lambda>r. r) CHR ''x'' ''q'' (server_before_main {}) = Inl Double_join
   \<and> server_main 5 (example_server\<lparr>thread_ok := False\<rparr>) (\<lambda>r. r) CHR ''x'' ''q'' (server_before_main {}) = Inl Join_without_thread
   \<and> server_main 5 example_server (\<lambda>_. example_registry) CHR ''x'' ''q'' (server_before_main {}) = Inl Invalid_access"
proof -
  let ?s = "server_before_main {}"
  have s: "registry_thread ?s = Not_created" "clients (reg ?s) = None" "0 < (5 :: nat)" by (simp_all add: server_before_main_def)
  note c = server_never_exits_cleanly [OF s, where garbage = "CHR ''x''" and stdin = "''q''"]
  obtain t where t: "init_server example_server ?s = Returns t"
    by (simp add: init_server_def open_registry_def Let_def example_server_def server_before_main_def)
  obtain x u where u: "init_server (example_server\<lparr>thread_ok := False\<rparr>) ?s = Exits x u"
    by (simp add: init_server_def open_registry_def Let_def example_server_def server_before_main_def)
  have pill: "\<not> pill_blocks example_registry c" for c by (simp add: pill_blocks_def example_registry_def)
  have "server_main 5 example_server (\<lambda>r. r) CHR ''x'' ''q'' ?s = Inl Double_join" using c [of example_server "\<lambda>r. r"] t s by simp
  moreover have "server_main 5 (example_server\<lparr>thread_ok := False\<rparr>) (\<lambda>r. r) CHR ''x'' ''q'' ?s = Inl Join_without_thread"
    using c [of "example_server\<lparr>thread_ok := False\<rparr>" "\<lambda>r. r"] u by simp
  moreover have "server_main 5 example_server (\<lambda>_. example_registry) CHR ''x'' ''q'' ?s = Inl Invalid_access"
    using c [of example_server "\<lambda>_. example_registry"] t example_registry_ok example_idle(1) example_nodes(1) pill by auto
  ultimately show ?thesis by blast
qed

end
