(* ===== verification/Spec2Isabelle.thy ===== *)
theory Spec2Isabelle
  imports Snappy_Tools Snappy_SG_Verify Snappy_Fuzzer Snappy_Portable Tinyfile_Progress Sample_Client Server_Main
begin

text \<open>
  TinyFile compresses files for its clients. A client process links the library of \<^verbatim>\<open>src/src/api/api.c\<close>; the server,
  \<^verbatim>\<open>src/src/server/server.c\<close>, compresses with the snappy compressor of \<^verbatim>\<open>src/include/snappy-c/snappy.c\<close>. Client and server
  share a memory object whose entries hold the arguments and the results of requests, and two POSIX message queues per client;
  clients announce themselves through a registry queue.

  \<^bold>\<open>How a request travels.\<close> \<^verbatim>\<open>tinyfile_sync\<close> and \<^verbatim>\<open>tinyfile_async\<close> take a free entry of the shared memory (\<^verbatim>\<open>find_shared_entry\<close>, which may grow
  the memory with \<^verbatim>\<open>resize_shm\<close>), store the argument there and queue the request by priority (\<^verbatim>\<open>request_q_enqueue\<close>). A worker thread of the
  library moves requests to the message queue. A worker thread of the server receives one, runs \<^verbatim>\<open>compress_service\<close> on the argument in
  the entry and marks the entry done. The client polls the entry (\<^verbatim>\<open>is_request_done\<close>), copies the result and frees the entry.

  \<^bold>\<open>Theories.\<close> Definitions carry the names of the C functions and types they translate.

  \<^item> \<open>TF_Prelude\<close>: the machine types, the result type \<open>c_result\<close> of C computations that can go wrong, with its sequencing \<open>cbind\<close>, and list and
    word lemmas. A failed assertion, an access outside an object or through a dangling pointer, a use of an uninitialised variable, a
    remainder by zero, a thread that is joined twice or was never created, and a loop or wait that does not end are values of the type \<open>fault\<close>; that they do not occur is proved, not assumed.
  \<^item> \<open>Snappy_Mem\<close>, \<open>Snappy_Varint\<close>, \<open>Snappy_Emit\<close>, \<open>Snappy_Match\<close>, \<open>Snappy_Source\<close>, \<open>Snappy_Sink\<close>, \<open>Snappy_Writer\<close>: the layers of \<^verbatim>\<open>snappy.c\<close> bottom up (unaligned
    access and bit tricks, the length header, emission of literals and copies, the match finder, byte sources and sinks, the output writer), each with
    its specification. \<open>Snappy_Format\<close> is the abstract format: elements, their expansion, their layout and a reference decoder.
  \<^item> \<open>Snappy_Decompress\<close>, \<open>Snappy_Decompress_Correct\<close>: the tag decoder of \<^verbatim>\<open>snappy.c\<close> and its refinement of the reference decoder on arbitrary
    input, for any byte source that satisfies the locale \<open>byte_reader\<close> of \<open>Snappy_Source\<close>, interpreted on the flat source, on the scatter-gather source with vectors
    below 2 GiB, and on one longer vector in a build without assertions. The offset of the scatter-gather source is a 32-bit \<^verbatim>\<open>int\<close>, which turns negative behind 2 GiB; the flag \<open>dbg\<close> says
    whether \<^verbatim>\<open>DCHECK\<close> is compiled in.
  \<^item> \<open>Snappy_Compress\<close>, \<open>Snappy_Reference\<close>, \<open>Snappy_Compress_Correct\<close>, \<open>Snappy_Roundtrip\<close>: the compressor with its hash table, for any source and any
    sink (the locale \<open>compressor\<close> joins \<open>byte_source\<close> and \<open>byte_sink\<close>), and a reference compressor on lists, whose table is a function; the compressor never faults,
    writes exactly the stream of the reference compressor, which fits the announced bound and decodes to the input; the two
    entry points are inverse to each other.
  \<^item> \<open>Snappy_Portable\<close>: the branches for 32-bit machines, which agree with those for 64-bit machines that the other theories use; what the
    fast copy relies on is the locale \<open>block_copy\<close> of \<open>Snappy_Writer\<close>, interpreted for both.
  \<^item> \<open>Snappy_SG\<close>: the entry points over vectors and the flat entry points of the build with \<^verbatim>\<open>SG\<close>: the same for them. \<open>Snappy_Tools\<close>: the programs
    \<^verbatim>\<open>verify.c\<close> and \<^verbatim>\<open>scmd.c\<close> with \<^verbatim>\<open>map.c\<close> and \<^verbatim>\<open>util.c\<close> on a map of files: \<^verbatim>\<open>verify\<close> passes, \<^verbatim>\<open>scmd\<close> restores what it compressed.
  \<^item> \<open>Snappy_SG_Verify\<close>: the randomised test \<^verbatim>\<open>sgverify.c\<close> of the entry points over vectors, with the random numbers as an argument; its theorem is about runs in which they cut
    up the file and the output buffer before the vectors run out, which is stated of exactly the numbers drawn, and says which bytes a complaint can be about.
    \<open>Snappy_Glue\<close>: the tests of \<^verbatim>\<open>glue.c\<close> for all compressors it names, those outside the repository being arguments, and the locale \<open>codec\<close> of
    compressors that restore what they compressed, interpreted on snappy. \<open>Snappy_Bench\<close>: \<^verbatim>\<open>bench.c\<close>, which every codec passes. \<open>Snappy_Fuzzer\<close>:
    \<^verbatim>\<open>fuzzer.c\<close>, whose damage stays inside its buffer and can make the decompressor leave its own.
  \<^item> \<open>TF_Types\<close>: \<^verbatim>\<open>types.h\<close>, \<^verbatim>\<open>messages.h\<close>, \<^verbatim>\<open>params.h\<close> and the error codes of \<^verbatim>\<open>api.h\<close>. \<open>Message_Queue\<close>: POSIX message queues as the sources use them.
  \<^item> \<open>Request_Queue\<close>: the linked list of pending requests in a heap (\<^verbatim>\<open>request_q_*\<close>, \<^verbatim>\<open>async_req_q_*\<close>), a refinement of a stable
    priority queue stated as the locale \<open>priority_queue\<close>.
  \<^item> \<open>Client_API\<close>: shared memory and requests in the client library, with the locale \<open>resize_server\<close> for what resizing relies on. The size of the memory in the server's record is a part of the state of its own; that the two sides
    agree on it is a hypothesis of the theorems on resizing, and their conclusion.
    \<open>Client_Session\<close>: names of the operating system objects, \<^verbatim>\<open>tinyfile_init\<close> and \<^verbatim>\<open>tinyfile_exit\<close>.
  \<^item> \<open>Client_List\<close>: the server's doubly linked list of clients and the registration protocol (\<^verbatim>\<open>register_client\<close>, \<^verbatim>\<open>unregister_client\<close>,
    \<^verbatim>\<open>registry_handler\<close>, \<^verbatim>\<open>exit_server\<close>). \<open>Compress_Service\<close>: \<^verbatim>\<open>compress_service\<close> and \<^verbatim>\<open>handle_request\<close> on a map of files.
    \<open>Server_Worker\<close>: \<^verbatim>\<open>service_worker\<close> and the server's \<^verbatim>\<open>resize_shm\<close>, which discharges \<open>resize_server\<close>.
  \<^item> \<open>Tinyfile_System\<close>: client threads, request worker, message queue and server workers as a step relation, one step per critical section (taking a number, looking at one
    entry, receiving a request, counting it, serving it, counting it again), for a memory of fixed size; \<^verbatim>\<open>prepare_request\<close> is a sequence of these steps. Invariant of the reachable states,
    results are what the service made of the arguments of their requests, every call that has an entry completes. Its locale \<open>ending_runs\<close>, of systems whose runs end, is interpreted on it and on the whole system.
  \<^item> \<open>Tinyfile_World\<close>: any number of client processes from \<^verbatim>\<open>tinyfile_init\<close> to \<^verbatim>\<open>tinyfile_exit\<close>, the registry queue, the registry thread with the client list, and the
    workers of all clients as a step relation; clients leave at any time, and \<open>intact\<close> records whether the server has used, or is bound to use, a node
    that it has freed. The invariant of the intact states says that each process is a reachable system of \<open>Tinyfile_System\<close>, that the nodes of the client list are those of the
    registered processes, and which messages are in the registry queue. \<open>Tinyfile_Progress\<close>: who owns which object of the operating system, and that the whole
    system makes progress. The theorems on the whole system are in this theory.
  \<^item> \<open>Getopt\<close>: \<^verbatim>\<open>getopt\<close> and \<^verbatim>\<open>getopt_long\<close> of the C library on the arguments of a program. \<open>Sample_Client\<close>: \<^verbatim>\<open>src/client.c\<close> from its command line to its end. \<open>Server_Main\<close>: \<^verbatim>\<open>init_server\<close>, \<^verbatim>\<open>main\<close> and the exit handler of the server.

  \<^bold>\<open>State and steps.\<close> C structures are records, heap nodes live in a map from addresses (\<^verbatim>\<open>NULL\<close> is \<open>None\<close>, a freed node is not in the map), buffers are lists
  of bytes with every access checked, 32- and 64-bit integers are words where they can wrap. An operation under a mutex is one step; where the
  code releases a lock too early, the operation is split there (\<open>locate_entry\<close> and \<open>check_entry\<close>, \<open>async_req_q_free\<close> and
  \<open>async_req_q_stop\<close>). What the operating system answers, what \<^verbatim>\<open>malloc\<close> returns and what uninitialised memory holds are arguments.

  \<^bold>\<open>Budgets.\<close> A loop whose end is not evident gets an iteration budget; running out of it is the fault \<open>Nontermination\<close>. The theorems give a budget that is
  enough: the number of input bytes for the compressor and the decompressor, the length of the list for the queue and the client
  list, the index of the first free entry for the search. Waiting loops take the list of what the rest of the world does in each round.

  \<^bold>\<open>Where the code does not do what it means to.\<close> Theorems state it as behaviour: output files cut at the first NUL, buffer overflow by the suffix of the path,
  errors that the client never sees, use of freed client nodes, resizing that loses its lock or races with polling, a search that never looks at
  the memory it has just grown, a request number that is taken for a resize request, inputs of 2 GiB, two parsers of one header that differ, empty vectors that stop the compressor,
  compressed vectors that the decompressor rejects, a list of files that overruns its array, a client that goes on without memory, a client that leaves too early and ends the server,
  workers that go on after their client has been freed, a server that ends twice, offsets of 2 GiB that fail an assertion, a fuzzer that overruns its own buffer.

  \<^bold>\<open>Not modelled.\<close> Compressors outside the repository that \<^verbatim>\<open>glue.c\<close> calls and \<^verbatim>\<open>rand\<close>, which are arguments; the cycle counters of
  \<^verbatim>\<open>bench.c\<close>; the texts that are printed, beyond which message it is and its values; how long anything
  takes. A use of freed memory ends what is said of the whole system: \<open>intact\<close> is false from then on, and such states have no invariant (\<open>unregister_first_client_dangles\<close> and
  \<open>unregister_races_with_worker\<close> say what the operations do there). In the system of client and server, and in the whole system, the shared memory does not grow, as after
  \<^verbatim>\<open>tinyfile_set_shm_size\<close>; growing, which the default parameters allow, is covered for the single calls (\<open>resize_handshake\<close>, \<open>tinyfile_async_correct\<close>, \<open>poll_races_with_resize\<close>). Branches for other systems (Windows, big-endian machines) and \<^verbatim>\<open>snappy-int.h\<close>, whose macros repeat those of \<^verbatim>\<open>snappy.c\<close>.
\<close>

section \<open>Every client is served as if it were alone\<close>

text \<open>
  C11. Client processes come and leave at any time, also with calls that have not returned, and their steps, the server's workers and the registry thread interleave in any way; the
  memory of each has a fixed size. In every state of such a run up to the first use of a freed node (the first of several clients leaves, a client leaves while a worker holds a request
  that it has not counted, or a cancelled worker looks at its client once more): what a client sees is a run of the system of one client and the server, so that all that is shown of
  that system (\<open>requests_own_their_entries\<close>, \<open>results_belong_to_requests\<close>, \<open>request_counters_correct\<close>) holds for each of them; the server
  finds every registered process under its own node, which is allocated and whose record is the one its workers use, and no other process; and the registry thread
  does not use a freed node for the next message either.
\<close>

theorem clients_run_independently:
  assumes "world_run sz p io A w" "intact w" "card (dom (procs w)) < fuel"
  shows "find_client fuel (regs w) pid = Inr (Option.bind (procs w pid) pnode)
    \<and> (\<forall>pr. procs w pid = Some pr \<longrightarrow> reachable (tinyfile_set_shm_size (sz pid) p) io (A pid) (psys pr)
         \<and> (\<forall>a. pnode pr = Some a \<longrightarrow> (\<exists>n. c_heap (regs w) a = Some n \<and> client n = srv (psys pr) \<and> cl_pid (client n) = pid)))
    \<and> (\<forall>e es ans. registry_q (objs w) = e # es \<and> answers (objs w) (regs w) e ans \<longrightarrow> registry_handler_step fuel ans (regs w) e \<noteq> Inl Invalid_access)"
proof -
  obtain as where ok: "world_ok sz p io A w as" using possible_ok [of sz p io A w] assms(1,2) by (auto simp: possible_def)
  note D = world_okD [OF ok]
  have len: "length as < fuel" using length_le_processes [OF ok] assms(3) by simp
  have "find_client fuel (regs w) pid = Inr (Option.bind (procs w pid) pnode)"
  proof (cases "Option.bind (procs w pid) pnode")
    case None
    have "pid_at (c_heap (regs w)) a \<noteq> pid" if a: "a \<in> set as" for a
    proof -
      obtain q qr where q: "procs w q = Some qr" "pnode qr = Some a" using D(4) a by blast
      then have "pid_at (c_heap (regs w)) a = q" by (rule node_pid [OF ok])
      then show ?thesis using None q by (cases "q = pid") simp_all
    qed
    then show ?thesis using find_registered(2) [OF D(1) len] None by simp
  next
    case (Some a)
    then obtain pr where pr: "procs w pid = Some pr" "pnode pr = Some a" by (cases "procs w pid") auto
    then have "a \<in> set as" "pid_at (c_heap (regs w)) a = pid" using D(4) node_pid [OF ok pr] by blast+
    then show ?thesis using find_registered(1) [OF D(1) len, of a] Some by simp
  qed
  moreover have "\<exists>n. c_heap (regs w) a = Some n \<and> client n = srv (psys pr) \<and> cl_pid (client n) = pid"
    if "procs w pid = Some pr" "pnode pr = Some a" for pr a
    using process_okD(4,5) [OF D(3) [OF that(1)] that(2)] by (auto simp: data_at_def)
  moreover have "registry_handler_step fuel ans (regs w) e \<noteq> Inl Invalid_access"
    if "registry_q (objs w) = e # es" "answers (objs w) (regs w) e ans" for e es ans
    using registry_no_fault [OF ok that len] .
  ultimately show ?thesis using process_okD(1) [OF D(3)] by blast
qed

theorem clients_run_independently_witness:
  "\<exists>(w :: world) pr b. procs w 7 = Some pr \<and> find_client 2 (regs w) 7 = Inr (Some b) \<and> find_client 2 (regs w) 8 = Inr (Option.bind (procs w 8) pnode)
    \<and> reachable (tinyfile_set_shm_size 704 default_params) (example_io\<lparr>seek_end_ok := False\<rparr>) {arg zero_entry} (psys pr)"
proof -
  obtain w pr b where w: "possible first_client default_params (example_io\<lparr>seek_end_ok := False\<rparr>) (\<lambda>_. {arg zero_entry}) w"
    "procs w 7 = Some pr" "pnode pr = Some b" "card (dom (procs w)) < 2"
    by (rule served_possible)
  have r: "world_run first_client default_params (example_io\<lparr>seek_end_ok := False\<rparr>) (\<lambda>_. {arg zero_entry}) w" "intact w" using w(1) by (simp_all add: possible_def)
  show ?thesis
    by (rule exI [of _ w], rule exI [of _ pr], rule exI [of _ b])
      (use clients_run_independently [OF r w(4), of 7] clients_run_independently [OF r w(4), of 8] w(2,3) in \<open>simp add: first_client_def\<close>)
qed

section \<open>Every call completes\<close>

text \<open>
  C12. The calls of all clients complete. In every possible state of the whole system in which no client has left, if the service returns on the arguments
  of all clients: the server and the workers of the libraries cannot run for ever without new requests, and however their steps are scheduled, when none is left
  to do, the registry queue is empty, every process that had called \<^verbatim>\<open>tinyfile_init\<close> is registered, and the next poll of each of its unfinished calls returns a result.
\<close>

theorem all_clients_complete:
  assumes "possible sz p io A w" "\<forall>pr \<in> ran (procs w). \<not> exited pr" "\<forall>pid. service_returns io (A pid)"
  shows "(\<nexists>f. f 0 = w \<and> (\<forall>n. serves io (f n) (f (Suc n))))
    \<and> (\<forall>w'. (serves io)\<^sup>*\<^sup>* w w' \<and> (\<nexists>w''. serves io w' w'') \<longrightarrow> registry_q (objs w') = []
         \<and> (\<forall>pid pr. procs w pid = Some pr \<longrightarrow>
              (\<exists>pr'. procs w' pid = Some pr' \<and> pnode pr' \<noteq> None \<and> submitted (psys pr') = submitted (psys pr)
                 \<and> (\<forall>i \<in> dom (submitted (psys pr)). \<exists>out l. is_request_done i (lib (psys pr')) = Inr (Some out, l)))))"
proof (intro conjI allI impI)
  show "\<nexists>f. f 0 = w \<and> (\<forall>n. serves io (f n) (f (Suc n)))"
    by (rule whole.no_infinite_run [of sz p io A]) (use assms(1,2) in \<open>simp add: nobody_left_def\<close>)
next
  fix w'
  assume run: "(serves io)\<^sup>*\<^sup>* w w' \<and> (\<nexists>w''. serves io w' w'')"
  then have w': "possible sz p io A w'" "nobody_left w'" "same_calls w w'"
    using serves_run [OF _ assms(1)] assms(2) by (auto simp: nobody_left_def)
  note stuck = stuck_world_done [OF w'(1,2) _ assms(3)]
  show "registry_q (objs w') = []" using stuck(1) run by blast
  fix pid pr
  assume "procs w pid = Some pr"
  then obtain pr' where pr': "procs w' pid = Some pr'" "submitted (psys pr') = submitted (psys pr)"
    using w'(3) by (auto simp: same_calls_def)
  have "\<nexists>w''. serves io w' w''" using run by blast
  from stuck(2) [OF this pr'(1)] pr'
  show "\<exists>pr'. procs w' pid = Some pr' \<and> pnode pr' \<noteq> None \<and> submitted (psys pr') = submitted (psys pr)
      \<and> (\<forall>i \<in> dom (submitted (psys pr)). \<exists>out l. is_request_done i (lib (psys pr')) = Inr (Some out, l))"
    by (intro exI [of _ pr']) simp
qed

theorem all_clients_complete_witness:
  "\<exists>(w :: world) w' pr pr' out l. procs w 7 = Some pr \<and> pnode pr = None \<and> 0 \<in> dom (submitted (psys pr))
    \<and> (serves (example_io\<lparr>seek_end_ok := False\<rparr>))\<^sup>*\<^sup>* w w' \<and> procs w' 7 = Some pr' \<and> is_request_done 0 (lib (psys pr')) = Inr (Some out, l)"
proof -
  let ?io = "example_io\<lparr>seek_end_ok := False\<rparr>" and ?A = "\<lambda>_ :: int. {arg zero_entry}"
  obtain s where w: "possible first_client default_params ?io ?A
      \<lparr>objs = joined, regs = empty_registry, procs = [7 \<mapsto> \<lparr>psys = s, pnode = None, exited = False\<rparr>], disk = example_os ''a'' [65], intact = True, orphans = []\<rparr>"
      "submitted s = [0 \<mapsto> arg zero_entry]"
    using submitted_possible [of "arg zero_entry" "example_os ''a'' [65]"] by blast
  let ?w = "\<lparr>objs = joined, regs = empty_registry, procs = [7 \<mapsto> \<lparr>psys = s, pnode = None, exited = False\<rparr>], disk = example_os ''a'' [65], intact = True, orphans = []\<rparr>"
  have c: "\<forall>pr \<in> ran (procs ?w). \<not> exited pr" "\<forall>pid. service_returns ?io (?A pid)" by (auto simp: ran_def failing_seek_returns)
  note fin = all_clients_complete [OF w(1) c]
  obtain w' where w': "(serves ?io)\<^sup>*\<^sup>* ?w w'" "\<nexists>w''. serves ?io w' w''"
    using whole.complete_run [of first_client default_params ?io ?A ?w] w(1) c(1) by (auto simp: nobody_left_def)
  then obtain pr' where pr': "procs w' 7 = Some pr'" "\<forall>i \<in> dom (submitted s). \<exists>out l. is_request_done i (lib (psys pr')) = Inr (Some out, l)"
    using fin [THEN conjunct2, rule_format, of w', THEN conjunct2, rule_format, of 7] by auto
  then obtain out l where "is_request_done 0 (lib (psys pr')) = Inr (Some out, l)" using w(2) by auto
  then show ?thesis using w' pr'(1) w(2)
    by (intro exI [of _ ?w] exI [of _ w'] exI [of _ "\<lparr>psys = s, pnode = None, exited = False\<rparr>"] exI [of _ pr'] exI [of _ out] exI [of _ l]) simp
qed

section \<open>What stops the server\<close>

text \<open>
  C37. A client that calls \<^verbatim>\<open>tinyfile_exit\<close> before the server has read its registration ends the server: its message queues are gone, and
  the registry thread calls \<^verbatim>\<open>exit(EXIT_FAILURE)\<close>, whatever other clients are being served.
\<close>

theorem early_exit_stops_server:
  assumes "possible sz p io A w" "registry_q (objs w) = e # es" "procs w (reg_pid e) = Some pr" "exited pr" "pnode pr = None"
    "answers (objs w) (regs w) e ans" "card (dom (procs w)) < fuel"
  shows "registry_handler_step fuel ans (regs w) e = Inr None"
proof -
  obtain as where ok: "world_ok sz p io A w as" using possible_ok [OF assms(1)] by blast
  note O = objects_okD [OF possible_objects [OF assms(1)]]
  obtain cs where "messages_of (Some pr) = cmd e # cs" using first_message [OF ok assms(2)] assms(3) by (metis option.inject)
  then have c: "cmd e = TINYFILE_CLIENT_REGISTER" using assms(5) by (simp add: messages_of_def)
  have "length as < fuel" using length_le_processes [OF ok] assms(7) by simp
  then have "find_client fuel (regs w) (reg_pid e) = Inr None"
    using find_registered(2) [OF world_okD(1) [OF ok] _ unregistered_not_found [OF ok assms(3,5)]] by simp
  moreover have "open_recv_q ans = None"
    using O(3) [OF assms(3)] O(2) [of e] assms(2,4,6) unfolding answers_def names_for_def names_free_def sent_by_def by simp
  ultimately show ?thesis using c by (simp add: registry_handler_step_def register_client_def)
qed

theorem early_exit_stops_server_witness:
  "\<exists>(w :: world) pr. procs w 7 = Some pr \<and> exited pr \<and> registry_q (objs w) \<noteq> []
    \<and> registry_handler_step 2 \<lparr>open_recv_q = None, open_send_q = None, open_shm_size = None, new_node = Some 0, stack_client = example_client_record\<rparr> (regs w) (hd (registry_q (objs w))) = Inr None"
proof -
  let ?st = "example_os ''a'' [65]" and ?A = "\<lambda>_ :: int. {arg zero_entry}"
  obtain l where l: "possible first_client default_params example_io ?A
        \<lparr>objs = joined, regs = empty_registry, procs = [7 \<mapsto> started l example_client_record ?st], disk = ?st, intact = True, orphans = []\<rparr>"
      "initial (tinyfile_set_shm_size 704 default_params) (psys (started l example_client_record ?st))" "INIT l" "getpid l = 7"
    by (rule joined_possible [of ?st]) blast
  let ?w = "\<lparr>objs = joined, regs = empty_registry, procs = [7 \<mapsto> started l example_client_record ?st], disk = ?st, intact = True, orphans = []\<rparr>"
  let ?os = "server_running\<lparr>registry_q := [registry_entry_of TINYFILE_CLIENT_REGISTER new_process, registry_entry_of TINYFILE_CLIENT_UNREGISTER l]\<rparr>"
  have "queue (request_queue l) = None" using l(2) by (simp add: initial_def started_def new_sys_def)
  then obtain l' where "tinyfile_exit 1 example_start joined l = Inr (0, ?os, l')"
    using exit_ok [OF example_session(1), of server_running l 1 "registry_q joined"] example_session(2) l(3,4) by (auto simp: joined_def)
  then have "outside first_client default_params ?A ?w (?w\<lparr>objs := ?os, procs := (procs ?w)(7 \<mapsto> (started l example_client_record ?st)\<lparr>exited := True\<rparr>)\<rparr>)"
    by (intro outside.exit) (simp_all add: started_def new_sys_def)
  from possible_outside [OF l(1) this] have w: "possible first_client default_params example_io ?A
      \<lparr>objs = ?os, regs = empty_registry, procs = [7 \<mapsto> (started l example_client_record ?st)\<lparr>exited := True\<rparr>], disk = ?st, intact = True, orphans = []\<rparr>" by simp
  let ?w = "\<lparr>objs = ?os, regs = empty_registry, procs = [7 \<mapsto> (started l example_client_record ?st)\<lparr>exited := True\<rparr>], disk = ?st, intact = True, orphans = []\<rparr>"
  have "registry_handler_step 2 \<lparr>open_recv_q = None, open_send_q = None, open_shm_size = None, new_node = Some 0, stack_client = example_client_record\<rparr> (regs ?w)
      (registry_entry_of TINYFILE_CLIENT_REGISTER new_process) = Inr None"
    by (rule early_exit_stops_server [OF w, where pr = "(started l example_client_record ?st)\<lparr>exited := True\<rparr>"])
      (simp_all add: answers_def server_running_def registry_entry_of_def empty_registry_def name_defs started_def new_sys_def)
  then show ?thesis by (intro exI [of _ ?w] exI [of _ "(started l example_client_record ?st)\<lparr>exited := True\<rparr>"]) simp
qed

end
